(* ===== verification/Prelude.thy ===== *)
theory Prelude
  imports Main "HOL-Library.Word" "HOL-Library.AList"
begin

text \<open>
  Shared vocabulary of the development: the machine types of the C++ sources, the
  \<^verbatim>\<open>std::string\<close> operations they use, and the native (little-endian, LP64) byte images of
  \<^verbatim>\<open>int\<close>, \<^verbatim>\<open>size_t\<close>, \<^verbatim>\<open>off_t\<close> and \<^verbatim>\<open>mode_t\<close> that the sync protocol puts on the wire.
  A C++ \<^verbatim>\<open>char\<close> is an Isabelle \<^typ>\<open>char\<close> (eight bits), so a buffer and a string have the
  same type.  \<^verbatim>\<open>off_t\<close>, \<^verbatim>\<open>time_t\<close> and \<^verbatim>\<open>ssize_t\<close> are \<^typ>\<open>int\<close>, \<^verbatim>\<open>size_t\<close> is \<^typ>\<open>nat\<close>;
  the wrap-around is written out where a value of fixed width is decoded.
\<close>

named_theorems nominal \<open>behaviour of a system call when the kernel has no fault left to deliver\<close>
named_theorems frame \<open>fields of the world that an operation leaves alone\<close>

unbundle bit_operations_syntax

type_synonym byte = char
type_synonym mode_t = "32 word"
type_synonym off_t = int
type_synonym time_t = int

section \<open>Strings\<close>

text \<open>\<^verbatim>\<open>std::string::c_str()\<close> as the kernel reads it: up to the first NUL.\<close>

definition cstr :: "string \<Rightarrow> string" where
  "cstr s = takeWhile (\<lambda>c. c \<noteq> CHR 0x00) s"

text \<open>\<^verbatim>\<open>s.find(c, pos)\<close>: \<^term>\<open>None\<close> is \<^verbatim>\<open>npos\<close>.\<close>

definition str_find :: "char \<Rightarrow> string \<Rightarrow> nat \<Rightarrow> nat option" where
  "str_find c s pos =
     (let i = length (takeWhile (\<lambda>x. x \<noteq> c) (drop pos s))
      in if pos + i < length s then Some (pos + i) else None)"

text \<open>\<^verbatim>\<open>s.find_last_of(c)\<close>.\<close>

definition find_last_of :: "char \<Rightarrow> string \<Rightarrow> nat option" where
  "find_last_of c s =
     (let i = length (takeWhile (\<lambda>x. x \<noteq> c) (rev s))
      in if i < length s then Some (length s - Suc i) else None)"

text \<open>The components of a path name: the pieces between slashes, empty ones included.\<close>

fun split_slash :: "string \<Rightarrow> string list" where
  "split_slash [] = [[]]"
| "split_slash (c # s) =
     (if c = CHR ''/'' then [] # split_slash s
      else (c # hd (split_slash s)) # tl (split_slash s))"

lemma split_slash_ne [simp]: "split_slash s \<noteq> []"
  by (induction s) auto

lemma split_slash_plain: "CHR ''/'' \<notin> set s \<Longrightarrow> split_slash s = [s]"
  by (induction s) auto

lemma split_slash_append:
  "split_slash (s @ CHR ''/'' # t) = split_slash s @ split_slash t"
proof (induction s)
  case (Cons c s)
  then show ?case by (cases "split_slash s") auto
qed simp

lemma cstr_append_plain: "CHR 0x00 \<notin> set s \<Longrightarrow> cstr (s @ t) = s @ cstr t"
  by (induction s) (auto simp: cstr_def)

lemma cstr_id: "CHR 0x00 \<notin> set s \<Longrightarrow> cstr s = s"
  by (auto simp: cstr_def takeWhile_eq_all_conv)

lemma takeWhile_neq_length:
  "length (takeWhile (\<lambda>x. x \<noteq> c) xs) < length xs \<Longrightarrow>
     xs ! length (takeWhile (\<lambda>x. x \<noteq> c) xs) = c"
  using nth_length_takeWhile [of "\<lambda>x. x \<noteq> c" xs] by simp

lemma str_find_Some:
  assumes "str_find c s pos = Some n"
  shows "pos \<le> n" "n < length s" "s ! n = c"
proof -
  let ?i = "length (takeWhile (\<lambda>x. x \<noteq> c) (drop pos s))"
  from assms have n: "n = pos + ?i" "pos + ?i < length s"
    by (auto simp: str_find_def Let_def split: if_splits)
  then show "pos \<le> n" "n < length s" by auto
  from n have "?i < length (drop pos s)" by auto
  from takeWhile_neq_length [OF this] n show "s ! n = c" by (simp add: nth_drop)
qed

lemma str_find_range: "str_find c s pos = Some n \<Longrightarrow> pos \<le> n \<and> n < length s"
  using str_find_Some by blast

lemma str_find_None:
  "str_find c s pos = None \<Longrightarrow> c \<notin> set (drop pos s)"
proof
  assume a: "str_find c s pos = None" and "c \<in> set (drop pos s)"
  then have "length (takeWhile (\<lambda>x. x \<noteq> c) (drop pos s)) < length (drop pos s)"
    by (metis (mono_tags, lifting) length_takeWhile_le nat_less_le takeWhile_eq_all_conv
        takeWhile_eq_take take_all_iff)
  with a show False by (auto simp: str_find_def Let_def split: if_splits)
qed

lemma find_last_of_Some:
  assumes "find_last_of c s = Some n"
  shows "n < length s" "s = take n s @ c # drop (Suc n) s" "c \<notin> set (drop (Suc n) s)"
proof -
  let ?r = "takeWhile (\<lambda>x. x \<noteq> c) (rev s)"
  from assms have n: "n = length s - Suc (length ?r)" "length ?r < length s"
    by (auto simp: find_last_of_def Let_def split: if_splits)
  then show l: "n < length s" by auto
  have "rev s ! length ?r = c" using takeWhile_neq_length [of c "rev s"] n by simp
  with n have "s ! n = c" by (simp add: rev_nth)
  with l show "s = take n s @ c # drop (Suc n) s" by (metis id_take_nth_drop)
  have "drop (Suc n) s = rev ?r"
    using n by (metis Suc_diff_Suc diff_diff_cancel length_rev less_or_eq_imp_le rev_rev_ident
        rev_take takeWhile_eq_take)
  then show "c \<notin> set (drop (Suc n) s)" by (auto dest: set_takeWhileD)
qed

lemma find_last_of_None: "find_last_of c s = None \<longleftrightarrow> c \<notin> set s"
proof -
  have "length (takeWhile (\<lambda>x. x \<noteq> c) (rev s)) < length s \<longleftrightarrow> c \<in> set s"
    by (metis (mono_tags, lifting) length_rev length_takeWhile_le nat_less_le set_rev
        takeWhile_eq_all_conv takeWhile_eq_take take_all_iff)
  then show ?thesis by (auto simp: find_last_of_def Let_def)
qed

section \<open>Native byte images\<close>

fun le_bytes :: "nat \<Rightarrow> nat \<Rightarrow> byte list" where
  "le_bytes 0 n = []"
| "le_bytes (Suc k) n = char_of n # le_bytes k (n div 256)"

fun le_nat :: "byte list \<Rightarrow> nat" where
  "le_nat [] = 0"
| "le_nat (b # bs) = of_char b + 256 * le_nat bs"

lemma length_le_bytes [simp]: "length (le_bytes k n) = k"
  by (induction k arbitrary: n) auto

lemma le_nat_le_bytes: "le_nat (le_bytes k n) = n mod 256 ^ k"
proof (induction k arbitrary: n)
  case (Suc k)
  have "n mod (256 * 256 ^ k) = 256 * (n div 256 mod 256 ^ k) + n mod 256"
    by (rule mod_mult2_eq)
  with Suc show ?case by simp
qed simp

lemma le_nat_less: "le_nat bs < 256 ^ length bs"
proof (induction bs)
  case (Cons b bs)
  have "(of_char b :: nat) < 256" by simp
  moreover from Cons have "256 * le_nat bs + 256 \<le> 256 * 256 ^ length bs" by simp
  ultimately show ?case by (simp del: nat_of_char_less_256)
qed simp

lemma le_bytes_le_nat: "le_bytes (length bs) (le_nat bs) = bs"
proof (induction bs)
  case (Cons b bs)
  have "(of_char b :: nat) < 256" by simp
  then have "(of_char b + 256 * le_nat bs) div 256 = le_nat bs" by simp
  moreover have "char_of (of_char b + 256 * le_nat bs :: nat) = b"
    by (simp add: char_of_eq_iff take_bit_eq_mod)
  ultimately show ?case using Cons by simp
qed simp

definition to_signed :: "nat \<Rightarrow> nat \<Rightarrow> int" where
  "to_signed bits n = (if n < 2 ^ (bits - 1) then int n else int n - 2 ^ bits)"

definition of_signed :: "nat \<Rightarrow> int \<Rightarrow> nat" where
  "of_signed bits i = nat (i mod 2 ^ bits)"

lemma to_signed_of_signed:
  assumes "0 < b" "- (2 ^ (b - 1)) \<le> i" "i < 2 ^ (b - 1)"
  shows "to_signed b (of_signed b i) = i"
proof -
  have two: "(2::int) ^ b = 2 * 2 ^ (b - 1)" using assms(1) by (cases b) auto
  show ?thesis
  proof (cases "0 \<le> i")
    case True
    with assms two have "i mod 2 ^ b = i" by simp
    with True assms show ?thesis
      by (simp add: to_signed_def of_signed_def nat_less_iff)
  next
    case False
    with assms two have "i mod 2 ^ b = i + 2 ^ b"
      by (intro mod_pos_pos_trivial [of "i + 2 ^ b" "2 ^ b", unfolded mod_add_self2]) auto
    moreover have "\<not> nat (i + 2 ^ b) < 2 ^ (b - 1)"
      using assms two False by (auto simp: nat_less_iff)
    moreover have "0 \<le> i + 2 ^ b" using assms two by auto
    ultimately show ?thesis by (simp add: to_signed_def of_signed_def)
  qed
qed

definition enc_int :: "int \<Rightarrow> byte list" where
  "enc_int i = le_bytes 4 (of_signed 32 i)"

definition dec_int :: "byte list \<Rightarrow> int" where
  "dec_int bs = to_signed 32 (le_nat bs)"

definition enc_size_t :: "nat \<Rightarrow> byte list" where
  "enc_size_t n = le_bytes 8 n"

definition dec_size_t :: "byte list \<Rightarrow> nat" where
  "dec_size_t bs = le_nat bs"

definition enc_off_t :: "off_t \<Rightarrow> byte list" where
  "enc_off_t i = le_bytes 8 (of_signed 64 i)"

definition dec_off_t :: "byte list \<Rightarrow> off_t" where
  "dec_off_t bs = to_signed 64 (le_nat bs)"

definition enc_mode_t :: "mode_t \<Rightarrow> byte list" where
  "enc_mode_t m = le_bytes 4 (unat m)"

definition dec_mode_t :: "byte list \<Rightarrow> mode_t" where
  "dec_mode_t bs = of_nat (le_nat bs)"

lemma length_enc [simp]:
  "length (enc_int i) = 4" "length (enc_size_t n) = 8" "length (enc_off_t i) = 8"
  "length (enc_mode_t m) = 4"
  by (simp_all add: enc_int_def enc_size_t_def enc_off_t_def enc_mode_t_def)

lemma of_signed_less: "of_signed b i < 2 ^ b"
  by (simp add: of_signed_def nat_less_iff)

lemma dec_enc_int: "- (2 ^ 31) \<le> i \<Longrightarrow> i < 2 ^ 31 \<Longrightarrow> dec_int (enc_int i) = i"
  using of_signed_less [of 32 i] to_signed_of_signed [of 32 i]
  by (simp add: dec_int_def enc_int_def le_nat_le_bytes)

lemma dec_enc_off_t: "- (2 ^ 63) \<le> i \<Longrightarrow> i < 2 ^ 63 \<Longrightarrow> dec_off_t (enc_off_t i) = i"
  using of_signed_less [of 64 i] to_signed_of_signed [of 64 i]
  by (simp add: dec_off_t_def enc_off_t_def le_nat_le_bytes)

lemma dec_enc_size_t: "n < 2 ^ 64 \<Longrightarrow> dec_size_t (enc_size_t n) = n"
  by (simp add: dec_size_t_def enc_size_t_def le_nat_le_bytes)

lemma dec_enc_mode_t [simp]: "dec_mode_t (enc_mode_t m) = m"
  using unsigned_less [of m, where ?'a = nat] by (simp add: dec_mode_t_def enc_mode_t_def le_nat_le_bytes)

section \<open>Decimal digits\<close>

definition is_digit :: "char \<Rightarrow> bool" where
  "is_digit c \<longleftrightarrow> 48 \<le> (of_char c :: nat) \<and> (of_char c :: nat) \<le> 57"

definition digit_val :: "char \<Rightarrow> nat" where
  "digit_val c = of_char c - 48"

definition dec_value :: "string \<Rightarrow> nat" where
  "dec_value s = foldl (\<lambda>n c. 10 * n + digit_val c) 0 s"

fun split_on :: "char \<Rightarrow> string \<Rightarrow> string list" where
  "split_on d [] = [[]]"
| "split_on d (c # s) =
     (if c = d then [] # split_on d s else (c # hd (split_on d s)) # tl (split_on d s))"

section \<open>C integers\<close>

text \<open>C division truncates towards zero.\<close>

definition c_div :: "int \<Rightarrow> int \<Rightarrow> int" where
  "c_div a b = sgn a * sgn b * (\<bar>a\<bar> div \<bar>b\<bar>)"

definition c_mod :: "int \<Rightarrow> int \<Rightarrow> int" where
  "c_mod a b = a - b * c_div a b"

text \<open>Conversion of a wider integer to \<^verbatim>\<open>int\<close>.\<close>

definition to_int32 :: "int \<Rightarrow> int" where
  "to_int32 i = to_signed 32 (of_signed 32 i)"

lemma to_int32_id: "- (2 ^ 31) \<le> i \<Longrightarrow> i < 2 ^ 31 \<Longrightarrow> to_int32 i = i"
  using to_signed_of_signed [of 32 i] by (simp add: to_int32_def)

lemma c_div_pos: "0 \<le> a \<Longrightarrow> 0 < b \<Longrightarrow> c_div a b = a div b"
  by (cases "a = 0") (simp_all add: c_div_def)

end
