(* ===== verification/Posix.thy ===== *)
theory Posix
  imports Prelude
begin

text \<open>
  The part of Linux and of the C++ stream library that the sources call: a tree of inodes,
  path-name resolution, the file and socket system calls, and \<^verbatim>\<open>ifstream\<close>/\<^verbatim>\<open>ofstream\<close>.

  A file system is an association list from canonical paths (lists of names from the root) to
  inodes; its order is the order in which \<^verbatim>\<open>readdir\<close> reports entries.  Symbolic and hard links
  do not occur.  What the kernel decides on its own is explicit: \<open>w_script\<close> lists, call by
  call, the faults, interruptions and short transfers it will deliver, and once the list is used
  up every call succeeds in full.  Every run that ends is described by such a finite list.
  Calls that only look (\<^verbatim>\<open>stat\<close>, \<^verbatim>\<open>opendir\<close>, \<^verbatim>\<open>statvfs\<close>) are functions of the file system;
  \<open>w_unreadable\<close> names the files the process may not open for reading.  A socket is the list of
  bytes its peer sends before closing, and the list of bytes accepted so far for the peer.
\<close>

section \<open>State\<close>

type_synonym fpath = "string list"

record inode =
  i_mode :: mode_t
  i_mtime :: time_t
  i_ctime :: time_t
  i_data :: "byte list"

type_synonym filesys = "(fpath \<times> inode) list"

datatype ev = Nominal | Intr | Short nat | Fail

record world =
  w_fs :: filesys
  w_cwd :: fpath
  w_clock :: time_t
  w_umask :: mode_t
  w_unreadable :: "fpath \<Rightarrow> bool"
  w_dsize :: "fpath \<Rightarrow> nat"
  w_statvfs :: "fpath \<Rightarrow> nat \<times> nat \<times> nat"
  w_peer :: "string \<Rightarrow> nat \<Rightarrow> byte list option"
  w_pending :: "byte list list"
  w_open :: "int list"
  w_nextfd :: int
  w_in :: "int \<Rightarrow> byte list"
  w_out :: "int \<Rightarrow> byte list"
  w_slept :: nat
  w_script :: "ev list"

definition S_IFMT :: mode_t where "S_IFMT = 0xF000"
definition S_IFREG :: mode_t where "S_IFREG = 0x8000"
definition S_IFDIR :: mode_t where "S_IFDIR = 0x4000"

definition S_ISREG :: "mode_t \<Rightarrow> bool" where
  "S_ISREG m \<longleftrightarrow> m AND S_IFMT = S_IFREG"

definition S_ISDIR :: "mode_t \<Rightarrow> bool" where
  "S_ISDIR m \<longleftrightarrow> m AND S_IFMT = S_IFDIR"

definition next_ev :: "world \<Rightarrow> ev \<times> world" where
  "next_ev w = (case w_script w of [] \<Rightarrow> (Nominal, w) | e # es \<Rightarrow> (e, w\<lparr>w_script := es\<rparr>))"

definition sleep_ms :: "nat \<Rightarrow> world \<Rightarrow> world" where
  "sleep_ms n w = w\<lparr>w_slept := w_slept w + n\<rparr>"

section \<open>Path names\<close>

definition is_dir :: "filesys \<Rightarrow> fpath \<Rightarrow> bool" where
  "is_dir fs k = (case map_of fs k of None \<Rightarrow> False | Some i \<Rightarrow> S_ISDIR (i_mode i))"

fun walk :: "filesys \<Rightarrow> fpath \<Rightarrow> string list \<Rightarrow> fpath option" where
  "walk fs k [] = Some k"
| "walk fs k (c # cs) =
     (if \<not> is_dir fs k then None
      else if c = [] \<or> c = ''.'' then walk fs k cs
      else if c = ''..'' then walk fs (butlast k) cs
      else walk fs (k @ [c]) cs)"

definition path_start :: "world \<Rightarrow> string \<Rightarrow> fpath" where
  "path_start w q = (if hd q = CHR ''/'' then [] else w_cwd w)"

definition resolve :: "world \<Rightarrow> string \<Rightarrow> fpath option" where
  "resolve w p =
     (let q = cstr p in
      if q = [] then None else walk (w_fs w) (path_start w q) (split_slash q))"

text \<open>\<^verbatim>\<open>mkdir\<close> ignores trailing slashes.\<close>

definition strip_slashes :: "string list \<Rightarrow> string list" where
  "strip_slashes cs = rev (dropWhile (\<lambda>c. c = []) (rev cs))"

definition resolve_mkdir :: "world \<Rightarrow> string \<Rightarrow> fpath option" where
  "resolve_mkdir w p =
     (let q = cstr p in
      if q = [] then None
      else walk (w_fs w) (path_start w q) (strip_slashes (split_slash q)))"

definition lookup :: "world \<Rightarrow> string \<Rightarrow> inode option" where
  "lookup w p = (case resolve w p of None \<Rightarrow> None | Some k \<Rightarrow> map_of (w_fs w) k)"

section \<open>Calls that look\<close>

record stat_t =
  st_mode :: mode_t
  st_size :: off_t
  st_mtime :: time_t
  st_ctime :: time_t

definition stat_of :: "world \<Rightarrow> fpath \<Rightarrow> inode \<Rightarrow> stat_t" where
  "stat_of w k i =
     \<lparr>st_mode = i_mode i,
      st_size = (if S_ISDIR (i_mode i) then int (w_dsize w k) else int (length (i_data i))),
      st_mtime = i_mtime i, st_ctime = i_ctime i\<rparr>"

definition sys_stat :: "world \<Rightarrow> string \<Rightarrow> stat_t option" where
  "sys_stat w p =
     (case resolve w p of None \<Rightarrow> None
      | Some k \<Rightarrow> map_option (stat_of w k) (map_of (w_fs w) k))"

definition entries :: "filesys \<Rightarrow> fpath \<Rightarrow> string list" where
  "entries fs k = map last (filter (\<lambda>p. p \<noteq> [] \<and> butlast p = k) (map fst fs))"

definition sys_opendir :: "world \<Rightarrow> string \<Rightarrow> string list option" where
  "sys_opendir w p =
     (case resolve w p of None \<Rightarrow> None
      | Some k \<Rightarrow> if is_dir (w_fs w) k then Some (''.'' # ''..'' # entries (w_fs w) k) else None)"

definition sys_statvfs :: "world \<Rightarrow> string \<Rightarrow> (nat \<times> nat \<times> nat) option" where
  "sys_statvfs w p =
     (case resolve w p of None \<Rightarrow> None
      | Some k \<Rightarrow> if map_of (w_fs w) k = None then None else Some (w_statvfs w k))"

section \<open>Calls that change the tree\<close>

definition touch :: "time_t \<Rightarrow> fpath \<Rightarrow> filesys \<Rightarrow> filesys" where
  "touch t k fs =
     (case map_of fs k of None \<Rightarrow> fs
      | Some i \<Rightarrow> AList.update k (i\<lparr>i_mtime := t, i_ctime := t\<rparr>) fs)"

definition add_entry :: "time_t \<Rightarrow> fpath \<Rightarrow> inode \<Rightarrow> filesys \<Rightarrow> filesys" where
  "add_entry t k i fs = touch t (butlast k) (AList.update k i fs)"

definition new_inode :: "world \<Rightarrow> mode_t \<Rightarrow> mode_t \<Rightarrow> inode" where
  "new_inode w fmt perm =
     \<lparr>i_mode = fmt OR (perm AND NOT (w_umask w)), i_mtime = w_clock w, i_ctime = w_clock w,
      i_data = []\<rparr>"

definition sys_mkdir :: "world \<Rightarrow> string \<Rightarrow> mode_t \<Rightarrow> bool \<times> world" where
  "sys_mkdir w p mode =
     (let (e, w1) = next_ev w in
      if e = Fail then (False, w1)
      else case resolve_mkdir w1 p of None \<Rightarrow> (False, w1)
       | Some k \<Rightarrow>
          if map_of (w_fs w1) k \<noteq> None then (False, w1)
          else (True, w1\<lparr>w_fs := add_entry (w_clock w1) k
                  (new_inode w1 S_IFDIR (mode AND 0x3FF)) (w_fs w1)\<rparr>))"

definition sys_chmod :: "world \<Rightarrow> string \<Rightarrow> mode_t \<Rightarrow> bool \<times> world" where
  "sys_chmod w p mode =
     (let (e, w1) = next_ev w in
      if e = Fail then (False, w1)
      else case resolve w1 p of None \<Rightarrow> (False, w1)
       | Some k \<Rightarrow>
          (case map_of (w_fs w1) k of None \<Rightarrow> (False, w1)
           | Some i \<Rightarrow>
              (True, w1\<lparr>w_fs := AList.update k
                 (i\<lparr>i_mode := (i_mode i AND S_IFMT) OR (mode AND 0xFFF), i_ctime := w_clock w1\<rparr>)
                 (w_fs w1)\<rparr>)))"

text \<open>\<^verbatim>\<open>std::remove\<close>: \<^verbatim>\<open>unlink\<close> for a file, \<^verbatim>\<open>rmdir\<close> for a directory.\<close>

definition sys_remove :: "world \<Rightarrow> string \<Rightarrow> bool \<times> world" where
  "sys_remove w p =
     (let (e, w1) = next_ev w in
      if e = Fail then (False, w1)
      else case resolve w1 p of None \<Rightarrow> (False, w1)
       | Some k \<Rightarrow>
          if k = [] \<or> map_of (w_fs w1) k = None \<or> entries (w_fs w1) k \<noteq> [] then (False, w1)
          else (True, w1\<lparr>w_fs := touch (w_clock w1) (butlast k) (AList.delete k (w_fs w1))\<rparr>))"

definition is_prefix :: "fpath \<Rightarrow> fpath \<Rightarrow> bool" where
  "is_prefix k p = (take (length k) p = k)"

definition rebase :: "fpath \<Rightarrow> fpath \<Rightarrow> fpath \<Rightarrow> fpath" where
  "rebase k k' p = (if is_prefix k p then k' @ drop (length k) p else p)"

definition sys_rename :: "world \<Rightarrow> string \<Rightarrow> string \<Rightarrow> bool \<times> world" where
  "sys_rename w p q =
     (let (e, w1) = next_ev w; fs = w_fs w1 in
      if e = Fail then (False, w1)
      else case (resolve_mkdir w1 p, resolve_mkdir w1 q) of
        (Some k, Some k') \<Rightarrow>
          if map_of fs k = None then (False, w1)
          else if k = k' then (True, w1)
          else if is_prefix k k' \<or> k = [] \<or> k' = [] then (False, w1)
          else if map_of fs k' \<noteq> None \<and> (is_dir fs k \<noteq> is_dir fs k' \<or> entries fs k' \<noteq> [])
            then (False, w1)
          else (True, w1\<lparr>w_fs := touch (w_clock w1) (butlast k') (touch (w_clock w1) (butlast k)
                  (map (\<lambda>(p, i). (rebase k k' p, i)) (AList.delete k' fs)))\<rparr>)
      | _ \<Rightarrow> (False, w1))"

section \<open>Open files\<close>

text \<open>\<open>sys_open_w w p perm creat trunc\<close> is \<^verbatim>\<open>open(p, O_WRONLY | ..., perm)\<close>; an open file is named
  by its canonical path.\<close>

definition sys_open_w :: "world \<Rightarrow> string \<Rightarrow> mode_t \<Rightarrow> bool \<Rightarrow> bool \<Rightarrow> fpath option \<times> world" where
  "sys_open_w w p perm creat trunc =
     (let (e, w1) = next_ev w in
      if e = Fail then (None, w1)
      else case resolve w1 p of None \<Rightarrow> (None, w1)
       | Some k \<Rightarrow>
          (case map_of (w_fs w1) k of
             None \<Rightarrow> if creat then (Some k, w1\<lparr>w_fs := add_entry (w_clock w1) k
                                (new_inode w1 S_IFREG perm) (w_fs w1)\<rparr>)
                     else (None, w1)
           | Some i \<Rightarrow>
               if S_ISDIR (i_mode i) then (None, w1)
               else if trunc then (Some k, w1\<lparr>w_fs := AList.update k
                      (i\<lparr>i_data := [], i_mtime := w_clock w1, i_ctime := w_clock w1\<rparr>) (w_fs w1)\<rparr>)
               else (Some k, w1)))"

definition sys_open_r :: "world \<Rightarrow> string \<Rightarrow> fpath option" where
  "sys_open_r w p =
     (case resolve w p of None \<Rightarrow> None
      | Some k \<Rightarrow> if w_unreadable w k \<or> map_of (w_fs w) k = None then None else Some k)"

definition set_data :: "fpath \<Rightarrow> (byte list \<Rightarrow> byte list) \<Rightarrow> world \<Rightarrow> world" where
  "set_data k f w =
     (case map_of (w_fs w) k of None \<Rightarrow> w
      | Some i \<Rightarrow> w\<lparr>w_fs := AList.update k
          (i\<lparr>i_data := f (i_data i), i_mtime := w_clock w, i_ctime := w_clock w\<rparr>) (w_fs w)\<rparr>)"

definition data_at :: "world \<Rightarrow> fpath \<Rightarrow> byte list option" where
  "data_at w k = map_option i_data (map_of (w_fs w) k)"

datatype wres = WRet nat | WIntr | WErr
datatype rres = RData "byte list" | RIntr | RErr

text \<open>How much of \<open>n\<close> bytes a call moves.\<close>

definition ev_count :: "ev \<Rightarrow> nat \<Rightarrow> nat" where
  "ev_count e n = (case e of Short m \<Rightarrow> min m n | _ \<Rightarrow> n)"

text \<open>\<^verbatim>\<open>write\<close> on a file opened with \<^verbatim>\<open>O_APPEND\<close>, or truncated and written by one writer.\<close>

definition sys_write :: "world \<Rightarrow> fpath \<Rightarrow> byte list \<Rightarrow> wres \<times> world" where
  "sys_write w k bs =
     (let (e, w1) = next_ev w; n = ev_count e (length bs) in
      case e of Intr \<Rightarrow> (WIntr, w1) | Fail \<Rightarrow> (WErr, w1)
      | _ \<Rightarrow> (WRet n, set_data k (\<lambda>d. d @ take n bs) w1))"

definition splice_at :: "nat \<Rightarrow> byte list \<Rightarrow> byte list \<Rightarrow> byte list" where
  "splice_at off bs d =
     take off (d @ replicate (off - length d) (CHR 0x00)) @ bs @ drop (off + length bs) d"

definition sys_pwrite :: "world \<Rightarrow> fpath \<Rightarrow> byte list \<Rightarrow> nat \<Rightarrow> wres \<times> world" where
  "sys_pwrite w k bs off =
     (let (e, w1) = next_ev w; n = ev_count e (length bs) in
      case e of Intr \<Rightarrow> (WIntr, w1) | Fail \<Rightarrow> (WErr, w1)
      | _ \<Rightarrow> (WRet n, if n = 0 then w1 else set_data k (splice_at off (take n bs)) w1))"

definition sys_ftruncate :: "world \<Rightarrow> fpath \<Rightarrow> nat \<Rightarrow> bool \<times> world" where
  "sys_ftruncate w k n =
     (let (e, w1) = next_ev w in
      if e = Fail then (False, w1)
      else (True, set_data k (\<lambda>d. take n d @ replicate (n - length d) (CHR 0x00)) w1))"

text \<open>A read delivers at least one byte when there is one, so 0 always means end of file.\<close>

definition read_count :: "ev \<Rightarrow> nat \<Rightarrow> nat" where
  "read_count e n = (case e of Short m \<Rightarrow> min (max 1 m) n | _ \<Rightarrow> n)"

definition sys_pread :: "world \<Rightarrow> fpath \<Rightarrow> nat \<Rightarrow> nat \<Rightarrow> rres \<times> world" where
  "sys_pread w k n off =
     (let (e, w1) = next_ev w in
      case e of Intr \<Rightarrow> (RIntr, w1) | Fail \<Rightarrow> (RErr, w1)
      | _ \<Rightarrow> (case data_at w1 k of None \<Rightarrow> (RErr, w1)
              | Some d \<Rightarrow> (RData (take (read_count e n) (drop off d)), w1)))"

section \<open>Sockets\<close>

text \<open>\<open>w_open\<close> lists the sockets that are open.  \<open>w_peer ip port\<close> is what a server listening there
  sends over a connection (\<^term>\<open>None\<close> when nobody listens), and \<open>w_pending\<close> what each client
  waiting to be accepted sends.\<close>

definition sys_socket :: "world \<Rightarrow> int \<times> world" where
  "sys_socket w =
     (let (e, w1) = next_ev w in
      if e = Fail then (-1, w1)
      else (w_nextfd w1, w1\<lparr>w_open := w_nextfd w1 # w_open w1, w_nextfd := w_nextfd w1 + 1\<rparr>))"

definition sys_close :: "world \<Rightarrow> int \<Rightarrow> world" where
  "sys_close w fd = w\<lparr>w_open := removeAll fd (w_open w)\<rparr>"

definition sys_connect :: "world \<Rightarrow> int \<Rightarrow> string \<Rightarrow> nat \<Rightarrow> bool \<times> world" where
  "sys_connect w fd ip port =
     (let (e, w1) = next_ev w in
      if e = Fail then (False, w1)
      else case w_peer w1 ip port of None \<Rightarrow> (False, w1)
       | Some bs \<Rightarrow> (True, w1\<lparr>w_in := (w_in w1)(fd := bs)\<rparr>))"

text \<open>\<^verbatim>\<open>setsockopt\<close>, \<^verbatim>\<open>bind\<close>, \<^verbatim>\<open>listen\<close>: succeed unless the kernel refuses.\<close>

definition sys_plain :: "world \<Rightarrow> bool \<times> world" where
  "sys_plain w = (let (e, w1) = next_ev w in (e \<noteq> Fail, w1))"

definition sys_accept :: "world \<Rightarrow> int \<times> world" where
  "sys_accept w =
     (let (e, w1) = next_ev w in
      if e = Fail then (-1, w1)
      else case w_pending w1 of [] \<Rightarrow> (-1, w1)
       | bs # rest \<Rightarrow>
          (w_nextfd w1, w1\<lparr>w_pending := rest, w_open := w_nextfd w1 # w_open w1,
             w_nextfd := w_nextfd w1 + 1, w_in := (w_in w1)(w_nextfd w1 := bs)\<rparr>))"

definition sys_recv :: "world \<Rightarrow> int \<Rightarrow> nat \<Rightarrow> rres \<times> world" where
  "sys_recv w fd n =
     (let (e, w1) = next_ev w; c = read_count e n in
      case e of Intr \<Rightarrow> (RIntr, w1) | Fail \<Rightarrow> (RErr, w1)
      | _ \<Rightarrow> (RData (take c (w_in w1 fd)),
              w1\<lparr>w_in := (w_in w1)(fd := drop c (w_in w1 fd))\<rparr>))"

definition sys_send :: "world \<Rightarrow> int \<Rightarrow> byte list \<Rightarrow> wres \<times> world" where
  "sys_send w fd bs =
     (let (e, w1) = next_ev w; n = ev_count e (length bs) in
      case e of Intr \<Rightarrow> (WIntr, w1) | Fail \<Rightarrow> (WErr, w1)
      | _ \<Rightarrow> (WRet n, w1\<lparr>w_out := (w_out w1)(fd := w_out w1 fd @ take n bs)\<rparr>))"

section \<open>Streams\<close>

text \<open>An \<^verbatim>\<open>ifstream\<close>: what is left to read, and whether it is still good.\<close>

record ifstream =
  is_rest :: "byte list"
  is_good :: bool

definition ifs_open :: "world \<Rightarrow> string \<Rightarrow> byte list option" where
  "ifs_open w p =
     (case resolve w p of None \<Rightarrow> None
      | Some k \<Rightarrow> if w_unreadable w k then None else data_at w k)"

text \<open>\<^verbatim>\<open>read(buf, n)\<close>: the bytes delivered (\<^verbatim>\<open>gcount\<close> of them) and the stream's new state.\<close>

definition ifs_read :: "world \<Rightarrow> ifstream \<Rightarrow> nat \<Rightarrow> byte list \<times> ifstream \<times> world" where
  "ifs_read w s n =
     (if \<not> is_good s then ([], s, w)
      else let (e, w1) = next_ev w in
        if e = Fail then ([], s\<lparr>is_good := False\<rparr>, w1)
        else (take n (is_rest s),
              \<lparr>is_rest = drop n (is_rest s), is_good = (n \<le> length (is_rest s))\<rparr>, w1))"

text \<open>\<open>of_write\<close> is \<^verbatim>\<open>ofstream::write\<close>, with the stream's buffer written through: whether the stream is
  still good, after all of the data or, on a fault, a prefix of it has reached the file.\<close>

definition of_write :: "world \<Rightarrow> fpath \<Rightarrow> byte list \<Rightarrow> bool \<times> world" where
  "of_write w k bs =
     (let (e, w1) = next_ev w; n = ev_count e (length bs) in
      if e = Fail then (False, w1)
      else (n = length bs, set_data k (\<lambda>d. d @ take n bs) w1))"

definition of_open :: "world \<Rightarrow> string \<Rightarrow> bool \<Rightarrow> fpath option \<times> world" where
  "of_open w p app = sys_open_w w p 0x1B6 True (\<not> app)"

end
