(* ===== verification/FileTree.thy ===== *)
theory FileTree
  imports Posix
begin

text \<open>
  The well-formedness invariant of the file system (every entry sits in a directory, names are
  names, paths are unique) and what each system call does to it and to the other entries.
\<close>

section \<open>Well-formed trees\<close>

definition valid_name :: "string \<Rightarrow> bool" where
  "valid_name n \<longleftrightarrow> n \<noteq> [] \<and> n \<noteq> ''.'' \<and> n \<noteq> ''..'' \<and> CHR ''/'' \<notin> set n \<and> CHR 0x00 \<notin> set n"

definition fs_wf :: "filesys \<Rightarrow> bool" where
  "fs_wf fs \<longleftrightarrow> distinct (map fst fs) \<and> is_dir fs [] \<and>
     list_all (\<lambda>(k, i). (k = [] \<or> is_dir fs (butlast k) \<and> valid_name (last k))
       \<and> (S_ISDIR (i_mode i) \<longrightarrow> i_data i = [])) fs"

definition world_wf :: "world \<Rightarrow> bool" where
  "world_wf w \<longleftrightarrow> fs_wf (w_fs w) \<and> is_dir (w_fs w) (w_cwd w)"

definition good_slot :: "filesys \<Rightarrow> fpath \<Rightarrow> bool" where
  "good_slot fs k \<longleftrightarrow> k = [] \<or> is_dir fs (butlast k) \<and> valid_name (last k)"

lemma fs_wf_iff:
  "fs_wf fs \<longleftrightarrow> distinct (map fst fs) \<and> is_dir fs [] \<and>
     (\<forall>k i. map_of fs k = Some i \<longrightarrow> good_slot fs k \<and> (S_ISDIR (i_mode i) \<longrightarrow> i_data i = []))"
  (is "_ \<longleftrightarrow> ?r")
proof
  assume "fs_wf fs"
  then show ?r by (auto simp: fs_wf_def list_all_iff good_slot_def dest!: map_of_SomeD)
next
  assume r: ?r
  then show "fs_wf fs" by (force simp: fs_wf_def list_all_iff good_slot_def map_of_eq_Some_iff)
qed

lemma is_dirI: "map_of fs k = Some i \<Longrightarrow> S_ISDIR (i_mode i) \<Longrightarrow> is_dir fs k"
  by (simp add: is_dir_def)

lemma is_dir_at:
  "map_of fs k = Some i \<Longrightarrow> is_dir fs k = S_ISDIR (i_mode i)"
  "map_of fs k = None \<Longrightarrow> \<not> is_dir fs k"
  by (simp_all add: is_dir_def)

lemma is_dir_dom: "is_dir fs k \<Longrightarrow> \<exists>i. map_of fs k = Some i"
  by (auto simp: is_dir_def split: option.splits)

lemma fs_wf_good_slot: "fs_wf fs \<Longrightarrow> map_of fs k = Some i \<Longrightarrow> good_slot fs k"
  by (simp add: fs_wf_iff)

lemma fs_wf_dir_data: "fs_wf fs \<Longrightarrow> map_of fs k = Some i \<Longrightarrow> S_ISDIR (i_mode i) \<Longrightarrow> i_data i = []"
  by (simp add: fs_wf_iff)

lemma fs_wf_parent: "fs_wf fs \<Longrightarrow> is_dir fs k \<Longrightarrow> is_dir fs (butlast k)"
proof -
  assume wf: "fs_wf fs" and k: "is_dir fs k"
  then obtain i where "map_of fs k = Some i" by (auto dest: is_dir_dom)
  with wf have "good_slot fs k" by (rule fs_wf_good_slot)
  with k show ?thesis by (auto simp: good_slot_def)
qed

section \<open>The tree operations\<close>

lemma map_of_touch:
  "map_of (touch t k fs) p =
     (if p = k then map_option (\<lambda>i. i\<lparr>i_mtime := t, i_ctime := t\<rparr>) (map_of fs k) else map_of fs p)"
  by (auto simp: touch_def update_conv' split: option.splits)

lemma touch_keys [simp]: "map fst (touch t k fs) = map fst fs"
  by (auto simp: touch_def update_keys map_of_eq_None_iff split: option.splits)

lemma is_dir_touch [simp]: "is_dir (touch t k fs) = is_dir fs"
  by (rule ext) (auto simp: is_dir_def map_of_touch split: option.splits)

lemma good_slot_touch [simp]: "good_slot (touch t k fs) = good_slot fs"
  by (rule ext) (simp add: good_slot_def)

lemma fs_wf_touch [simp]: "fs_wf (touch t k fs) = fs_wf fs"
proof -
  have eq: "map_of (touch t k fs) p = Some j \<longleftrightarrow>
      (\<exists>i. map_of fs p = Some i \<and> j = (if p = k then i\<lparr>i_mtime := t, i_ctime := t\<rparr> else i))" for p j
    by (auto simp: map_of_touch)
  show ?thesis unfolding fs_wf_iff eq by simp (metis (no_types, lifting) inode.select_convs(1)
      inode.select_convs(4) inode.surjective inode.update_convs(2) inode.update_convs(3))
qed

lemma is_dir_update:
  "is_dir (AList.update k i fs) p = (if p = k then S_ISDIR (i_mode i) else is_dir fs p)"
  by (auto simp: is_dir_def update_conv')

lemma is_dir_delete: "is_dir (AList.delete k fs) p = (p \<noteq> k \<and> is_dir fs p)"
  by (auto simp: is_dir_def delete_conv')

lemma map_of_add_entry:
  "k \<noteq> [] \<Longrightarrow> p \<noteq> butlast k \<Longrightarrow>
     map_of (add_entry t k i fs) p = (if p = k then Some i else map_of fs p)"
  by (auto simp: add_entry_def map_of_touch update_conv')

lemma is_dir_add_entry:
  "is_dir (add_entry t k i fs) p = (if p = k then S_ISDIR (i_mode i) else is_dir fs p)"
  by (simp add: add_entry_def is_dir_update)

lemma good_slot_mono:
  "good_slot fs k \<Longrightarrow> (\<And>p. is_dir fs p \<Longrightarrow> is_dir fs' p) \<Longrightarrow> good_slot fs' k"
  by (auto simp: good_slot_def)

lemma fs_wf_update:
  assumes wf: "fs_wf fs" and slot: "good_slot fs k"
    and dir: "is_dir fs k \<Longrightarrow> S_ISDIR (i_mode i)" and data: "S_ISDIR (i_mode i) \<Longrightarrow> i_data i = []"
  shows "fs_wf (AList.update k i fs)"
proof -
  have mono: "is_dir fs p \<Longrightarrow> is_dir (AList.update k i fs) p" for p
    using dir by (auto simp: is_dir_update)
  have "good_slot (AList.update k i fs) p" if "map_of (AList.update k i fs) p = Some j" for p j
  proof (cases "p = k")
    case True
    with slot mono show ?thesis by (blast intro: good_slot_mono)
  next
    case False
    with that have "map_of fs p = Some j" by (simp add: update_conv')
    from fs_wf_good_slot [OF wf this] mono show ?thesis by (blast intro: good_slot_mono)
  qed
  moreover have "distinct (map fst (AList.update k i fs))"
    using wf by (simp add: fs_wf_iff distinct_update)
  ultimately show ?thesis
    using wf data mono by (auto simp: fs_wf_iff update_conv' split: if_splits)
qed

lemma fs_wf_add_entry:
  assumes "fs_wf fs" "map_of fs k = None" "good_slot fs k" "i_data i = []"
  shows "fs_wf (add_entry t k i fs)"
  unfolding add_entry_def fs_wf_touch
  using assms by (intro fs_wf_update) (auto dest: is_dir_dom)

lemma entries_empty: "entries fs k = [] \<longleftrightarrow> (\<forall>p. map_of fs p \<noteq> None \<longrightarrow> p = [] \<or> butlast p \<noteq> k)"
  by (auto simp: entries_def filter_empty_conv map_of_eq_None_iff)

lemma fs_wf_delete:
  assumes wf: "fs_wf fs" and k: "k \<noteq> []" and none: "entries fs k = []"
  shows "fs_wf (AList.delete k fs)"
proof -
  have "good_slot (AList.delete k fs) p" if p: "map_of (AList.delete k fs) p = Some j" for p j
  proof -
    from p have f: "map_of fs p = Some j" by (auto simp: delete_conv' split: if_splits)
    then have "good_slot fs p" by (rule fs_wf_good_slot [OF wf])
    moreover have "p = [] \<or> butlast p \<noteq> k" using none f by (auto simp: entries_empty)
    ultimately show ?thesis by (auto simp: good_slot_def is_dir_delete)
  qed
  moreover have "distinct (map fst (AList.delete k fs))"
    using wf by (simp add: fs_wf_iff distinct_delete)
  ultimately show ?thesis
    using wf k by (auto simp: fs_wf_iff is_dir_delete delete_conv' split: if_splits)
qed

section \<open>Path resolution\<close>

lemma walk_mono:
  assumes mono: "\<And>p. is_dir fs p \<Longrightarrow> is_dir fs' p" and w: "walk fs k cs = Some r"
  shows "walk fs' k cs = Some r"
  using w by (induction cs arbitrary: k) (auto split: if_splits dest: mono)

lemma walk_is_dir_cong: "is_dir fs = is_dir fs' \<Longrightarrow> walk fs k cs = walk fs' k cs"
  by (induction fs k cs rule: walk.induct) auto

lemma set_tl_subset: "set (tl xs) \<subseteq> set xs"
  by (cases xs) auto

lemma split_slash_no_slash: "c \<in> set (split_slash s) \<Longrightarrow> CHR ''/'' \<notin> set c"
proof (induction s arbitrary: c)
  case (Cons a s)
  have "hd (split_slash s) \<in> set (split_slash s)" "set (tl (split_slash s)) \<subseteq> set (split_slash s)"
    by (simp_all add: set_tl_subset)
  with Cons show ?case by (auto split: if_splits)
qed simp

lemma split_slash_chars: "c \<in> set (split_slash s) \<Longrightarrow> set c \<subseteq> set s"
proof (induction s arbitrary: c)
  case (Cons a s)
  obtain h t where ht: "split_slash s = h # t" by (cases "split_slash s") auto
  with Cons.IH have "set h \<subseteq> set s" "\<forall>x\<in>set t. set x \<subseteq> set s" by auto
  with Cons.prems ht show ?case by (auto split: if_splits)
qed simp

lemma cstr_no_nul: "CHR 0x00 \<notin> set (cstr s)"
  by (auto simp: cstr_def dest: set_takeWhileD)

definition comps_ok :: "string list \<Rightarrow> bool" where
  "comps_ok cs \<longleftrightarrow> (\<forall>c\<in>set cs. CHR ''/'' \<notin> set c \<and> CHR 0x00 \<notin> set c)"

lemma comps_ok_split: "comps_ok (split_slash (cstr p))"
  using split_slash_no_slash split_slash_chars cstr_no_nul by (fastforce simp: comps_ok_def)

lemma comps_ok_strip: "comps_ok cs \<Longrightarrow> comps_ok (strip_slashes cs)"
  by (auto simp: comps_ok_def strip_slashes_def dest: set_dropWhileD)

lemma walk_good_slot:
  assumes "fs_wf fs" "comps_ok cs" "good_slot fs k" "walk fs k cs = Some r"
  shows "good_slot fs r"
  using assms
proof (induction fs k cs rule: walk.induct)
  case (2 fs k c cs)
  have "good_slot fs (butlast k)" if "is_dir fs k"
    using fs_wf_parent [OF "2.prems"(1) that] is_dir_dom fs_wf_good_slot [OF "2.prems"(1)] by blast
  moreover have "good_slot fs (k @ [c])"
    if "is_dir fs k" "c \<noteq> []" "c \<noteq> ''.''" "c \<noteq> ''..''"
    using that "2.prems"(2) by (auto simp: good_slot_def valid_name_def comps_ok_def)
  ultimately show ?case using 2 by (auto simp: comps_ok_def split: if_splits)
qed simp

lemma path_start_slot: "world_wf w \<Longrightarrow> good_slot (w_fs w) (path_start w q)"
  by (auto simp: path_start_def world_wf_def good_slot_def [of _ "[]"] dest!: is_dir_dom
      dest: fs_wf_good_slot)

lemma resolve_slot: "world_wf w \<Longrightarrow> resolve w p = Some k \<Longrightarrow> good_slot (w_fs w) k"
  using walk_good_slot [OF _ comps_ok_split path_start_slot]
  by (auto simp: resolve_def Let_def world_wf_def split: if_splits)

lemma resolve_mkdir_slot: "world_wf w \<Longrightarrow> resolve_mkdir w p = Some k \<Longrightarrow> good_slot (w_fs w) k"
  using walk_good_slot [OF _ comps_ok_strip [OF comps_ok_split] path_start_slot]
  by (auto simp: resolve_mkdir_def Let_def world_wf_def split: if_splits)

lemma resolve_mono:
  assumes "\<And>p. is_dir (w_fs w) p \<Longrightarrow> is_dir (w_fs w') p" "w_cwd w' = w_cwd w"
    "resolve w p = Some k"
  shows "resolve w' p = Some k"
proof -
  let ?q = "cstr p"
  from assms(3) have q: "?q \<noteq> []" and r: "walk (w_fs w) (path_start w ?q) (split_slash ?q) = Some k"
    by (auto simp: resolve_def Let_def split: if_splits)
  from walk_mono [OF assms(1) r] q assms(2) show ?thesis
    by (auto simp: resolve_def Let_def path_start_def split: if_splits)
qed

lemma resolve_cong:
  "is_dir (w_fs w) = is_dir (w_fs w') \<Longrightarrow> w_cwd w = w_cwd w' \<Longrightarrow> resolve w p = resolve w' p"
  by (simp add: resolve_def Let_def path_start_def walk_is_dir_cong [of "w_fs w" "w_fs w'"])

section \<open>Observations\<close>

text \<open>What is at a path, up to time stamps; and the parts of the world no call changes.\<close>

definition content :: "world \<Rightarrow> fpath \<Rightarrow> (mode_t \<times> byte list) option" where
  "content w k = map_option (\<lambda>i. (i_mode i, i_data i)) (map_of (w_fs w) k)"

definition env_of :: "world \<Rightarrow>
    fpath \<times> time_t \<times> mode_t \<times> (fpath \<Rightarrow> bool) \<times> (fpath \<Rightarrow> nat) \<times> (fpath \<Rightarrow> nat \<times> nat \<times> nat)
    \<times> (string \<Rightarrow> nat \<Rightarrow> byte list option)" where
  "env_of w = (w_cwd w, w_clock w, w_umask w, w_unreadable w, w_dsize w, w_statvfs w, w_peer w)"

definition net_of :: "world \<Rightarrow>
    (int \<Rightarrow> byte list) \<times> (int \<Rightarrow> byte list) \<times> int list \<times> int \<times> byte list list" where
  "net_of w = (w_in w, w_out w, w_open w, w_nextfd w, w_pending w)"

lemma is_dir_content: "is_dir (w_fs w) k = (case content w k of None \<Rightarrow> False | Some (m, d) \<Rightarrow> S_ISDIR m)"
  by (auto simp: is_dir_def content_def split: option.splits)

lemma data_at_content: "data_at w k = map_option snd (content w k)"
  by (cases "map_of (w_fs w) k") (auto simp: data_at_def content_def)

lemma content_None: "content w k = None \<longleftrightarrow> map_of (w_fs w) k = None"
  by (simp add: content_def)

lemma env_cwd: "env_of w' = env_of w \<Longrightarrow> w_cwd w' = w_cwd w"
  by (simp add: env_of_def)

lemma resolve_content_cong:
  assumes "\<And>k. (content w' k = content w k)" "env_of w' = env_of w"
  shows "resolve w' p = resolve w p"
  using assms by (intro resolve_cong) (auto simp: fun_eq_iff is_dir_content env_of_def)

definition ev1 :: "world \<Rightarrow> ev" where
  "ev1 w = (case w_script w of [] \<Rightarrow> Nominal | e # _ \<Rightarrow> e)"

lemma next_ev_eq: "next_ev w = (ev1 w, w\<lparr>w_script := tl (w_script w)\<rparr>)"
  by (auto simp: next_ev_def ev1_def split: list.splits)

lemma next_ev_nominal [nominal]: "w_script w = [] \<Longrightarrow> next_ev w = (Nominal, w)"
  by (simp add: next_ev_def)

lemma content_script [simp]: "content (w\<lparr>w_script := s\<rparr>) = content w"
  by (rule ext) (simp add: content_def)

lemma env_script [simp]: "env_of (w\<lparr>w_script := s\<rparr>) = env_of w"
  by (simp add: env_of_def)

lemma env_fs [simp]: "env_of (w\<lparr>w_fs := f\<rparr>) = env_of w"
  by (simp add: env_of_def)

lemma net_simps [simp]:
  "net_of (w\<lparr>w_script := s\<rparr>) = net_of w" "net_of (w\<lparr>w_fs := f\<rparr>) = net_of w"
  by (simp_all add: net_of_def)

lemma resolve_script [simp]:
  "resolve (w\<lparr>w_script := s\<rparr>) p = resolve w p"
  "resolve_mkdir (w\<lparr>w_script := s\<rparr>) p = resolve_mkdir w p"
  by (simp_all add: resolve_def resolve_mkdir_def path_start_def Let_def)

lemma content_update:
  "content (w\<lparr>w_fs := AList.update k i (w_fs w)\<rparr>) p =
     (if p = k then Some (i_mode i, i_data i) else content w p)"
  by (simp add: content_def update_conv')

lemma content_touch: "content (w\<lparr>w_fs := touch t k f\<rparr>) = content (w\<lparr>w_fs := f\<rparr>)"
  by (auto simp: fun_eq_iff content_def map_of_touch option.map_comp comp_def)

lemma content_add_entry:
  "content (w\<lparr>w_fs := add_entry t k i (w_fs w)\<rparr>) p =
     (if p = k then Some (i_mode i, i_data i) else content w p)"
  by (simp add: add_entry_def content_touch content_update)

lemma content_delete:
  "content (w\<lparr>w_fs := AList.delete k (w_fs w)\<rparr>) p = (if p = k then None else content w p)"
  by (simp add: content_def delete_conv')

lemma world_wf_fs: "world_wf w \<Longrightarrow> fs_wf (w_fs w)"
  by (simp add: world_wf_def)

lemma world_wf_script [simp]: "world_wf (w\<lparr>w_script := s\<rparr>) = world_wf w"
  by (simp add: world_wf_def)

section \<open>System calls\<close>

lemma and_disjoint_masks: "b AND d = 0 \<Longrightarrow> ((a AND b) AND c) AND d = (0 :: mode_t)"
  by (auto simp: bit_eq_iff bit_and_iff)

lemma S_ISDIR_chmod [simp]: "S_ISDIR ((m AND S_IFMT) OR (x AND 0xFFF)) = S_ISDIR m"
proof -
  have "(0xFFF :: mode_t) AND S_IFMT = 0" by (simp add: S_IFMT_def)
  then have "((m AND S_IFMT) OR (x AND 0xFFF)) AND S_IFMT = m AND S_IFMT"
    by (simp add: bit.conj_disj_distrib2 and.assoc)
  then show ?thesis by (simp add: S_ISDIR_def)
qed

lemma S_ISDIR_new [simp]: "i_data (new_inode w fmt perm) = []"
  by (simp add: new_inode_def)

lemma S_ISDIR_mkdir [simp]: "S_ISDIR (i_mode (new_inode w S_IFDIR (mode AND 0x3FF)))"
proof -
  have "(0x3FF :: mode_t) AND S_IFMT = 0" by (simp add: S_IFMT_def)
  then have "((mode AND 0x3FF) AND NOT (w_umask w)) AND S_IFMT = 0"
    by (rule and_disjoint_masks)
  moreover have "S_IFDIR AND S_IFMT = S_IFDIR" by (simp add: S_IFDIR_def S_IFMT_def)
  ultimately show ?thesis
    by (simp add: S_ISDIR_def new_inode_def bit.conj_disj_distrib2)
qed

text \<open>
  Every call keeps the tree well formed, leaves the environment alone, and changes what is at
  most one path.
\<close>

lemma sys_mkdir_cases:
  obtains (failed) "sys_mkdir w p m = (False, w\<lparr>w_script := tl (w_script w)\<rparr>)"
  | (made) k where "resolve_mkdir w p = Some k" "map_of (w_fs w) k = None"
      "sys_mkdir w p m = (True, w\<lparr>w_script := tl (w_script w),
         w_fs := add_entry (w_clock w) k (new_inode w S_IFDIR (m AND 0x3FF)) (w_fs w)\<rparr>)"
  by (cases "ev1 w = Fail"; cases "resolve_mkdir w p";
      cases "map_of (w_fs w) (the (resolve_mkdir w p))")
     (auto simp: sys_mkdir_def next_ev_eq new_inode_def)

lemma sys_chmod_cases:
  obtains (failed) "sys_chmod w p m = (False, w\<lparr>w_script := tl (w_script w)\<rparr>)"
  | (changed) k i where "resolve w p = Some k" "map_of (w_fs w) k = Some i"
      "sys_chmod w p m = (True, w\<lparr>w_script := tl (w_script w),
         w_fs := AList.update k (i\<lparr>i_mode := (i_mode i AND S_IFMT) OR (m AND 0xFFF),
           i_ctime := w_clock w\<rparr>) (w_fs w)\<rparr>)"
  by (cases "ev1 w = Fail"; cases "resolve w p"; cases "map_of (w_fs w) (the (resolve w p))")
     (auto simp: sys_chmod_def next_ev_eq)

lemma sys_remove_cases:
  obtains (failed) "sys_remove w p = (False, w\<lparr>w_script := tl (w_script w)\<rparr>)"
  | (removed) k where "resolve w p = Some k" "k \<noteq> []" "map_of (w_fs w) k \<noteq> None"
      "entries (w_fs w) k = []"
      "sys_remove w p = (True, w\<lparr>w_script := tl (w_script w),
         w_fs := touch (w_clock w) (butlast k) (AList.delete k (w_fs w))\<rparr>)"
  by (cases "ev1 w = Fail"; cases "resolve w p"; cases "the (resolve w p) = []";
      cases "map_of (w_fs w) (the (resolve w p))"; cases "entries (w_fs w) (the (resolve w p))")
     (auto simp: sys_remove_def next_ev_eq)

lemma sys_open_w_cases:
  obtains (failed) "sys_open_w w p perm creat trunc = (None, w\<lparr>w_script := tl (w_script w)\<rparr>)"
  | (created) k where "resolve w p = Some k" "map_of (w_fs w) k = None" "creat"
      "sys_open_w w p perm creat trunc = (Some k, w\<lparr>w_script := tl (w_script w),
         w_fs := add_entry (w_clock w) k (new_inode w S_IFREG perm) (w_fs w)\<rparr>)"
  | (truncated) k i where "resolve w p = Some k" "map_of (w_fs w) k = Some i"
      "\<not> S_ISDIR (i_mode i)" "trunc"
      "sys_open_w w p perm creat trunc = (Some k, w\<lparr>w_script := tl (w_script w),
         w_fs := AList.update k (i\<lparr>i_data := [], i_mtime := w_clock w, i_ctime := w_clock w\<rparr>) (w_fs w)\<rparr>)"
  | (opened) k i where "resolve w p = Some k" "map_of (w_fs w) k = Some i"
      "\<not> S_ISDIR (i_mode i)" "\<not> trunc"
      "sys_open_w w p perm creat trunc = (Some k, w\<lparr>w_script := tl (w_script w)\<rparr>)"
  by (cases "ev1 w = Fail"; cases "resolve w p"; cases "map_of (w_fs w) (the (resolve w p))";
      cases creat; cases trunc; cases "S_ISDIR (i_mode (the (map_of (w_fs w) (the (resolve w p)))))")
     (auto simp: sys_open_w_def next_ev_eq new_inode_def)

section \<open>Steps and their footprint\<close>

text \<open>\<open>fs_step K w w'\<close>: going from \<open>w\<close> to \<open>w'\<close> keeps the tree well formed, leaves environment and
  sockets alone, and changes nothing but time stamps outside the paths \<open>K\<close>.\<close>

definition fs_step :: "fpath set \<Rightarrow> world \<Rightarrow> world \<Rightarrow> bool" where
  "fs_step K w w' \<longleftrightarrow> (world_wf w \<longrightarrow> world_wf w') \<and> env_of w' = env_of w \<and> net_of w' = net_of w \<and>
     (\<forall>k. k \<notin> K \<longrightarrow> content w' k = content w k)"

lemma fs_stepD:
  assumes "fs_step K w w'"
  shows "world_wf w \<Longrightarrow> world_wf w'" "env_of w' = env_of w" "net_of w' = net_of w"
    "k \<notin> K \<Longrightarrow> content w' k = content w k"
  using assms by (auto simp: fs_step_def)

lemma fs_step_refl [simp, intro]: "fs_step K w w"
  by (simp add: fs_step_def)

lemma fs_step_trans [trans]: "fs_step K w w1 \<Longrightarrow> fs_step L w1 w2 \<Longrightarrow> fs_step (K \<union> L) w w2"
  by (auto simp: fs_step_def)

lemma fs_step_trans1: "fs_step K w w1 \<Longrightarrow> fs_step K w1 w2 \<Longrightarrow> fs_step K w w2"
  using fs_step_trans [of K w w1 K w2] by simp

lemma fs_step_mono: "fs_step K w w' \<Longrightarrow> K \<subseteq> L \<Longrightarrow> fs_step L w w'"
  by (auto simp: fs_step_def)

lemma fs_step_script [simp, intro]: "fs_step K w (w\<lparr>w_script := s\<rparr>)"
  by (simp add: fs_step_def)

lemma fs_step_sleep [simp, intro]: "fs_step K w (sleep_ms n w)"
  by (auto simp: fs_step_def sleep_ms_def world_wf_def env_of_def net_of_def content_def)

lemma fs_step_fs:
  assumes "world_wf w \<Longrightarrow> fs_wf f \<and> is_dir f (w_cwd w)"
    and "\<And>k. k \<notin> K \<Longrightarrow> content (w\<lparr>w_fs := f\<rparr>) k = content w k"
  shows "fs_step K w (w\<lparr>w_script := s, w_fs := f\<rparr>)"
proof -
  have "content (w\<lparr>w_script := s, w_fs := f\<rparr>) k = content (w\<lparr>w_fs := f\<rparr>) k" for k
    by (simp add: content_def)
  with assms show ?thesis
    by (auto simp: fs_step_def world_wf_def env_of_def net_of_def)
qed

lemma sys_mkdir_step: "fs_step {k. resolve_mkdir w p = Some k} w (snd (sys_mkdir w p m))"
proof (cases rule: sys_mkdir_cases [of w p m])
  case (made k)
  have "fs_step {k. resolve_mkdir w p = Some k} w (w\<lparr>w_script := tl (w_script w),
      w_fs := add_entry (w_clock w) k (new_inode w S_IFDIR (m AND 0x3FF)) (w_fs w)\<rparr>)"
    using made(1,2) resolve_mkdir_slot [OF _ made(1)]
    by (intro fs_step_fs) (auto simp: content_add_entry is_dir_add_entry world_wf_def
        intro!: fs_wf_add_entry)
  with made show ?thesis by simp
qed simp

lemma sys_chmod_step: "fs_step {k. resolve w p = Some k} w (snd (sys_chmod w p m))"
proof (cases rule: sys_chmod_cases [of w p m])
  case (changed k i)
  let ?i = "i\<lparr>i_mode := (i_mode i AND S_IFMT) OR (m AND 0xFFF), i_ctime := w_clock w\<rparr>"
  have "fs_wf (AList.update k ?i (w_fs w)) \<and> is_dir (AList.update k ?i (w_fs w)) (w_cwd w)"
    if wf: "world_wf w"
    using wf changed(2) resolve_slot [OF wf changed(1)] fs_wf_dir_data [OF world_wf_fs [OF wf] changed(2)]
    by (auto simp: world_wf_def is_dir_update is_dir_at intro!: fs_wf_update)
  then have "fs_step {k. resolve w p = Some k} w (w\<lparr>w_script := tl (w_script w),
      w_fs := AList.update k ?i (w_fs w)\<rparr>)"
    using changed(1) by (intro fs_step_fs) (auto simp: content_update)
  with changed(3) show ?thesis by simp
qed simp

lemma sys_remove_step:
  assumes "w_cwd w \<notin> {k. resolve w p = Some k}"
  shows "fs_step {k. resolve w p = Some k} w (snd (sys_remove w p))"
proof (cases rule: sys_remove_cases [of w p])
  case (removed k)
  have "fs_step {k. resolve w p = Some k} w (w\<lparr>w_script := tl (w_script w),
      w_fs := touch (w_clock w) (butlast k) (AList.delete k (w_fs w))\<rparr>)"
    using removed assms
    by (intro fs_step_fs) (auto simp: content_touch content_delete is_dir_delete world_wf_def
        intro!: fs_wf_delete)
  with removed show ?thesis by simp
qed simp

lemma sys_open_w_step: "fs_step {k. resolve w p = Some k} w (snd (sys_open_w w p perm creat trunc))"
proof (cases rule: sys_open_w_cases [of w p perm creat trunc])
  case (created k)
  have "fs_step {k. resolve w p = Some k} w (w\<lparr>w_script := tl (w_script w),
      w_fs := add_entry (w_clock w) k (new_inode w S_IFREG perm) (w_fs w)\<rparr>)"
    using created(1,2) resolve_slot [OF _ created(1)]
    by (intro fs_step_fs) (auto simp: content_add_entry is_dir_add_entry world_wf_def is_dir_at
        intro!: fs_wf_add_entry)
  with created show ?thesis by simp
next
  case (truncated k i)
  let ?i = "i\<lparr>i_data := [], i_mtime := w_clock w, i_ctime := w_clock w\<rparr>"
  have "fs_step {k. resolve w p = Some k} w (w\<lparr>w_script := tl (w_script w),
      w_fs := AList.update k ?i (w_fs w)\<rparr>)"
    using truncated(1-3) resolve_slot [OF _ truncated(1)]
    by (intro fs_step_fs) (auto simp: content_update is_dir_update world_wf_def is_dir_at
        intro!: fs_wf_update)
  with truncated show ?thesis by simp
qed simp_all

lemma content_set_data:
  "content (set_data k f w) p =
     (if p = k then map_option (\<lambda>(m, d). (m, f d)) (content w k) else content w p)"
  by (cases "map_of (w_fs w) k") (auto simp: set_data_def content_update content_def update_conv')

lemma set_data_step: "\<not> is_dir (w_fs w) k \<Longrightarrow> fs_step {k} w (set_data k f w)"
proof (cases "map_of (w_fs w) k")
  case (Some i)
  assume nd: "\<not> is_dir (w_fs w) k"
  let ?f = "AList.update k (i\<lparr>i_data := f (i_data i), i_mtime := w_clock w, i_ctime := w_clock w\<rparr>) (w_fs w)"
  have "fs_step {k} w (w\<lparr>w_script := w_script w, w_fs := ?f\<rparr>)"
    using nd Some by (intro fs_step_fs)
      (auto simp: content_update is_dir_update world_wf_def is_dir_at
        intro!: fs_wf_update intro: fs_wf_good_slot)
  with Some show ?thesis by (simp add: set_data_def)
qed (simp add: set_data_def)

lemma set_data_step_script:
  "\<not> is_dir (w_fs w) k \<Longrightarrow> fs_step {k} w (set_data k f (w\<lparr>w_script := s\<rparr>))"
  by (rule fs_step_trans1 [OF fs_step_script [of _ _ s] set_data_step]) simp

lemma set_data_script [simp]: "w_script (set_data k f w) = w_script w"
  by (simp add: set_data_def split: option.splits)

lemma is_dir_set_data [simp]: "is_dir (w_fs (set_data k f w)) = is_dir (w_fs w)"
  by (rule ext) (simp add: is_dir_content content_set_data split: option.splits)

lemma sys_write_step: "\<not> is_dir (w_fs w) k \<Longrightarrow> fs_step {k} w (snd (sys_write w k bs))"
  by (simp add: set_data_step_script sys_write_def next_ev_eq Let_def split: ev.splits)

lemma of_write_step: "\<not> is_dir (w_fs w) k \<Longrightarrow> fs_step {k} w (snd (of_write w k bs))"
  by (simp add: set_data_step_script of_write_def next_ev_eq Let_def)

lemma sys_pwrite_step: "\<not> is_dir (w_fs w) k \<Longrightarrow> fs_step {k} w (snd (sys_pwrite w k bs off))"
  by (simp add: set_data_step_script sys_pwrite_def next_ev_eq Let_def split: ev.splits)

lemma sys_ftruncate_step: "\<not> is_dir (w_fs w) k \<Longrightarrow> fs_step {k} w (snd (sys_ftruncate w k n))"
  by (simp add: set_data_step_script sys_ftruncate_def next_ev_eq Let_def)

lemma sys_pread_step: "fs_step K w (snd (sys_pread w k n off))"
  by (simp add: sys_pread_def next_ev_eq Let_def split: ev.splits option.splits)

lemma ifs_read_step: "fs_step K w (snd (snd (ifs_read w s n)))"
  by (simp add: ifs_read_def next_ev_eq Let_def)

lemma S_ISDIR_creat:
  assumes "perm AND S_IFMT = 0"
  shows "\<not> S_ISDIR (i_mode (new_inode w S_IFREG perm))"
proof -
  have "((perm AND perm) AND NOT (w_umask w)) AND S_IFMT = 0"
    using assms by (rule and_disjoint_masks)
  then have "i_mode (new_inode w S_IFREG perm) AND S_IFMT = S_IFREG AND S_IFMT"
    by (simp add: new_inode_def bit.conj_disj_distrib2)
  then show ?thesis by (simp add: S_ISDIR_def S_IFREG_def S_IFMT_def S_IFDIR_def)
qed

lemma sys_open_w_not_dir:
  assumes "perm AND S_IFMT = 0" "sys_open_w w p perm creat trunc = (Some k, w')"
  shows "\<not> is_dir (w_fs w') k"
  using S_ISDIR_creat [OF assms(1), of w] assms(2)
  by (cases rule: sys_open_w_cases [of w p perm creat trunc])
     (auto simp: is_dir_add_entry is_dir_update is_dir_at)

lemma sys_open_w_data:
  assumes "sys_open_w w p perm creat trunc = (Some k, w')"
  shows "resolve w p = Some k \<and>
    data_at w' k = Some (if trunc \<or> data_at w k = None then [] else the (data_at w k))"
  using assms
  by (cases rule: sys_open_w_cases [of w p perm creat trunc])
     (auto simp: data_at_def add_entry_def map_of_touch update_conv' new_inode_def)

lemma sys_open_w_is_dir:
  assumes "perm AND S_IFMT = 0"
  shows "is_dir (w_fs (snd (sys_open_w w p perm creat trunc))) = is_dir (w_fs w)"
  using S_ISDIR_creat [OF assms, of w]
  by (cases rule: sys_open_w_cases [of w p perm creat trunc])
     (auto simp: fun_eq_iff is_dir_add_entry is_dir_update is_dir_at)

lemma creat_perms [simp]: "(0x1B6 :: mode_t) AND S_IFMT = 0" "(0x1A4 :: mode_t) AND S_IFMT = 0"
  by (simp_all add: S_IFMT_def)

lemma sys_open_w_nominal:
  assumes "w_script w = []" "resolve w p = Some k" "\<not> is_dir (w_fs w) k"
  shows "\<exists>w'. sys_open_w w p perm True trunc = (Some k, w') \<and> w_script w' = []"
  using assms by (cases "map_of (w_fs w) k")
    (auto simp: sys_open_w_def next_ev_nominal is_dir_def)

lemma of_open_facts:
  assumes "of_open w p app = (h, w')"
  shows "fs_step {k. resolve w p = Some k} w w'" "is_dir (w_fs w') = is_dir (w_fs w)"
    "h = Some k \<Longrightarrow> resolve w p = Some k" "h = Some k \<Longrightarrow> \<not> is_dir (w_fs w) k"
    "h = Some k \<Longrightarrow> data_at w' k = Some (if app then case data_at w k of None \<Rightarrow> [] | Some d \<Rightarrow> d else [])"
proof -
  note o = assms [unfolded of_open_def]
  show "fs_step {k. resolve w p = Some k} w w'" using sys_open_w_step [of w p] o by (metis snd_conv)
  show d: "is_dir (w_fs w') = is_dir (w_fs w)"
    using sys_open_w_is_dir [of "0x1B6" w p] o by (metis creat_perms(1) snd_conv)
  show "resolve w p = Some k"
    "data_at w' k = Some (if app then case data_at w k of None \<Rightarrow> [] | Some d \<Rightarrow> d else [])"
    if "h = Some k"
    using sys_open_w_data [of w p "0x1B6" True "\<not> app" k w'] o that by (auto split: option.splits)
  show "\<not> is_dir (w_fs w) k" if "h = Some k"
    using sys_open_w_not_dir [of "0x1B6" w p True "\<not> app" k w'] o that d by auto
qed

lemma is_dir_of_write [simp]: "is_dir (w_fs (snd (of_write w k bs))) = is_dir (w_fs w)"
  by (simp add: of_write_def next_ev_eq Let_def)

lemma of_write_nominal:
  assumes "w_script w = []"
  shows "of_write w k bs = (True, set_data k (\<lambda>d. d @ bs) w)"
  using assms by (simp add: of_write_def next_ev_nominal ev_count_def)

lemma data_at_set_data:
  "data_at (set_data k f w) p = (if p = k then map_option f (data_at w k) else data_at w p)"
  by (cases "content w k") (auto simp: data_at_content content_set_data option.map_comp comp_def)

lemma fs_step_resolve:
  assumes "fs_step K w w'" "is_dir (w_fs w') = is_dir (w_fs w)"
  shows "resolve w' p = resolve w p"
  using assms by (intro resolve_cong) (auto dest: fs_stepD(2) env_cwd)

section \<open>Calm stretches\<close>

text \<open>\<open>calm n w\<close>: the kernel lets the next \<open>n\<close> calls succeed in full.\<close>

definition calm :: "nat \<Rightarrow> world \<Rightarrow> bool" where
  "calm n w \<longleftrightarrow> list_all (\<lambda>e. e = Nominal) (take n (w_script w))"

lemma calm_nil [simp]: "w_script w = [] \<Longrightarrow> calm n w"
  by (simp add: calm_def)

lemma calm_ev1: "calm (Suc n) w \<Longrightarrow> ev1 w = Nominal"
  by (auto simp: calm_def ev1_def split: list.splits)

lemma calm_tl: "calm (Suc n) w \<Longrightarrow> w_script w' = tl (w_script w) \<Longrightarrow> calm n w'"
  by (cases "w_script w") (auto simp: calm_def)

lemma calm_mono: "calm n w \<Longrightarrow> m \<le> n \<Longrightarrow> calm m w"
  by (auto simp: calm_def list_all_iff dest: set_take_subset_set_take [THEN subsetD])

lemma of_write_calm:
  "ev1 w = Nominal \<Longrightarrow>
     of_write w k bs = (True, set_data k (\<lambda>d. d @ bs) (w\<lparr>w_script := tl (w_script w)\<rparr>))"
  by (simp add: of_write_def next_ev_eq ev_count_def)

lemma sys_open_w_calm:
  assumes "ev1 w = Nominal" "resolve w p = Some k" "\<not> is_dir (w_fs w) k"
  shows "\<exists>w'. sys_open_w w p perm True trunc = (Some k, w') \<and> w_script w' = tl (w_script w)"
  using assms by (cases "map_of (w_fs w) k") (auto simp: sys_open_w_def next_ev_eq is_dir_def)

lemma ifs_read_calm:
  "ev1 w = Nominal \<Longrightarrow> is_good s \<Longrightarrow>
     ifs_read w s n = (take n (is_rest s),
       \<lparr>is_rest = drop n (is_rest s), is_good = (n \<le> length (is_rest s))\<rparr>, w\<lparr>w_script := tl (w_script w)\<rparr>)"
  by (simp add: ifs_read_def next_ev_eq)

lemma data_at_script [simp]: "data_at (w\<lparr>w_script := s\<rparr>) k = data_at w k"
  by (simp add: data_at_def)

lemma slept_set_data [simp]: "w_slept (set_data k f w) = w_slept w"
  by (simp add: set_data_def split: option.splits)

lemma sys_open_w_slept [simp]: "w_slept (snd (sys_open_w w p perm creat trunc)) = w_slept w"
  by (cases rule: sys_open_w_cases [of w p perm creat trunc]) simp_all

lemma sys_remove_slept [simp]: "w_slept (snd (sys_remove w p)) = w_slept w"
  by (cases rule: sys_remove_cases [of w p]) simp_all

lemma of_write_slept [simp]: "w_slept (snd (of_write w k bs)) = w_slept w"
  by (simp add: of_write_def next_ev_eq Let_def)

lemma is_dir_sys_remove:
  assumes "\<And>k. resolve w p = Some k \<Longrightarrow> \<not> is_dir (w_fs w) k"
  shows "is_dir (w_fs (snd (sys_remove w p))) = is_dir (w_fs w)"
  using assms by (cases rule: sys_remove_cases [of w p]) (auto simp: fun_eq_iff is_dir_delete)

lemma sys_remove_calm:
  assumes "ev1 w = Nominal" "resolve w p = Some k" "entries (w_fs w) k = []" "k \<noteq> []"
  shows "content (snd (sys_remove w p)) k = None \<and> w_script (snd (sys_remove w p)) = tl (w_script w)"
proof (cases "map_of (w_fs w) k")
  case None
  with assms show ?thesis by (simp add: sys_remove_def next_ev_eq content_None)
next
  case (Some i)
  with assms show ?thesis
    by (simp add: sys_remove_def next_ev_eq content_def map_of_touch delete_conv')
qed

lemma entries_file: "fs_wf fs \<Longrightarrow> \<not> is_dir fs k \<Longrightarrow> entries fs k = []"
  by (auto simp: entries_empty dest: fs_wf_good_slot simp: good_slot_def)

section \<open>A path with a longer last name\<close>

lemma split_slash_suffix:
  "CHR ''/'' \<notin> set t \<Longrightarrow>
     split_slash (s @ t) = butlast (split_slash s) @ [last (split_slash s) @ t]"
proof (induction s)
  case Nil
  then show ?case by (simp add: split_slash_plain)
next
  case (Cons c s)
  then show ?case
    by (cases "split_slash s") (auto split: if_splits)
qed

lemma walk_snoc: "walk fs k (cs @ [c]) = Option.bind (walk fs k cs) (\<lambda>r. walk fs r [c])"
  by (induction fs k cs rule: walk.induct) auto

lemma walk_last_file:
  assumes "fs_wf fs" "walk fs k (cs @ [c]) = Some r" "\<not> is_dir fs r"
  obtains q where "walk fs k cs = Some q" "is_dir fs q" "r = q @ [c]" "c \<noteq> []"
proof -
  from assms(2) obtain q where q: "walk fs k cs = Some q" "walk fs q [c] = Some r"
    by (auto simp: walk_snoc bind_eq_Some_conv)
  then have d: "is_dir fs q" by (auto split: if_splits)
  with q assms(1,3) fs_wf_parent [OF assms(1) d] have "r = q @ [c] \<and> c \<noteq> []"
    by (auto split: if_splits)
  with q d that show ?thesis by auto
qed

lemma resolve_suffix:
  assumes wf: "world_wf w" and p: "resolve w p = Some k" "\<not> is_dir (w_fs w) k"
    and nul: "CHR 0x00 \<notin> set p" "CHR 0x00 \<notin> set t" and t: "CHR ''/'' \<notin> set t" "2 \<le> length t"
  shows "k \<noteq> []" "resolve w (p @ t) = Some (butlast k @ [last k @ t])"
proof -
  let ?cs = "split_slash p"
  from p(1) nul have ne: "p \<noteq> []" and wk: "walk (w_fs w) (path_start w p) (butlast ?cs @ [last ?cs]) = Some k"
    by (auto simp: resolve_def Let_def cstr_id split: if_splits)
  from wf have fw: "fs_wf (w_fs w)" by (simp add: world_wf_def)
  obtain q where q: "walk (w_fs w) (path_start w p) (butlast ?cs) = Some q" "is_dir (w_fs w) q"
    "k = q @ [last ?cs]" "last ?cs \<noteq> []"
    using walk_last_file [OF fw wk p(2)] by blast
  then show "k \<noteq> []" by simp
  have "last ?cs @ t \<noteq> ''.''" "last ?cs @ t \<noteq> ''..''"
    using q(4) t(2) by (auto simp: append_eq_Cons_conv)
  then have "walk (w_fs w) (path_start w p) (split_slash (p @ t)) = Some (q @ [last ?cs @ t])"
    using q t by (simp add: split_slash_suffix walk_snoc)
  moreover have "path_start w (p @ t) = path_start w p" using ne by (simp add: path_start_def)
  ultimately show "resolve w (p @ t) = Some (butlast k @ [last k @ t])"
    using q nul ne by (simp add: resolve_def Let_def cstr_id)
qed

end
