(* ===== verification/LinuxFileUtil.thy ===== *)
theory LinuxFileUtil
  imports FileTree
begin

text \<open>
  \<^verbatim>\<open>src/utils/LinuxFileUtil.cpp\<close>: queries, \<^verbatim>\<open>chmod\<close>, recursive directory creation, directory
  listing and MD5.  OpenSSL's \<^verbatim>\<open>MD5_Init\<close>/\<^verbatim>\<open>MD5_Update\<close>/\<^verbatim>\<open>MD5_Final\<close> are the parameter
  \<open>md5_api\<close>; what the code relies on is the locale \<open>md5_stream\<close>.
\<close>

section \<open>Queries\<close>

definition fileExists :: "world \<Rightarrow> string \<Rightarrow> bool" where
  "fileExists w path \<longleftrightarrow> sys_stat w path \<noteq> None"

definition getFileStat :: "world \<Rightarrow> string \<Rightarrow> stat_t option" where
  "getFileStat w path = sys_stat w path"

definition getFileSize :: "world \<Rightarrow> string \<Rightarrow> off_t" where
  "getFileSize w path = (case sys_stat w path of None \<Rightarrow> -1 | Some st \<Rightarrow> st_size st)"

definition getFileMtime :: "world \<Rightarrow> string \<Rightarrow> time_t" where
  "getFileMtime w path = (case sys_stat w path of None \<Rightarrow> -1 | Some st \<Rightarrow> st_mtime st)"

definition getFileMode :: "world \<Rightarrow> string \<Rightarrow> mode_t" where
  "getFileMode w path = (case sys_stat w path of None \<Rightarrow> 0 | Some st \<Rightarrow> st_mode st)"

definition setFileMode :: "world \<Rightarrow> string \<Rightarrow> mode_t \<Rightarrow> bool \<times> world" where
  "setFileMode w path mode = sys_chmod w path mode"

section \<open>Creating and listing directories\<close>

text \<open>The loop of \<^verbatim>\<open>createDirectory\<close>, at search position \<open>pos\<close>.\<close>

function createDirectory_loop :: "world \<Rightarrow> string \<Rightarrow> mode_t \<Rightarrow> nat \<Rightarrow> bool \<times> world" where
  "createDirectory_loop w path mode pos =
     (case str_find (CHR ''/'') path pos of
        None \<Rightarrow> (True, w)
      | Some nxt \<Rightarrow>
          (let currentPath = take nxt path in
           if currentPath \<noteq> [] \<and> sys_stat w currentPath = None then
             (let (ok, w1) = sys_mkdir w currentPath mode in
              if \<not> ok then (False, w1)
              else createDirectory_loop w1 path mode (nxt + 1))
           else createDirectory_loop w path mode (nxt + 1)))"
  by pat_completeness auto
termination
  by (relation "measure (\<lambda>(w, path, mode, pos). length path - pos)")
     (auto dest!: str_find_range)

declare createDirectory_loop.simps [simp del]

definition createDirectory :: "world \<Rightarrow> string \<Rightarrow> mode_t \<Rightarrow> bool \<times> world" where
  "createDirectory w path mode =
     (let (ok, w1) = createDirectory_loop w path mode 0 in
      if \<not> ok then (False, w1)
      else if path \<noteq> [] \<and> sys_stat w1 path = None then
        (let (ok2, w2) = sys_mkdir w1 path mode in if \<not> ok2 then (False, w2) else (True, w2))
      else (True, w1))"

definition listDirectory :: "world \<Rightarrow> string \<Rightarrow> string list" where
  "listDirectory w path =
     (case sys_opendir w path of None \<Rightarrow> []
      | Some names \<Rightarrow> map (\<lambda>name. path @ ''/'' @ name) (filter (\<lambda>name. name \<noteq> ''.'' \<and> name \<noteq> ''..'') names))"

section \<open>MD5\<close>

record 'c md5_api =
  MD5_Init :: 'c
  MD5_Update :: "'c \<Rightarrow> byte list \<Rightarrow> 'c"
  MD5_Final :: "'c \<Rightarrow> byte list"

definition hex_digit :: "nat \<Rightarrow> char" where
  "hex_digit n = ''0123456789abcdef'' ! n"

text \<open>\<^verbatim>\<open>sprintf(hex, "%02x", hash[i])\<close>, byte after byte.\<close>

definition hex_string :: "byte list \<Rightarrow> string" where
  "hex_string bs = concat (map (\<lambda>b. [hex_digit (of_char b div 16), hex_digit (of_char b mod 16)]) bs)"

text \<open>The block loop; a full read of 4096 bytes continues, anything shorter is the remainder.\<close>

function md5_loop :: "'c md5_api \<Rightarrow> world \<Rightarrow> ifstream \<Rightarrow> 'c \<Rightarrow> 'c \<times> world" where
  "md5_loop M w file ctx =
     (let (buffer, file1, w1) = ifs_read w file 4096 in
      if is_good file1 then md5_loop M w1 file1 (MD5_Update M ctx buffer)
      else if length buffer > 0 then (MD5_Update M ctx buffer, w1)
      else (ctx, w1))"
  by pat_completeness auto
termination
  by (relation "measure (\<lambda>(M, w, file, ctx). length (is_rest file))")
     (auto simp: ifs_read_def next_ev_eq Let_def split: if_splits)

declare md5_loop.simps [simp del]

definition calculateMD5 :: "'c md5_api \<Rightarrow> world \<Rightarrow> string \<Rightarrow> string \<times> world" where
  "calculateMD5 M w path =
     (case ifs_open w path of None \<Rightarrow> ([], w)
      | Some d \<Rightarrow>
          (let (ctx, w1) = md5_loop M w \<lparr>is_rest = d, is_good = True\<rparr> (MD5_Init M)
           in (hex_string (MD5_Final M ctx), w1)))"

text \<open>\<^verbatim>\<open>calculatePartialMD5\<close> hashes only the reads that were filled completely.\<close>

function partial_md5_loop :: "'c md5_api \<Rightarrow> world \<Rightarrow> ifstream \<Rightarrow> nat \<Rightarrow> 'c \<Rightarrow> 'c \<times> world" where
  "partial_md5_loop M w file remaining ctx =
     (if remaining > 0 then
        (let (buffer, file1, w1) = ifs_read w file (min 4096 remaining) in
         if is_good file1 then
           partial_md5_loop M w1 file1 (remaining - length buffer) (MD5_Update M ctx buffer)
         else (ctx, w1))
      else (ctx, w))"
  by pat_completeness auto
termination
  by (relation "measure (\<lambda>(M, w, file, remaining, ctx). remaining)")
     (auto simp: ifs_read_def next_ev_eq Let_def split: if_splits)

declare partial_md5_loop.simps [simp del]

definition calculatePartialMD5 :: "'c md5_api \<Rightarrow> world \<Rightarrow> string \<Rightarrow> off_t \<Rightarrow> nat \<Rightarrow> string \<times> world" where
  "calculatePartialMD5 M w path offset sz =
     (case ifs_open w path of None \<Rightarrow> ([], w)
      | Some d \<Rightarrow>
          if offset < 0 then ([], w)
          else
            (let (ctx, w1) = partial_md5_loop M w \<lparr>is_rest = drop (nat offset) d, is_good = True\<rparr>
                               sz (MD5_Init M)
             in (hex_string (MD5_Final M ctx), w1)))"

section \<open>Disk space\<close>

text \<open>The product of two \<^verbatim>\<open>unsigned long\<close>s, converted to \<^verbatim>\<open>off_t\<close>.\<close>

definition mul_to_off_t :: "nat \<Rightarrow> nat \<Rightarrow> off_t" where
  "mul_to_off_t a b = to_signed 64 ((a * b) mod 2 ^ 64)"

definition getFreeDiskSpace :: "world \<Rightarrow> string \<Rightarrow> off_t" where
  "getFreeDiskSpace w path =
     (case sys_statvfs w path of None \<Rightarrow> -1
      | Some (f_bavail, f_bsize, f_frsize) \<Rightarrow> mul_to_off_t f_bavail f_frsize)"

definition LinuxFileUtil_checkDiskSpace :: "world \<Rightarrow> string \<Rightarrow> off_t \<Rightarrow> bool" where
  "LinuxFileUtil_checkDiskSpace w path requiredSize =
     (case sys_statvfs w path of None \<Rightarrow> False
      | Some (f_bavail, f_bsize, f_frsize) \<Rightarrow> requiredSize \<le> mul_to_off_t f_bavail f_frsize)"

section \<open>What \<^verbatim>\<open>createDirectory\<close> does\<close>

text \<open>\<open>dirs_added w w'\<close>: nothing that existed changed, and what is new is a directory.\<close>

definition dirs_added :: "world \<Rightarrow> world \<Rightarrow> bool" where
  "dirs_added w w' \<longleftrightarrow> fs_step {k. content w k = None \<and> is_dir (w_fs w') k} w w'"

lemma dirs_added_refl [simp, intro]: "dirs_added w w"
  by (simp add: dirs_added_def)

lemma dirs_added_content: "dirs_added w w' \<Longrightarrow> content w k = Some c \<Longrightarrow> content w' k = Some c"
  by (simp add: dirs_added_def fs_step_def)

lemma dirs_added_is_dir: "dirs_added w w' \<Longrightarrow> is_dir (w_fs w) k \<Longrightarrow> is_dir (w_fs w') k"
  using dirs_added_content [of w w' k] by (auto simp: is_dir_content split: option.splits)

lemma dirs_added_new: "dirs_added w w' \<Longrightarrow> content w k = None \<Longrightarrow> content w' k \<noteq> None \<Longrightarrow> is_dir (w_fs w') k"
  by (auto simp: dirs_added_def fs_step_def)

lemma dirs_added_trans:
  assumes a: "dirs_added w w1" and b: "dirs_added w1 w2"
  shows "dirs_added w w2"
proof -
  from a b have "content w2 k = content w k" if "content w k \<noteq> None \<or> \<not> is_dir (w_fs w2) k" for k
    using that dirs_added_content [OF a, of k] dirs_added_content [OF b, of k]
      dirs_added_new [OF a, of k] dirs_added_new [OF b, of k] dirs_added_is_dir [OF b, of k]
    by (metis not_None_eq)
  with a b show ?thesis
    by (auto simp: dirs_added_def fs_step_def)
qed

lemma dirs_added_env: "dirs_added w w' \<Longrightarrow> env_of w' = env_of w"
  by (simp add: dirs_added_def fs_step_def)

lemma dirs_added_net: "dirs_added w w' \<Longrightarrow> net_of w' = net_of w"
  by (simp add: dirs_added_def fs_step_def)

lemma dirs_added_wf: "dirs_added w w' \<Longrightarrow> world_wf w \<Longrightarrow> world_wf w'"
  by (simp add: dirs_added_def fs_step_def)

lemma dirs_added_resolve: "dirs_added w w' \<Longrightarrow> resolve w p = Some k \<Longrightarrow> resolve w' p = Some k"
  by (erule resolve_mono [rotated 2]) (auto dest: dirs_added_is_dir dirs_added_env env_cwd)

lemma sys_mkdir_dirs_added: "dirs_added w (snd (sys_mkdir w p m))"
proof (cases rule: sys_mkdir_cases [of w p m])
  case (made k)
  let ?w = "snd (sys_mkdir w p m)"
  have "fs_step {k. resolve_mkdir w p = Some k} w ?w" by (rule sys_mkdir_step)
  moreover have "is_dir (w_fs ?w) k" "content w k = None"
    using made by (simp_all add: is_dir_add_entry content_None)
  ultimately show ?thesis using made(1) by (auto simp: dirs_added_def elim: fs_step_mono)
qed (simp add: dirs_added_def)

lemma createDirectory_loop_dirs_added: "dirs_added w (snd (createDirectory_loop w path m pos))"
proof (induction w path m pos rule: createDirectory_loop.induct)
  case (1 w path m pos)
  show ?case
  proof (cases "str_find (CHR ''/'') path pos")
    case None
    then show ?thesis by (simp add: createDirectory_loop.simps)
  next
    case (Some nxt)
    obtain ok w1 where mk: "sys_mkdir w (take nxt path) m = (ok, w1)" by fastforce
    then have w1: "dirs_added w w1" using sys_mkdir_dirs_added [of w "take nxt path" m] by simp
    show ?thesis
      using 1(1) [OF Some refl _ mk [symmetric] refl] 1(2) [OF Some refl] w1 mk Some
      by (subst createDirectory_loop.simps) (auto simp: Let_def intro: dirs_added_trans)
  qed
qed

lemma createDirectory_dirs_added: "dirs_added w (snd (createDirectory w path m))"
  using createDirectory_loop_dirs_added [of w path m 0] sys_mkdir_dirs_added dirs_added_trans
  by (auto simp: createDirectory_def Let_def split: prod.splits) (metis snd_conv)+

lemma sys_mkdir_ok_stat:
  assumes "fst (sys_mkdir w p m)"
  obtains k where "resolve_mkdir w p = Some k" "is_dir (w_fs (snd (sys_mkdir w p m))) k"
  using assms by (cases rule: sys_mkdir_cases [of w p m]) (auto simp: is_dir_add_entry)

lemma walk_append: "walk fs k (xs @ ys) = Option.bind (walk fs k xs) (\<lambda>r. walk fs r ys)"
  by (induction fs k xs rule: walk.induct) auto

lemma walk_empties: "is_dir fs k \<Longrightarrow> walk fs k (replicate n []) = Some k"
  by (induction n) auto

lemma strip_slashes_replicate: "\<exists>n. cs = strip_slashes cs @ replicate n []"
proof (induction cs rule: rev_induct)
  case Nil
  then show ?case by (simp add: strip_slashes_def)
next
  case (snoc c cs)
  then obtain n where n: "cs = strip_slashes cs @ replicate n []" by blast
  show ?case
  proof (cases "c = []")
    case True
    then have "strip_slashes (cs @ [c]) = strip_slashes cs" by (simp add: strip_slashes_def)
    with n True have "cs @ [c] = strip_slashes (cs @ [c]) @ replicate (Suc n) []"
      by (metis append.assoc replicate_Suc replicate_append_same)
    then show ?thesis by blast
  qed (auto simp: strip_slashes_def intro: exI [of _ 0])
qed

lemma resolve_after_mkdir:
  assumes r: "resolve_mkdir w p = Some k" and mono: "\<And>q. is_dir (w_fs w) q \<Longrightarrow> is_dir (w_fs w') q"
    and "w_cwd w' = w_cwd w" and k: "is_dir (w_fs w') k"
  shows "resolve w' p = Some k"
proof -
  let ?q = "cstr p" and ?s = "path_start w (cstr p)"
  from r have q: "?q \<noteq> []" and w: "walk (w_fs w) ?s (strip_slashes (split_slash ?q)) = Some k"
    by (auto simp: resolve_mkdir_def Let_def split: if_splits)
  obtain n where n: "split_slash ?q = strip_slashes (split_slash ?q) @ replicate n []"
    using strip_slashes_replicate by blast
  have "walk (w_fs w') ?s (split_slash ?q) = Some k"
    using walk_mono [OF mono w] k by (subst n) (simp add: walk_append walk_empties)
  with q assms(3) show ?thesis by (auto simp: resolve_def Let_def path_start_def split: if_splits)
qed

lemma fileExists_content:
  "fileExists w p \<longleftrightarrow> (\<exists>k. resolve w p = Some k \<and> content w k \<noteq> None)"
  by (auto simp: fileExists_def sys_stat_def content_None split: option.splits)

lemma createDirectory_exists:
  assumes c: "createDirectory w path m = (True, w')" and ne: "path \<noteq> []"
  shows "fileExists w' path"
proof -
  obtain ok w1 where l: "createDirectory_loop w path m 0 = (ok, w1)" by fastforce
  show ?thesis
  proof (cases "sys_stat w1 path")
    case None
    with c l ne have mk: "sys_mkdir w1 path m = (True, w')"
      by (auto simp: createDirectory_def Let_def split: if_splits prod.splits)
    then obtain k where k: "resolve_mkdir w1 path = Some k" "is_dir (w_fs w') k"
      using sys_mkdir_ok_stat [of w1 path m] by auto
    have d: "dirs_added w1 w'" using sys_mkdir_dirs_added [of w1 path m] mk by simp
    have "resolve w' path = Some k"
      using k d by (intro resolve_after_mkdir [OF k(1)]) (auto dest: dirs_added_is_dir dirs_added_env env_cwd)
    with k(2) show ?thesis by (auto simp: fileExists_content content_None dest: is_dir_dom)
  next
    case (Some st)
    with c l ne show ?thesis
      by (auto simp: createDirectory_def fileExists_def Let_def split: if_splits)
  qed
qed

subsection \<open>Creating a path that is not blocked\<close>

definition names_of :: "string list \<Rightarrow> string list" where
  "names_of cs = filter (\<lambda>c. c \<noteq> [] \<and> c \<noteq> ''.'') cs"

text \<open>A path name without NUL bytes and without \<^verbatim>\<open>..\<close> components.\<close>

definition plain_path :: "string \<Rightarrow> bool" where
  "plain_path p \<longleftrightarrow> p \<noteq> [] \<and> CHR 0x00 \<notin> set p \<and> ''..'' \<notin> set (split_slash p)"

definition path_key :: "world \<Rightarrow> string \<Rightarrow> fpath" where
  "path_key w p = path_start w p @ names_of (split_slash p)"

text \<open>Every directory on the way to \<open>k @ ns\<close>, from \<open>k\<close> on, exists.\<close>

fun dirs_upto :: "filesys \<Rightarrow> fpath \<Rightarrow> string list \<Rightarrow> bool" where
  "dirs_upto fs k [] = is_dir fs k"
| "dirs_upto fs k (c # ns) = (is_dir fs k \<and> dirs_upto fs (k @ [c]) ns)"

lemma dirs_upto_snoc [simp]:
  "dirs_upto fs k (ns @ [c]) \<longleftrightarrow> dirs_upto fs k ns \<and> is_dir fs (k @ ns @ [c])"
  by (induction ns arbitrary: k) auto

lemma dirs_upto_last: "dirs_upto fs k ns \<Longrightarrow> is_dir fs (k @ ns)"
  by (induction ns arbitrary: k) fastforce+

lemma dirs_upto_hd: "dirs_upto fs k ns \<Longrightarrow> is_dir fs k"
  by (cases ns) auto

lemma dirs_upto_mono: "dirs_upto fs k ns \<Longrightarrow> (\<And>p. is_dir fs p \<Longrightarrow> is_dir fs' p) \<Longrightarrow> dirs_upto fs' k ns"
  by (induction ns arbitrary: k) auto

lemma walk_dirs:
  "''..'' \<notin> set cs \<Longrightarrow> dirs_upto fs k (names_of cs) \<Longrightarrow> walk fs k cs = Some (k @ names_of cs)"
proof (induction cs arbitrary: k)
  case (Cons c cs)
  have "is_dir fs k" using Cons.prems(2) by (rule dirs_upto_hd)
  with Cons show ?case by (auto simp: names_of_def)
qed (simp add: names_of_def)

text \<open>A piece \<open>c\<close> of a path after a slash, or at its start.\<close>

definition at_boundary :: "string \<Rightarrow> bool" where
  "at_boundary pre \<longleftrightarrow> pre = [] \<or> last pre = CHR ''/''"

lemma split_boundary:
  assumes "at_boundary pre" "CHR ''/'' \<notin> set c"
  obtains cs where "split_slash (pre @ c) = cs @ [c]" "names_of cs = names_of (split_slash pre)"
proof (cases "pre = []")
  case True
  with assms have "split_slash (pre @ c) = [] @ [c]" by (simp add: split_slash_plain)
  moreover from True have "names_of [] = names_of (split_slash pre)" by (simp add: names_of_def)
  ultimately show thesis by (rule that)
next
  case False
  with assms(1) obtain p0 where p0: "pre = p0 @ [CHR ''/'']"
    by (metis append_butlast_last_id at_boundary_def)
  have "split_slash (pre @ c) = split_slash p0 @ [c]"
    using assms(2) by (simp add: p0 split_slash_append split_slash_plain)
  moreover have "names_of (split_slash p0) = names_of (split_slash pre)"
    by (simp add: p0 split_slash_append names_of_def)
  ultimately show thesis by (rule that)
qed

lemma names_slash: "names_of (split_slash (q @ ''/'')) = names_of (split_slash q)"
  using split_slash_append [of q "[]"] by (simp add: names_of_def)

lemma ensure_directory:
  assumes script: "w_script w = []" and q: "q = pre @ c" "plain_path q"
    and pre: "at_boundary pre" "CHR ''/'' \<notin> set c"
    and dirs: "dirs_upto (w_fs w) (path_start w q) (names_of (split_slash pre))"
    and free: "content w (path_key w q) = None \<or> is_dir (w_fs w) (path_key w q)"
  shows "\<exists>w'. (if sys_stat w q = None then sys_mkdir w q m else (True, w)) = (True, w') \<and>
    w_script w' = [] \<and> dirs_upto (w_fs w') (path_start w q) (names_of (split_slash q))"
proof -
  let ?s = "path_start w q" and ?N = "names_of (split_slash pre)"
  obtain cs where cs: "split_slash q = cs @ [c]" "names_of cs = ?N"
    using split_boundary [OF pre] q(1) by metis
  have nn: "''..'' \<notin> set cs" "c \<noteq> ''..''" using q(2) cs by (auto simp: plain_path_def)
  have key: "path_key w q = ?s @ ?N @ names_of [c]"
    using cs by (simp add: path_key_def names_of_def)
  have last: "is_dir (w_fs w) (?s @ ?N)" using dirs by (rule dirs_upto_last)
  have wk: "walk (w_fs w) ?s (split_slash q) = Some (path_key w q)"
    using walk_dirs [OF nn(1)] dirs cs last nn(2) by (simp add: walk_append key names_of_def)
  have cq: "cstr q = q" "q \<noteq> []" using q(2) by (auto simp: plain_path_def cstr_id)
  then have res: "resolve w q = Some (path_key w q)" using wk by (simp add: resolve_def Let_def)
  show ?thesis
  proof (cases "is_dir (w_fs w) (path_key w q)")
    case True
    then have "sys_stat w q \<noteq> None" using res by (auto simp: sys_stat_def dest: is_dir_dom)
    moreover have "dirs_upto (w_fs w) ?s (names_of (split_slash q))"
      using dirs True cs key by (auto simp: names_of_def)
    ultimately show ?thesis using script by auto
  next
    case False
    with free have none: "map_of (w_fs w) (path_key w q) = None" by (simp add: content_None)
    from False last key have c: "names_of [c] = [c]" "c \<noteq> []" by (auto simp: names_of_def split: if_splits)
    then have "strip_slashes (split_slash q) = split_slash q"
      using cs(1) by (simp add: strip_slashes_def)
    with wk cq have mk: "resolve_mkdir w q = Some (path_key w q)"
      by (simp add: resolve_mkdir_def Let_def)
    have st: "sys_stat w q = None" using res none by (simp add: sys_stat_def)
    let ?w = "snd (sys_mkdir w q m)"
    have ok: "sys_mkdir w q m = (True, ?w)" "w_script ?w = []" "is_dir (w_fs ?w) (path_key w q)"
      using mk none script by (simp_all add: sys_mkdir_def next_ev_nominal is_dir_add_entry)
    have "dirs_upto (w_fs ?w) ?s ?N"
      using dirs dirs_added_is_dir [OF sys_mkdir_dirs_added] by (rule dirs_upto_mono)
    moreover have "names_of (split_slash q) = ?N @ [c]" using cs c by (simp add: names_of_def)
    ultimately show ?thesis using ok st key c by (metis dirs_upto_snoc)
  qed
qed

text \<open>No file stands where a directory of the path should be.\<close>

definition path_free :: "world \<Rightarrow> string \<Rightarrow> bool" where
  "path_free w p \<longleftrightarrow> list_all (\<lambda>i.
     let k = path_start w p @ take i (names_of (split_slash p))
     in content w k = None \<or> is_dir (w_fs w) k) [0..<Suc (length (names_of (split_slash p)))]"

lemma path_free_iff:
  "path_free w p \<longleftrightarrow> (\<forall>i \<in> {..length (names_of (split_slash p))}.
     content w (path_start w p @ take i (names_of (split_slash p))) = None
     \<or> is_dir (w_fs w) (path_start w p @ take i (names_of (split_slash p))))"
  by (auto simp: path_free_def list_all_iff Let_def less_Suc_eq_le simp del: upt_Suc)

lemma path_free_prefix:
  "path_free w p \<Longrightarrow> names_of (split_slash p) = ns @ ms \<Longrightarrow>
     content w (path_start w p @ ns) = None \<or> is_dir (w_fs w) (path_start w p @ ns)"
  by (auto simp: path_free_iff dest!: bspec [of _ _ "length ns"])

lemma dirs_added_path_start: "dirs_added w w' \<Longrightarrow> path_start w' p = path_start w p"
  by (auto simp: path_start_def dest: dirs_added_env env_cwd)

lemma path_free_dirs_added: "path_free w p \<Longrightarrow> dirs_added w w' \<Longrightarrow> path_free w' p"
  unfolding path_free_iff dirs_added_path_start
  by (metis dirs_added_is_dir dirs_added_new)

lemma plain_path_prefix:
  assumes "plain_path (q @ CHR ''/'' # r)" "q \<noteq> []"
  shows "plain_path q" "path_start w (q @ CHR ''/'' # r) = path_start w q"
  using assms by (auto simp: plain_path_def split_slash_append path_start_def)

lemma str_find_boundary:
  assumes "path = pre @ rest" "str_find c path (length pre) = Some n"
  obtains x r where "path = pre @ x @ c # r" "c \<notin> set x" "n = length pre + length x"
proof
  let ?x = "takeWhile (\<lambda>y. y \<noteq> c) rest"
  have n: "n = length pre + length ?x" "length pre + length ?x < length path"
    using assms by (auto simp: str_find_def Let_def split: if_splits)
  then have "dropWhile (\<lambda>y. y \<noteq> c) rest \<noteq> []"
    using assms(1) by (metis append_Nil2 length_append nat_less_le takeWhile_dropWhile_id)
  then have "dropWhile (\<lambda>y. y \<noteq> c) rest = c # tl (dropWhile (\<lambda>y. y \<noteq> c) rest)"
    by (metis (mono_tags, lifting) hd_dropWhile list.exhaust_sel)
  then show "path = pre @ ?x @ c # tl (dropWhile (\<lambda>y. y \<noteq> c) rest)"
    using assms(1) by (metis takeWhile_dropWhile_id)
  show "c \<notin> set ?x" by (auto dest: set_takeWhileD)
  show "n = length pre + length ?x" by (rule n)
qed

lemma createDirectory_loop_step:
  assumes "str_find (CHR ''/'') path pos = Some nxt" "take nxt path = q"
    and "q = [] \<longrightarrow> w1 = w"
    and "q \<noteq> [] \<Longrightarrow> (if sys_stat w q = None then sys_mkdir w q m else (True, w)) = (True, w1)"
  shows "createDirectory_loop w path m pos = createDirectory_loop w1 path m (nxt + 1)"
  using assms by (subst createDirectory_loop.simps) (auto split: if_splits)

lemma createDirectory_loop_total:
  assumes "w_script w = []" "plain_path path" "path = pre @ rest" "at_boundary pre"
    and "dirs_upto (w_fs w) (path_start w path) (names_of (split_slash pre))" "path_free w path"
  shows "\<exists>w' pre' c. createDirectory_loop w path m (length pre) = (True, w') \<and> w_script w' = [] \<and>
    path = pre' @ c \<and> at_boundary pre' \<and> CHR ''/'' \<notin> set c \<and>
    dirs_upto (w_fs w') (path_start w path) (names_of (split_slash pre'))"
  using assms
proof (induction "length rest" arbitrary: w pre rest rule: less_induct)
  case less
  show ?case
  proof (cases "str_find (CHR ''/'') path (length pre)")
    case None
    then have "CHR ''/'' \<notin> set rest" using str_find_None [OF None] less.prems(3) by simp
    with None less.prems show ?thesis by (subst createDirectory_loop.simps) auto
  next
    case (Some n)
    then obtain x r where x: "path = pre @ x @ CHR ''/'' # r" "CHR ''/'' \<notin> set x"
        "n = length pre + length x"
      using str_find_boundary [OF less.prems(3)] by metis
    define q where "q = pre @ x"
    have q: "take n path = q" "path = q @ CHR ''/'' # r" using x by (auto simp: q_def)
    have names: "names_of (split_slash path) = names_of (split_slash q) @ names_of (split_slash r)"
      by (simp add: q(2) split_slash_append names_of_def)
    obtain w1 where w1: "q = [] \<longrightarrow> w1 = w" "w_script w1 = []" "dirs_added w w1"
      "q \<noteq> [] \<Longrightarrow> (if sys_stat w q = None then sys_mkdir w q m else (True, w)) = (True, w1)"
      "dirs_upto (w_fs w1) (path_start w path) (names_of (split_slash (q @ ''/'')))"
    proof (cases "q = []")
      case True
      then show thesis using that [of w] less.prems x by (auto simp: q_def names_of_def)
    next
      case False
      have st: "path_start w path = path_start w q" and pl: "plain_path q"
        using plain_path_prefix [of q r] less.prems(2) False q(2) by auto
      have "content w (path_key w q) = None \<or> is_dir (w_fs w) (path_key w q)"
        using path_free_prefix [OF less.prems(6) names] st by (simp add: path_key_def)
      from ensure_directory [OF less.prems(1) q_def pl less.prems(4) x(2) _ this, of m]
      obtain w1 where e: "(if sys_stat w q = None then sys_mkdir w q m else (True, w)) = (True, w1)"
        "w_script w1 = []" "dirs_upto (w_fs w1) (path_start w q) (names_of (split_slash q))"
        using less.prems(5) st by auto
      have "dirs_added w w1" using e(1) sys_mkdir_dirs_added [of w q m] by (auto split: if_splits)
      then show thesis using that [of w1] e st False by (simp add: names_slash)
    qed
    have "createDirectory_loop w path m (length pre) = createDirectory_loop w1 path m (length (q @ ''/''))"
      using createDirectory_loop_step [OF Some q(1) w1(1,4)] x(3) by (simp add: q_def)
    moreover have st: "path_start w1 path = path_start w path"
      using w1(3) by (rule dirs_added_path_start)
    moreover have "\<exists>w' pre' c. createDirectory_loop w1 path m (length (q @ ''/'')) = (True, w') \<and>
      w_script w' = [] \<and> path = pre' @ c \<and> at_boundary pre' \<and> CHR ''/'' \<notin> set c \<and>
      dirs_upto (w_fs w') (path_start w1 path) (names_of (split_slash pre'))"
    proof (rule less.hyps [OF _ w1(2) less.prems(2)])
      show "length r < length rest" using less.prems(3) x(1) by auto
      show "path = (q @ ''/'') @ r" using q(2) by simp
      show "at_boundary (q @ ''/'')" by (simp add: at_boundary_def)
      show "dirs_upto (w_fs w1) (path_start w1 path) (names_of (split_slash (q @ ''/'')))"
        using w1(5) st by simp
      show "path_free w1 path" using less.prems(6) w1(3) by (rule path_free_dirs_added)
    qed
    ultimately show ?thesis by simp
  qed
qed

lemma dirs_upto_resolve:
  assumes "plain_path p" "dirs_upto (w_fs w) (path_start w p) (names_of (split_slash p))"
  shows "resolve w p = Some (path_key w p)" "is_dir (w_fs w) (path_key w p)"
proof -
  have p: "cstr p = p" "p \<noteq> []" "''..'' \<notin> set (split_slash p)"
    using assms(1) by (auto simp: plain_path_def cstr_id)
  from walk_dirs [OF p(3) assms(2)] p(1,2) show "resolve w p = Some (path_key w p)"
    by (simp add: resolve_def Let_def path_key_def)
  from dirs_upto_last [OF assms(2)] show "is_dir (w_fs w) (path_key w p)"
    by (simp add: path_key_def)
qed

lemma path_start_is_dir: "world_wf w \<Longrightarrow> is_dir (w_fs w) (path_start w p)"
  by (simp add: world_wf_def path_start_def fs_wf_def)

lemma createDirectory_total:
  assumes s: "w_script w = []" and wf: "world_wf w" and p: "plain_path path" "path_free w path"
  shows "\<exists>w'. createDirectory w path m = (True, w') \<and> w_script w' = [] \<and>
    resolve w' path = Some (path_key w path) \<and> is_dir (w_fs w') (path_key w path)"
proof -
  let ?s = "path_start w path"
  have "dirs_upto (w_fs w) ?s (names_of (split_slash []))"
    using wf by (simp add: names_of_def path_start_is_dir)
  with createDirectory_loop_total [OF s p(1) _ _ _ p(2), of "[]" path m]
  obtain w1 pre c where l: "createDirectory_loop w path m 0 = (True, w1)" "w_script w1 = []"
      "path = pre @ c" "at_boundary pre" "CHR ''/'' \<notin> set c"
      "dirs_upto (w_fs w1) ?s (names_of (split_slash pre))"
    by (auto simp: at_boundary_def)
  have d1: "dirs_added w w1" using createDirectory_loop_dirs_added [of w path m 0] l(1) by simp
  have st: "path_start w1 path = ?s" using d1 by (rule dirs_added_path_start)
  have "content w1 (path_key w1 path) = None \<or> is_dir (w_fs w1) (path_key w1 path)"
    using path_free_prefix [OF path_free_dirs_added [OF p(2) d1], of _ "[]"] by (simp add: path_key_def)
  from ensure_directory [OF l(2,3) p(1) l(4,5) _ this, of m] l(6) st
  obtain w2 where w2: "(if sys_stat w1 path = None then sys_mkdir w1 path m else (True, w1)) = (True, w2)"
    "w_script w2 = []" "dirs_upto (w_fs w2) ?s (names_of (split_slash path))" by auto
  have "dirs_added w1 w2" using w2(1) sys_mkdir_dirs_added [of w1 path m] by (auto split: if_splits)
  then have "path_start w2 path = ?s" "path_key w2 path = path_key w path"
    using st by (simp_all add: path_key_def dirs_added_path_start)
  with dirs_upto_resolve [OF p(1), of w2] w2(3)
  have "resolve w2 path = Some (path_key w path)" "is_dir (w_fs w2) (path_key w path)" by auto
  moreover have "createDirectory w path m = (True, w2)"
    using l(1) w2(1) p(1) by (auto simp: createDirectory_def plain_path_def split: if_splits)
  ultimately show ?thesis using w2(2) by blast
qed

subsection \<open>Where directories are created\<close>

definition path_prefixes :: "world \<Rightarrow> string \<Rightarrow> fpath set" where
  "path_prefixes w p = {path_start w p @ take i (names_of (split_slash p)) | i. True}"

lemma walk_names:
  "''..'' \<notin> set cs \<Longrightarrow> walk fs k cs = Some r \<Longrightarrow> r = k @ names_of cs"
  by (induction fs k cs rule: walk.induct) (auto simp: names_of_def split: if_splits)

lemma names_of_strip: "names_of (strip_slashes cs) = names_of cs"
proof -
  obtain n where "cs = strip_slashes cs @ replicate n []" using strip_slashes_replicate by blast
  then have "names_of cs = names_of (strip_slashes cs @ replicate n [])" by metis
  then show ?thesis by (simp add: names_of_def)
qed

lemma set_strip: "set (strip_slashes cs) \<subseteq> set cs"
  by (auto simp: strip_slashes_def dest: set_dropWhileD)

lemma resolve_mkdir_key:
  assumes "plain_path p" "resolve_mkdir w p = Some k"
  shows "k = path_start w p @ names_of (split_slash p)"
  using assms walk_names [of "strip_slashes (split_slash p)" "w_fs w" "path_start w p" k] set_strip
  by (auto simp: resolve_mkdir_def Let_def plain_path_def cstr_id names_of_strip split: if_splits)

lemma path_prefixes_take:
  assumes "plain_path p" "str_find (CHR ''/'') p pos = Some n" "0 < n"
  shows "plain_path (take n p)" "path_start w (take n p) @ names_of (split_slash (take n p)) \<in> path_prefixes w p"
proof -
  have p: "p = take n p @ CHR ''/'' # drop (Suc n) p"
    using str_find_Some(2,3) [OF assms(2)] by (metis id_take_nth_drop)
  have ne: "take n p \<noteq> []" using str_find_Some(2) [OF assms(2)] assms(3) by auto
  have pp: "plain_path (take n p @ CHR ''/'' # drop (Suc n) p)" using assms(1) p by simp
  from plain_path_prefix [OF pp ne] p show "plain_path (take n p)" by metis
  have st: "path_start w (take n p) = path_start w p" using plain_path_prefix(2) [OF pp ne, of w] p by metis
  have "split_slash p = split_slash (take n p) @ split_slash (drop (Suc n) p)"
    using p split_slash_append by metis
  then have "names_of (split_slash (take n p)) = take (length (names_of (split_slash (take n p)))) (names_of (split_slash p))"
    by (simp add: names_of_def)
  with st show "path_start w (take n p) @ names_of (split_slash (take n p)) \<in> path_prefixes w p"
    by (auto simp: path_prefixes_def)
qed

lemma path_prefixes_env: "env_of w' = env_of w \<Longrightarrow> path_prefixes w' p = path_prefixes w p"
  by (simp add: path_prefixes_def path_start_def env_of_def)

lemma createDirectory_loop_footprint:
  assumes "plain_path path"
  shows "fs_step (path_prefixes w path) w (snd (createDirectory_loop w path m pos))"
  using assms
proof (induction w path m pos rule: createDirectory_loop.induct)
  case (1 w path m pos)
  show ?case
  proof (cases "str_find (CHR ''/'') path pos")
    case None
    then show ?thesis by (simp add: createDirectory_loop.simps [of w path])
  next
    case (Some n)
    show ?thesis
    proof (cases "take n path \<noteq> [] \<and> sys_stat w (take n path) = None")
      case False
      with Some "1.IH"(2) [OF Some refl False "1.prems"] show ?thesis
        by (subst createDirectory_loop.simps) (auto simp: Let_def)
    next
      case True
      obtain ok w1 where mk: "sys_mkdir w (take n path) m = (ok, w1)" by fastforce
      have "0 < n" using True by (cases n) auto
      note pr = path_prefixes_take [OF "1.prems" Some this]
      have f1: "fs_step (path_prefixes w path) w w1"
        using sys_mkdir_step [of w "take n path" m] mk pr(2) [of w] resolve_mkdir_key [OF pr(1)]
        by (auto intro: fs_step_mono)
      have "fs_step (path_prefixes w1 path) w1 (snd (createDirectory_loop w1 path m (n + 1)))" if ok
        using that True by (intro "1.IH"(1) [OF Some refl _ mk [symmetric] refl _ "1.prems"]) auto
      with f1 path_prefixes_env [OF fs_stepD(2) [OF f1]] show ?thesis
        using Some True mk by (subst createDirectory_loop.simps) (auto simp: Let_def intro: fs_step_trans1)
    qed
  qed
qed

lemma createDirectory_footprint:
  assumes "plain_path path"
  shows "fs_step (path_prefixes w path) w (snd (createDirectory w path m))"
proof -
  obtain ok w1 where l: "createDirectory_loop w path m 0 = (ok, w1)" by fastforce
  have f1: "fs_step (path_prefixes w path) w w1"
    using createDirectory_loop_footprint [OF assms, of w m 0] l by simp
  have "path_start w1 path @ names_of (split_slash path) \<in> path_prefixes w1 path"
    unfolding path_prefixes_def by (intro CollectI exI [of _ "length (names_of (split_slash path))"]) simp
  then have "fs_step (path_prefixes w1 path) w1 (snd (sys_mkdir w1 path m))"
    using resolve_mkdir_key [OF assms, of w1] by (intro fs_step_mono [OF sys_mkdir_step]) auto
  with f1 path_prefixes_env [OF fs_stepD(2) [OF f1]] l show ?thesis
    by (auto simp: createDirectory_def Let_def split: prod.splits intro: fs_step_trans1)
qed

section \<open>What the hashes cover\<close>

locale md5_stream =
  fixes M :: "'c md5_api"
  assumes update_nil: "MD5_Update M c [] = c"
    and update_append: "MD5_Update M (MD5_Update M c a) b = MD5_Update M c (a @ b)"
begin

lemma md5_loop_all:
  "w_script w = [] \<Longrightarrow>
     md5_loop M w \<lparr>is_rest = d, is_good = True\<rparr> c = (MD5_Update M c d, w)"
proof (induction "length d" arbitrary: d c rule: less_induct)
  case less
  show ?case
  proof (cases "4096 \<le> length d")
    case True
    then have "md5_loop M w \<lparr>is_rest = drop 4096 d, is_good = True\<rparr> (MD5_Update M c (take 4096 d))
        = (MD5_Update M (MD5_Update M c (take 4096 d)) (drop 4096 d), w)"
      by (intro less.hyps less.prems) auto
    with True show ?thesis
      by (subst md5_loop.simps) (simp add: ifs_read_def next_ev_nominal less.prems update_append)
  next
    case False
    then show ?thesis
      by (subst md5_loop.simps)
         (simp add: ifs_read_def next_ev_nominal less.prems update_nil)
  qed
qed

lemma partial_md5_loop_enough:
  "w_script w = [] \<Longrightarrow> n \<le> length d \<Longrightarrow>
     partial_md5_loop M w \<lparr>is_rest = d, is_good = True\<rparr> n c = (MD5_Update M c (take n d), w)"
proof (induction n arbitrary: d c rule: less_induct)
  case (less n)
  let ?b = "min 4096 n"
  show ?case
  proof (cases "n = 0")
    case True
    then show ?thesis by (subst partial_md5_loop.simps) (simp add: update_nil)
  next
    case False
    have "partial_md5_loop M w \<lparr>is_rest = drop ?b d, is_good = True\<rparr> (n - ?b) (MD5_Update M c (take ?b d))
        = (MD5_Update M (MD5_Update M c (take ?b d)) (take (n - ?b) (drop ?b d)), w)"
      using False less.prems by (intro less.IH) auto
    moreover have "take n d = take ?b d @ take (n - ?b) (drop ?b d)"
      by (metis add_diff_inverse_nat min.cobounded2 not_less take_add)
    moreover have "?b \<le> length d" "length (take ?b d) = ?b" using less.prems by auto
    ultimately show ?thesis using False less.prems(1)
      by (subst partial_md5_loop.simps)
         (simp add: ifs_read_def next_ev_nominal update_append del: length_take)
  qed
qed

text \<open>Past the end of the file, the bytes after the last full block are left out.\<close>

lemma partial_md5_loop_short:
  "w_script w = [] \<Longrightarrow> length d < n \<Longrightarrow>
     partial_md5_loop M w \<lparr>is_rest = d, is_good = True\<rparr> n c =
       (MD5_Update M c (take (length d div 4096 * 4096) d), w)"
proof (induction n arbitrary: d c rule: less_induct)
  case (less n)
  show ?case
  proof (cases "4096 \<le> length d")
    case True
    let ?q = "length d div 4096 * 4096"
    have q: "4096 + length (drop 4096 d) div 4096 * 4096 = ?q"
      using True by (simp add: le_div_geq)
    have "partial_md5_loop M w \<lparr>is_rest = drop 4096 d, is_good = True\<rparr> (n - 4096) (MD5_Update M c (take 4096 d))
        = (MD5_Update M (MD5_Update M c (take 4096 d)) (take (length (drop 4096 d) div 4096 * 4096) (drop 4096 d)), w)"
      using True less.prems by (intro less.IH) auto
    moreover have "take ?q d = take 4096 d @ take (length (drop 4096 d) div 4096 * 4096) (drop 4096 d)"
      by (simp add: take_add flip: q)
    moreover have "min 4096 n = 4096" "length (take 4096 d) = 4096" "0 < n"
      using True less.prems by auto
    ultimately show ?thesis using True less.prems(1)
      by (subst partial_md5_loop.simps)
         (simp add: ifs_read_def next_ev_nominal update_append del: length_take)
  next
    case False
    with less.prems show ?thesis
      by (subst partial_md5_loop.simps) (auto simp: ifs_read_def next_ev_nominal update_nil)
  qed
qed

end

text \<open>Any hash of the whole message, computed on a context that collects it.\<close>

definition md5_of :: "(byte list \<Rightarrow> byte list) \<Rightarrow> byte list md5_api" where
  "md5_of H = \<lparr>MD5_Init = [], MD5_Update = (\<lambda>c bs. c @ bs), MD5_Final = H\<rparr>"

interpretation collected: md5_stream "md5_of H" for H
  by unfold_locales (simp_all add: md5_of_def)

end
