(* ===== verification/Progress.thy ===== *)
theory Progress
  imports LinuxFileUtil
begin

text \<open>
  The progress file of \<^verbatim>\<open>FileSync\<close> (\<^verbatim>\<open>saveProgress\<close>, \<^verbatim>\<open>loadProgress\<close>,
  \<^verbatim>\<open>getProgressFilePath\<close>): three lines of text next to the destination, written with
  \<^verbatim>\<open>operator<<\<close> and read back with \<^verbatim>\<open>operator>>\<close>.
\<close>

record SyncProgress =
  sp_filePath :: string
  sp_offset :: off_t
  sp_totalSize :: off_t

section \<open>Formatted output and input\<close>

definition digit_char :: "nat \<Rightarrow> char" where
  "digit_char d = char_of (48 + d)"

fun show_nat :: "nat \<Rightarrow> string" where
  "show_nat n = (if n < 10 then [digit_char n] else show_nat (n div 10) @ [digit_char (n mod 10)])"

declare show_nat.simps [simp del]

definition show_int :: "int \<Rightarrow> string" where
  "show_int i = (if i < 0 then CHR ''-'' # show_nat (nat (- i)) else show_nat (nat i))"

text \<open>\<^verbatim>\<open>isspace\<close> in the C locale.\<close>

definition is_space :: "char \<Rightarrow> bool" where
  "is_space c \<longleftrightarrow> (of_char c :: nat) \<in> {9, 10, 11, 12, 13, 32}"

definition skip_ws :: "string \<Rightarrow> string" where
  "skip_ws s = dropWhile is_space s"

text \<open>\<^verbatim>\<open>in >> str\<close>: the word and what is left of the stream.\<close>

definition extract_word :: "string \<Rightarrow> string \<times> string" where
  "extract_word s =
     (let t = skip_ws s in (takeWhile (\<lambda>c. \<not> is_space c) t, dropWhile (\<lambda>c. \<not> is_space c) t))"

text \<open>\<^verbatim>\<open>in >> n\<close> for a 64-bit signed \<^verbatim>\<open>n\<close>: the value stored, whether the stream stays good, and what is
  left of it.  A value out of range is clamped and fails the stream.\<close>

definition extract_int :: "string \<Rightarrow> int \<times> bool \<times> string" where
  "extract_int s =
     (let t = skip_ws s;
          neg = (t \<noteq> [] \<and> hd t = CHR ''-'');
          u = (if t \<noteq> [] \<and> (hd t = CHR ''-'' \<or> hd t = CHR ''+'') then tl t else t);
          ds = takeWhile is_digit u;
          r = dropWhile is_digit u;
          v = (if neg then - int (dec_value ds) else int (dec_value ds))
      in if ds = [] then (0, False, r)
         else if v > 2 ^ 63 - 1 then (2 ^ 63 - 1, False, r)
         else if v < - (2 ^ 63) then (- (2 ^ 63), False, r)
         else (v, True, r))"

section \<open>The operations\<close>

definition getProgressFilePath :: "string \<Rightarrow> string" where
  "getProgressFilePath filePath = filePath @ ''.sync_progress''"

definition progress_text :: "string \<Rightarrow> off_t \<Rightarrow> off_t \<Rightarrow> string" where
  "progress_text filePath offset totalSize =
     filePath @ ''\<newline>'' @ show_int offset @ ''\<newline>'' @ show_int totalSize @ ''\<newline>''"

definition saveProgress :: "world \<Rightarrow> string \<Rightarrow> off_t \<Rightarrow> off_t \<Rightarrow> world" where
  "saveProgress w filePath offset totalSize =
     (let (h, w1) = of_open w (getProgressFilePath filePath) False in
      case h of None \<Rightarrow> w1
      | Some k \<Rightarrow> snd (of_write w1 k (progress_text filePath offset totalSize)))"

text \<open>The text read by \<^verbatim>\<open>loadProgress\<close>; a read error looks like an empty file.\<close>

definition parse_progress :: "string \<Rightarrow> string \<Rightarrow> SyncProgress" where
  "parse_progress filePath text =
     (let (savedPath, r) = extract_word text in
      if savedPath = filePath \<and> savedPath \<noteq> [] then
        (let (offset, good, r2) = extract_int r;
             total = (if good then fst (extract_int r2) else 0)
         in \<lparr>sp_filePath = filePath, sp_offset = offset, sp_totalSize = total\<rparr>)
      else \<lparr>sp_filePath = filePath, sp_offset = 0, sp_totalSize = 0\<rparr>)"

definition loadProgress :: "world \<Rightarrow> string \<Rightarrow> SyncProgress \<times> world" where
  "loadProgress w filePath =
     (case ifs_open w (getProgressFilePath filePath) of
        None \<Rightarrow> (\<lparr>sp_filePath = filePath, sp_offset = 0, sp_totalSize = 0\<rparr>, w)
      | Some d \<Rightarrow>
          (let (e, w1) = next_ev w
           in (parse_progress filePath (if e = Fail then [] else d), w1)))"

section \<open>Numbers survive the round trip\<close>

lemma digit_char_simps [simp]:
  assumes "d < 10"
  shows "is_digit (digit_char d)" "digit_val (digit_char d) = d"
proof -
  have "(of_char (digit_char d) :: nat) = 48 + d" using assms by (simp add: digit_char_def)
  then show "is_digit (digit_char d)" "digit_val (digit_char d) = d"
    using assms by (auto simp: is_digit_def digit_val_def)
qed

lemma dec_value_snoc: "dec_value (s @ [c]) = 10 * dec_value s + digit_val c"
  by (simp add: dec_value_def)

lemma show_nat_props: "show_nat n \<noteq> [] \<and> list_all is_digit (show_nat n) \<and> dec_value (show_nat n) = n"
proof (induction n rule: show_nat.induct)
  case (1 n)
  then show ?case
    by (subst (1 2 3) show_nat.simps) (auto simp: dec_value_snoc dec_value_def [of "[_]"])
qed

lemma is_space_chars: "is_digit c \<Longrightarrow> \<not> is_space c" "\<not> is_space (CHR ''-'')" "is_space (CHR 0x0A)"
  "\<not> is_digit (CHR 0x0A)" "\<not> is_digit (CHR ''-'')" "\<not> is_digit (CHR ''+'')"
  by (auto simp: is_digit_def is_space_def)

lemma extract_int_show:
  assumes "- (2 ^ 63) \<le> i" "i < 2 ^ 63"
  shows "extract_int (CHR 0x0A # show_int i @ CHR 0x0A # r) = (i, True, CHR 0x0A # r)"
proof -
  let ?n = "nat \<bar>i\<bar>"
  obtain c cs where c: "show_nat ?n = c # cs" "is_digit c" using show_nat_props [of ?n]
    by (cases "show_nat ?n") auto
  have tw: "takeWhile is_digit (show_nat ?n @ CHR 0x0A # r) = show_nat ?n"
    "dropWhile is_digit (show_nat ?n @ CHR 0x0A # r) = CHR 0x0A # r"
    using show_nat_props [of ?n] by (auto simp: takeWhile_append dropWhile_append is_space_chars
        list_all_iff takeWhile_eq_all_conv)
  have ne: "c \<noteq> CHR ''-''" "c \<noteq> CHR ''+''" using c(2) is_space_chars by auto
  show ?thesis
  proof (cases "i < 0")
    case True
    then have "show_int i = CHR ''-'' # show_nat ?n" by (simp add: show_int_def)
    with True tw assms show_nat_props [of ?n] show ?thesis
      by (simp add: extract_int_def Let_def skip_ws_def is_space_chars)
  next
    case False
    then have "show_int i = show_nat ?n" by (simp add: show_int_def)
    with False tw assms show_nat_props [of ?n] c ne show ?thesis
      by (simp add: extract_int_def Let_def skip_ws_def is_space_chars)
  qed
qed

section \<open>Saving and loading\<close>

lemma saveProgress_step:
  "fs_step {k. resolve w (getProgressFilePath fp) = Some k} w (saveProgress w fp off tot)
   \<and> is_dir (w_fs (saveProgress w fp off tot)) = is_dir (w_fs w)"
proof -
  obtain h w1 where o: "of_open w (getProgressFilePath fp) False = (h, w1)" by fastforce
  note f = of_open_facts [OF o]
  show ?thesis
  proof (cases h)
    case None
    with o f show ?thesis by (simp add: saveProgress_def)
  next
    case (Some k)
    have "fs_step {k. resolve w (getProgressFilePath fp) = Some k} w1
        (snd (of_write w1 k (progress_text fp off tot)))"
      using f(2,3,4) Some by (intro fs_step_mono [OF of_write_step]) auto
    with o f Some show ?thesis by (auto simp: saveProgress_def intro: fs_step_trans1)
  qed
qed

lemma saveProgress_calm:
  assumes c: "calm 2 w" and r: "resolve w (getProgressFilePath fp) = Some k" "\<not> is_dir (w_fs w) k"
  shows "data_at (saveProgress w fp off tot) k = Some (progress_text fp off tot)
    \<and> w_script (saveProgress w fp off tot) = drop 2 (w_script w)"
proof -
  from c have "calm (Suc 1) w" by (simp add: numeral_2_eq_2)
  from sys_open_w_calm [OF calm_ev1 [OF this] r]
  obtain w1 where o: "of_open w (getProgressFilePath fp) False = (Some k, w1)"
    "w_script w1 = tl (w_script w)"
    by (auto simp: of_open_def)
  have "ev1 w1 = Nominal" using calm_tl [OF \<open>calm (Suc 1) w\<close> o(2)] by (simp add: calm_ev1)
  moreover from of_open_facts(5) [OF o(1) refl] have "data_at w1 k = Some []" by simp
  ultimately show ?thesis using o
    by (simp add: saveProgress_def of_write_calm data_at_set_data drop_Suc numeral_2_eq_2)
qed

lemma saveProgress_slept [simp]: "w_slept (saveProgress w fp off tot) = w_slept w"
proof -
  obtain h w1 where o: "of_open w (getProgressFilePath fp) False = (h, w1)" by fastforce
  then have "w_slept w1 = w_slept w"
    using sys_open_w_slept [of w "getProgressFilePath fp" "0x1B6" True True] by (simp add: of_open_def)
  with o show ?thesis by (simp add: saveProgress_def split: option.splits)
qed

lemma extract_word_plain:
  assumes "list_all (\<lambda>c. \<not> is_space c) s" "s \<noteq> []"
  shows "extract_word (s @ CHR 0x0A # r) = (s, CHR 0x0A # r)"
proof -
  from assms have "\<not> is_space (hd s)" by (cases s) auto
  with assms have "skip_ws (s @ CHR 0x0A # r) = s @ CHR 0x0A # r" by (cases s) (auto simp: skip_ws_def)
  with assms show ?thesis
    by (simp add: extract_word_def Let_def takeWhile_append dropWhile_append is_space_chars list_all_iff
        takeWhile_eq_all_conv)
qed

lemma parse_progress_text:
  assumes "list_all (\<lambda>c. \<not> is_space c) fp" "fp \<noteq> []"
    and "- (2 ^ 63) \<le> off" "off < 2 ^ 63" "- (2 ^ 63) \<le> tot" "tot < 2 ^ 63"
  shows "parse_progress fp (progress_text fp off tot) =
     \<lparr>sp_filePath = fp, sp_offset = off, sp_totalSize = tot\<rparr>"
  using extract_word_plain [OF assms(1,2), of "show_int off @ CHR 0x0A # show_int tot @ [CHR 0x0A]"]
    extract_int_show [OF assms(3,4), of "show_int tot @ [CHR 0x0A]"]
    extract_int_show [OF assms(5,6), of "[]"] assms(2)
  by (simp add: parse_progress_def progress_text_def)

lemma parse_progress_space:
  assumes "c \<in> set fp" "is_space c"
  shows "parse_progress fp text = \<lparr>sp_filePath = fp, sp_offset = 0, sp_totalSize = 0\<rparr>"
proof -
  have "fst (extract_word text) \<noteq> fp"
    using assms by (auto simp: extract_word_def Let_def dest: set_takeWhileD)
  then show ?thesis by (auto simp: parse_progress_def Let_def split: prod.splits)
qed

end
