(* ===== verification/FileTransfer.thy ===== *)
theory FileTransfer
  imports Progress
begin

text \<open>
  Moving the bytes of one file (\<^verbatim>\<open>src/core/FileSync.cpp\<close>): the sequential copy
  \<^verbatim>\<open>transferFile\<close> with its progress file, \<^verbatim>\<open>resumeSync\<close>, conflict handling, clean-up, and the
  \<^verbatim>\<open>pread\<close>/\<^verbatim>\<open>pwrite\<close> loops under a chunk copy.  An \<^verbatim>\<open>ifstream\<close> delivers the bytes its file has once the
  destination is open.
\<close>

section \<open>The synchroniser object\<close>

record FileSync =
  fsy_speedLimit :: nat
  fsy_conflictStrategy :: string
  fsy_threadPool :: bool
  fsy_asyncIOHandler :: bool

text \<open>The two pointers are kept as whether they are set; the methods of \<^verbatim>\<open>FileSync\<close> only test them.\<close>

definition FileSync_new :: FileSync where
  "FileSync_new = \<lparr>fsy_speedLimit = 0, fsy_conflictStrategy = ''overwrite'', fsy_threadPool = False,
     fsy_asyncIOHandler = False\<rparr>"

definition setSpeedLimit :: "FileSync \<Rightarrow> nat \<Rightarrow> FileSync" where
  "setSpeedLimit fs limit = fs\<lparr>fsy_speedLimit := limit\<rparr>"

definition setConflictStrategy :: "FileSync \<Rightarrow> string \<Rightarrow> FileSync" where
  "setConflictStrategy fs strategy = fs\<lparr>fsy_conflictStrategy := strategy\<rparr>"

definition setThreadPool :: "FileSync \<Rightarrow> bool \<Rightarrow> FileSync" where
  "setThreadPool fs pool = fs\<lparr>fsy_threadPool := pool\<rparr>"

definition setAsyncIOHandler :: "FileSync \<Rightarrow> bool \<Rightarrow> FileSync" where
  "setAsyncIOHandler fs handler = fs\<lparr>fsy_asyncIOHandler := handler\<rparr>"

section \<open>Sequential transfer\<close>

text \<open>\<^verbatim>\<open>sleep_for(milliseconds(bufferSize * 1000 / speedLimit))\<close>, when there is a limit.\<close>

definition throttle :: "FileSync \<Rightarrow> world \<Rightarrow> world" where
  "throttle fs w = (if fsy_speedLimit fs > 0 then sleep_ms (4096 * 1000 div fsy_speedLimit fs) w else w)"

function transfer_loop ::
    "FileSync \<Rightarrow> string \<Rightarrow> fpath \<Rightarrow> off_t \<Rightarrow> world \<Rightarrow> ifstream \<Rightarrow> off_t \<Rightarrow> bool \<times> world" where
  "transfer_loop fs destPath destFile totalSize w srcFile transferred =
     (let (buffer, srcFile1, w1) = ifs_read w srcFile 4096 in
      if is_good srcFile1 then
        (let (good, w2) = of_write w1 destFile buffer in
         if \<not> good then (False, saveProgress w2 destPath transferred totalSize)
         else
           (let transferred1 = transferred + int (length buffer);
                w3 = saveProgress w2 destPath transferred1 totalSize
            in transfer_loop fs destPath destFile totalSize (throttle fs w3) srcFile1 transferred1))
      else
        (let w2 = (if length buffer > 0 then snd (of_write w1 destFile buffer) else w1)
         in (True, snd (sys_remove w2 (getProgressFilePath destPath)))))"
  by pat_completeness auto
termination
  by (relation "measure (\<lambda>(fs, destPath, destFile, totalSize, w, srcFile, transferred).
        length (is_rest srcFile))")
     (auto simp: ifs_read_def next_ev_eq Let_def split: if_splits)

declare transfer_loop.simps [simp del]

definition transferFile :: "FileSync \<Rightarrow> world \<Rightarrow> string \<Rightarrow> string \<Rightarrow> off_t \<Rightarrow> bool \<times> world" where
  "transferFile fs w srcPath destPath offset =
     (let srcOpened = ifs_open w srcPath;
          (destFile, w1) = of_open w destPath (offset > 0)
      in case (srcOpened, destFile) of
           (Some _, Some k) \<Rightarrow>
             (let bytes = (case ifs_open w1 srcPath of None \<Rightarrow> [] | Some d \<Rightarrow> d);
                  totalSize = int (length bytes)
              in transfer_loop fs destPath k totalSize w1
                   \<lparr>is_rest = drop (nat offset) bytes, is_good = True\<rparr> offset)
         | _ \<Rightarrow> (False, w1))"

definition resumeSync :: "FileSync \<Rightarrow> world \<Rightarrow> string \<Rightarrow> string \<Rightarrow> bool \<times> world" where
  "resumeSync fs w srcPath destPath =
     (let (progress, w1) = loadProgress w destPath in
      if sp_offset progress > 0 \<and> sp_totalSize progress > 0
      then transferFile fs w1 srcPath destPath (sp_offset progress)
      else (False, w1))"

section \<open>Conflicts, clean-up, disk space\<close>

definition handleConflict :: "FileSync \<Rightarrow> world \<Rightarrow> string \<Rightarrow> string \<Rightarrow> bool \<times> world" where
  "handleConflict fs w srcPath destPath =
     (if fsy_conflictStrategy fs = ''overwrite'' then (True, w)
      else if fsy_conflictStrategy fs = ''skip'' then (False, w)
      else if fsy_conflictStrategy fs = ''rename'' then
        (let newPath = destPath @ ''.bak'';
             (ok, w1) = sys_rename w destPath newPath
         in if \<not> ok then (False, w1) else (True, w1))
      else (True, w))"

definition cleanupCorruptedFile :: "world \<Rightarrow> string \<Rightarrow> world" where
  "cleanupCorruptedFile w destPath =
     (let w1 = (if fileExists w destPath then snd (sys_remove w destPath) else w);
          progressPath = getProgressFilePath destPath
      in if fileExists w1 progressPath then snd (sys_remove w1 progressPath) else w1)"

definition FileSync_checkDiskSpace :: "world \<Rightarrow> string \<Rightarrow> off_t \<Rightarrow> bool" where
  "FileSync_checkDiskSpace w destPath requiredSize =
     (let dirPath = (case find_last_of (CHR ''/'') destPath of
                       Some lastSlash \<Rightarrow> take lastSlash destPath | None \<Rightarrow> ''.'')
      in case sys_statvfs w dirPath of None \<Rightarrow> False
         | Some (f_bavail, f_bsize, f_frsize) \<Rightarrow>
             \<not> (mul_to_off_t f_bavail f_bsize < requiredSize))"

section \<open>Positioned reads and writes\<close>

text \<open>The result is the bytes read (\<^verbatim>\<open>totalRead\<close> of them), or \<^term>\<open>None\<close> for -1.\<close>

function robustPread :: "fpath \<Rightarrow> world \<Rightarrow> nat \<Rightarrow> nat \<Rightarrow> byte list \<Rightarrow> byte list option \<times> world" where
  "robustPread fd w count offset done =
     (if length done < count then
        (case sys_pread w fd (count - length done) (offset + length done) of
           (RData bs, w1) \<Rightarrow> if bs = [] then (Some done, w1)
                             else robustPread fd w1 count offset (done @ bs)
         | (RIntr, w1) \<Rightarrow> robustPread fd w1 count offset done
         | (RErr, w1) \<Rightarrow> (None, w1))
      else (Some done, w))"
  by pat_completeness auto
termination
  by (relation "measure (\<lambda>(fd, w, count, offset, done). length (w_script w) + (count - length done))")
     (auto simp: sys_pread_def next_ev_def Let_def split: list.splits ev.splits if_splits option.splits)

function robustPwrite :: "fpath \<Rightarrow> world \<Rightarrow> byte list \<Rightarrow> nat \<Rightarrow> nat \<Rightarrow> nat option \<times> world" where
  "robustPwrite fd w buf offset totalWritten =
     (if totalWritten < length buf then
        (case sys_pwrite w fd (drop totalWritten buf) (offset + totalWritten) of
           (WRet n, w1) \<Rightarrow> if n = 0 then (Some totalWritten, w1)
                           else robustPwrite fd w1 buf offset (totalWritten + n)
         | (WIntr, w1) \<Rightarrow> robustPwrite fd w1 buf offset totalWritten
         | (WErr, w1) \<Rightarrow> (None, w1))
      else (Some totalWritten, w))"
  by pat_completeness auto
termination
  by (relation "measure (\<lambda>(fd, w, buf, offset, n). length (w_script w) + (length buf - n))")
     (auto simp: sys_pwrite_def next_ev_def Let_def split: list.splits ev.splits if_splits)

declare robustPread.simps [simp del] robustPwrite.simps [simp del]

definition transferChunk :: "fpath \<Rightarrow> fpath \<Rightarrow> world \<Rightarrow> nat \<Rightarrow> nat \<Rightarrow> nat \<Rightarrow> bool \<times> world" where
  "transferChunk srcFd destFd w chunkOffset chunkSize bufferSize =
     (if bufferSize < chunkSize then (False, w)
      else case robustPread srcFd w chunkSize chunkOffset [] of
        (None, w1) \<Rightarrow> (False, w1)
      | (Some buffer, w1) \<Rightarrow>
          if length buffer \<noteq> chunkSize then (False, w1)
          else (case robustPwrite destFd w1 buffer chunkOffset 0 of
                  (None, w2) \<Rightarrow> (False, w2)
                | (Some bytesWritten, w2) \<Rightarrow> (bytesWritten = chunkSize, w2)))"

section \<open>Where the progress file is\<close>

definition progress_key :: "fpath \<Rightarrow> fpath" where
  "progress_key k = butlast k @ [last k @ ''.sync_progress'']"

lemma progress_key_neq [simp]: "k \<noteq> [] \<Longrightarrow> progress_key k \<noteq> k" "k \<noteq> [] \<Longrightarrow> k \<noteq> progress_key k"
proof -
  have "progress_key k \<noteq> k" if "k \<noteq> []"
  proof
    assume "progress_key k = k"
    then have "last (progress_key k) = last k" by simp
    then show False by (simp add: progress_key_def)
  qed
  then show "k \<noteq> [] \<Longrightarrow> progress_key k \<noteq> k" "k \<noteq> [] \<Longrightarrow> k \<noteq> progress_key k" by metis+
qed

lemma progress_key_ne [simp]: "progress_key k \<noteq> []"
  by (simp add: progress_key_def)

lemma resolve_progress:
  assumes "world_wf w" "resolve w destPath = Some k" "\<not> is_dir (w_fs w) k" "CHR 0x00 \<notin> set destPath"
  shows "k \<noteq> []" "resolve w (getProgressFilePath destPath) = Some (progress_key k)"
  using resolve_suffix [OF assms, of "''.sync_progress''"]
  by (simp_all add: getProgressFilePath_def progress_key_def)

section \<open>Footprint of a transfer\<close>

text \<open>Whatever the kernel does, a transfer changes nothing but the destination and its progress file.\<close>

lemma throttle_step [simp, intro]: "fs_step K w (throttle fs w)"
  by (simp add: throttle_def)

lemma throttle_simps [simp]:
  "w_fs (throttle fs w) = w_fs w" "w_script (throttle fs w) = w_script w"
  "data_at (throttle fs w) k = data_at w k"
  by (simp_all add: throttle_def sleep_ms_def data_at_def)

lemma cwd_not_file:
  "world_wf w \<Longrightarrow> (\<And>k. resolve w p = Some k \<Longrightarrow> \<not> is_dir (w_fs w) k) \<Longrightarrow> w_cwd w \<notin> {k. resolve w p = Some k}"
  by (auto simp: world_wf_def)

lemma sys_remove_file_step:
  assumes "world_wf w" "resolve w p = Some k" "\<not> is_dir (w_fs w) k"
  shows "fs_step {k} w (snd (sys_remove w p)) \<and> is_dir (w_fs (snd (sys_remove w p))) = is_dir (w_fs w)"
  using sys_remove_step [OF cwd_not_file [OF assms(1)], of p] is_dir_sys_remove [of w p] assms(2,3)
  by (auto intro: fs_step_mono)

lemma saveProgress_file_step:
  assumes "resolve w (getProgressFilePath fp) = Some k"
  shows "fs_step {k} w (saveProgress w fp off tot)
    \<and> is_dir (w_fs (saveProgress w fp off tot)) = is_dir (w_fs w)"
  using saveProgress_step [of w fp off tot] assms by (auto intro: fs_step_mono)

text \<open>\<open>file_step K w w'\<close> is a step in which no directory comes or goes.\<close>

definition file_step :: "fpath set \<Rightarrow> world \<Rightarrow> world \<Rightarrow> bool" where
  "file_step K w w' \<longleftrightarrow> world_wf w \<longrightarrow> fs_step K w w' \<and> is_dir (w_fs w') = is_dir (w_fs w)"

lemma file_step_trans:
  "file_step K w w1 \<Longrightarrow> file_step K w1 w2 \<Longrightarrow> file_step K w w2"
  unfolding file_step_def by (metis fs_stepD(1) fs_step_trans1)

lemma file_step_mono: "file_step K w w' \<Longrightarrow> K \<subseteq> L \<Longrightarrow> file_step L w w'"
  by (auto simp: file_step_def intro: fs_step_mono)

lemma file_stepD:
  assumes "file_step K w w'" "world_wf w"
  shows "world_wf w'" "is_dir (w_fs w') = is_dir (w_fs w)" "resolve w' p = resolve w p"
    "env_of w' = env_of w" "net_of w' = net_of w" "k \<notin> K \<Longrightarrow> content w' k = content w k"
  using assms fs_step_resolve by (auto simp: file_step_def dest: fs_stepD)

lemma file_step_simple [simp, intro]:
  "file_step K w w" "file_step K w (w\<lparr>w_script := s\<rparr>)" "file_step K w (throttle fs w)"
  "file_step K w (sleep_ms n w)"
  by (simp_all add: file_step_def) (simp add: sleep_ms_def)

lemma file_step_of_write: "\<not> is_dir (w_fs w) k \<Longrightarrow> file_step {k} w (snd (of_write w k bs))"
  by (simp add: file_step_def of_write_step)

lemma file_step_of_open: "file_step {k. resolve w p = Some k} w (snd (of_open w p app))"
  using of_open_facts(1,2) [of w p app] by (cases "of_open w p app") (auto simp: file_step_def)

lemma file_step_save:
  "resolve w (getProgressFilePath fp) = Some k \<Longrightarrow> file_step {k} w (saveProgress w fp off tot)"
  by (simp add: file_step_def saveProgress_file_step)

lemma file_step_remove:
  "resolve w p = Some k \<Longrightarrow> \<not> is_dir (w_fs w) k \<Longrightarrow> file_step {k} w (snd (sys_remove w p))"
  by (simp add: file_step_def sys_remove_file_step)

lemma ifs_read_file_step: "file_step K w (snd (snd (ifs_read w s n)))"
  by (simp add: ifs_read_def next_ev_eq Let_def)

lemma transfer_loop_step:
  assumes "world_wf w" "resolve w (getProgressFilePath dest) = Some pk" "\<not> is_dir (w_fs w) pk" "\<not> is_dir (w_fs w) dk"
  shows "file_step {dk, pk} w (snd (transfer_loop fs dest dk tot w s tr))"
  using assms
proof (induction fs dest dk tot w s tr rule: transfer_loop.induct)
  case (1 fs dest dk tot w s tr)
  obtain buffer s1 w1 where r: "ifs_read w s 4096 = (buffer, s1, w1)" by (metis prod_cases3)
  obtain good w2 where o: "of_write w1 dk buffer = (good, w2)" by fastforce
  have f1: "file_step {dk, pk} w w1" using ifs_read_file_step [of _ w s 4096] r by simp
  note d1 = file_stepD [OF f1 "1.prems"(1)]
  have f2: "file_step {dk, pk} w w2"
    using file_step_of_write [of w1 dk buffer] o d1(2) "1.prems"(4) file_step_trans [OF f1]
    by (auto intro: file_step_mono)
  note d2 = file_stepD [OF f2 "1.prems"(1)]
  have f3: "file_step {dk, pk} w (throttle fs (saveProgress w2 dest t tot))"
    "file_step {dk, pk} w (saveProgress w2 dest t tot)" for t
    using file_step_save [of w2 dest pk t tot] d2(3) "1.prems"(2)
    by (auto intro!: file_step_trans [OF f2] intro: file_step_trans [OF file_step_mono] file_step_mono)
  have rem: "file_step {dk, pk} w (snd (sys_remove v (getProgressFilePath dest)))"
    if v: "file_step {dk, pk} w v" for v
    using file_step_remove [of v "getProgressFilePath dest" pk] file_stepD [OF v "1.prems"(1)] "1.prems"(2,3)
    by (auto intro!: file_step_trans [OF v] intro: file_step_mono)
  show ?case
  proof (cases "is_good s1")
    case False
    with r o rem f1 f2 show ?thesis by (simp add: transfer_loop.simps [of fs dest dk tot w])
  next
    case True
    let ?w4 = "\<lambda>t. throttle fs (saveProgress w2 dest t tot)"
    note d4 = file_stepD [OF f3(1) "1.prems"(1)]
    have "file_step {dk, pk} (?w4 t) (snd (transfer_loop fs dest dk tot (?w4 t) s1 t))"
      if "good" "t = tr + int (length buffer)" for t
      using that d4 "1.prems" by (intro "1.IH" [OF r [symmetric] refl refl True o [symmetric] refl]) auto
    then show ?thesis using r o True f3
      by (auto simp: transfer_loop.simps [of fs dest dk tot w] Let_def intro: file_step_trans)
  qed
qed

section \<open>One block of a transfer\<close>

lemma data_at_frame:
  "file_step K w w' \<Longrightarrow> world_wf w \<Longrightarrow> k \<notin> K \<Longrightarrow> data_at w' k = data_at w k"
  by (simp add: data_at_content file_stepD(6))

lemma calm_Suc: "calm (Suc n) w \<Longrightarrow> ev1 w = Nominal \<and> calm n (w\<lparr>w_script := tl (w_script w)\<rparr>)"
  by (auto intro: calm_ev1 calm_tl)

lemma transfer_loop_write:
  assumes nd: "\<not> is_dir (w_fs w) dk" and calm: "calm 2 w" and s: "is_good s" "4096 \<le> length (is_rest s)"
    and a: "data_at w dk = Some a"
  obtains w2 where
    "transfer_loop fs dest dk tot w s tr =
       transfer_loop fs dest dk tot (throttle fs (saveProgress w2 dest (tr + 4096) tot))
         \<lparr>is_rest = drop 4096 (is_rest s), is_good = True\<rparr> (tr + 4096)"
    "file_step {dk} w w2" "w_script w2 = drop 2 (w_script w)"
    "data_at w2 dk = Some (a @ take 4096 (is_rest s))" "w_slept w2 = w_slept w"
proof -
  define w1 where "w1 = w\<lparr>w_script := tl (w_script w)\<rparr>"
  define w2 where "w2 = snd (of_write w1 dk (take 4096 (is_rest s)))"
  have c1: "ev1 w = Nominal" "ev1 w1 = Nominal"
    using calm by (auto simp: numeral_2_eq_2 w1_def dest: calm_Suc)
  have w2: "of_write w1 dk b = (True, set_data dk (\<lambda>d. d @ b) (w1\<lparr>w_script := tl (w_script w1)\<rparr>))" for b
    using c1(2) by (rule of_write_calm)
  have "transfer_loop fs dest dk tot w s tr =
       transfer_loop fs dest dk tot (throttle fs (saveProgress w2 dest (tr + 4096) tot))
         \<lparr>is_rest = drop 4096 (is_rest s), is_good = True\<rparr> (tr + 4096)"
    using s c1 w2_def w2
    by (subst transfer_loop.simps) (simp add: ifs_read_calm w1_def [symmetric] Let_def)
  moreover have "file_step {dk} w w2"
  proof (rule file_step_trans)
    show "file_step {dk} w w1" by (simp add: w1_def)
    show "file_step {dk} w1 w2" unfolding w2_def using nd by (auto simp: w1_def intro: file_step_of_write)
  qed
  moreover have "w_script w2 = drop 2 (w_script w)"
    unfolding w2_def w2 by (simp add: w1_def drop_Suc numeral_2_eq_2)
  moreover have "data_at w2 dk = Some (a @ take 4096 (is_rest s))"
    unfolding w2_def w2 using a by (simp add: w1_def data_at_set_data)
  moreover have "w_slept w2 = w_slept w" by (simp add: w2_def w1_def)
  ultimately show ?thesis using that [of w2] by simp
qed

lemma file_step_throttle_save:
  assumes "file_step {dk} w w2" "world_wf w" "resolve w (getProgressFilePath dest) = Some pk" "pk \<noteq> dk"
  shows "file_step {dk, pk} w (throttle fs (saveProgress w2 dest t tot))"
    "data_at (throttle fs (saveProgress w2 dest t tot)) dk = data_at w2 dk"
proof -
  note d = file_stepD [OF assms(1,2)]
  have f: "file_step {pk} w2 (saveProgress w2 dest t tot)" using d(3) assms(3) by (auto intro: file_step_save)
  then show "data_at (throttle fs (saveProgress w2 dest t tot)) dk = data_at w2 dk"
    using data_at_frame [OF f d(1), of dk] assms(4) by auto
  have "file_step {dk, pk} w (saveProgress w2 dest t tot)"
    using f assms(1) by (auto intro: file_step_trans file_step_mono)
  then show "file_step {dk, pk} w (throttle fs (saveProgress w2 dest t tot))"
    by (rule file_step_trans) simp
qed

lemma transfer_loop_block:
  assumes wf: "world_wf w" and pk: "resolve w (getProgressFilePath dest) = Some pk" "pk \<noteq> dk"
    and nd: "\<not> is_dir (w_fs w) pk" "\<not> is_dir (w_fs w) dk"
    and calm: "calm 4 w" and s: "is_good s" "4096 \<le> length (is_rest s)"
    and a: "data_at w dk = Some a"
  obtains w' where
    "transfer_loop fs dest dk tot w s tr =
       transfer_loop fs dest dk tot w' \<lparr>is_rest = drop 4096 (is_rest s), is_good = True\<rparr> (tr + 4096)"
    "file_step {dk, pk} w w'" "w_script w' = drop 4 (w_script w)"
    "data_at w' dk = Some (a @ take 4096 (is_rest s))"
    "data_at w' pk = Some (progress_text dest (tr + 4096) tot)"
    "w_slept w' = w_slept (throttle fs w)"
proof -
  have "calm 2 w" using calm by (rule calm_mono) simp
  from transfer_loop_write [OF nd(2) this s a, of fs dest tot tr]
  obtain w2 where w2: "transfer_loop fs dest dk tot w s tr =
       transfer_loop fs dest dk tot (throttle fs (saveProgress w2 dest (tr + 4096) tot))
         \<lparr>is_rest = drop 4096 (is_rest s), is_good = True\<rparr> (tr + 4096)"
    "file_step {dk} w w2" "w_script w2 = drop 2 (w_script w)"
    "data_at w2 dk = Some (a @ take 4096 (is_rest s))" "w_slept w2 = w_slept w" by metis
  note d2 = file_stepD [OF w2(2) wf]
  have "calm 2 w2"
    using calm w2(3) by (auto simp: calm_def list_all_iff take_drop in_set_dropD dest!: in_set_dropD)
  from saveProgress_calm [OF this]
  have "data_at (saveProgress w2 dest (tr + 4096) tot) pk = Some (progress_text dest (tr + 4096) tot)"
    "w_script (saveProgress w2 dest (tr + 4096) tot) = drop 4 (w_script w)"
    using pk nd d2 w2(3) by auto
  moreover have "w_slept (throttle fs (saveProgress w2 dest (tr + 4096) tot)) = w_slept (throttle fs w)"
    using w2(5) by (simp add: throttle_def sleep_ms_def)
  ultimately show ?thesis
    using that [OF w2(1)] w2(4) file_step_throttle_save [OF w2(2) wf pk] by simp
qed

lemma transfer_loop_last:
  assumes wf: "world_wf w" and pk: "resolve w (getProgressFilePath dest) = Some pk" "pk \<noteq> dk" "pk \<noteq> []"
    and nd: "\<not> is_dir (w_fs w) pk" "\<not> is_dir (w_fs w) dk"
    and script: "w_script w = []" and s: "is_good s" "length (is_rest s) < 4096"
    and a: "data_at w dk = Some a"
  obtains w' where
    "transfer_loop fs dest dk tot w s tr = (True, w')"
    "data_at w' dk = Some (a @ is_rest s)" "content w' pk = None" "w_script w' = []"
    "w_slept w' = w_slept w"
proof -
  let ?w2 = "if is_rest s = [] then w else snd (of_write w dk (is_rest s))"
  let ?w3 = "snd (sys_remove ?w2 (getProgressFilePath dest))"
  have f2: "file_step {dk} w ?w2" using nd by (auto intro: file_step_of_write)
  note d2 = file_stepD [OF f2 wf]
  have w2: "w_script ?w2 = []" "data_at ?w2 dk = Some (a @ is_rest s)"
    using script a by (auto simp: of_write_nominal data_at_set_data)
  have e: "ev1 ?w2 = Nominal" using w2(1) by (simp add: ev1_def)
  have res: "resolve ?w2 (getProgressFilePath dest) = Some pk" "\<not> is_dir (w_fs ?w2) pk"
    using d2 pk nd by simp_all
  have c3: "content ?w3 pk = None" "w_script ?w3 = []"
    using sys_remove_calm [OF e res(1) entries_file [OF world_wf_fs [OF d2(1)] res(2)] pk(3)] w2(1)
    by simp_all
  have "data_at ?w3 dk = data_at ?w2 dk"
    using file_step_remove [OF res] d2(1) pk(2) by (intro data_at_frame) auto
  with w2(2) c3 have fin: "data_at ?w3 dk = Some (a @ is_rest s)" "content ?w3 pk = None" "w_script ?w3 = []"
    by simp_all
  have wid: "w\<lparr>w_script := []\<rparr> = w" using script by (cases w) simp
  have eq: "transfer_loop fs dest dk tot w s tr = (True, ?w3)"
    using s script by (subst transfer_loop.simps) (simp add: ifs_read_calm ev1_def wid)
  show ?thesis using that [OF eq fin] by simp
qed

section \<open>A whole transfer\<close>

definition pause_of :: "FileSync \<Rightarrow> nat" where
  "pause_of fs = (if fsy_speedLimit fs > 0 then 4096 * 1000 div fsy_speedLimit fs else 0)"

lemma throttle_slept: "w_slept (throttle fs w) = w_slept w + pause_of fs"
  by (simp add: throttle_def sleep_ms_def pause_of_def)

lemma transfer_loop_nominal:
  assumes "world_wf w" "resolve w (getProgressFilePath dest) = Some pk" "pk \<noteq> dk" "pk \<noteq> []"
    "\<not> is_dir (w_fs w) pk" "\<not> is_dir (w_fs w) dk" "w_script w = []" "is_good s" "data_at w dk = Some a"
  shows "\<exists>w'. transfer_loop fs dest dk tot w s tr = (True, w') \<and> data_at w' dk = Some (a @ is_rest s)
     \<and> content w' pk = None \<and> w_script w' = []
     \<and> w_slept w' = w_slept w + length (is_rest s) div 4096 * pause_of fs"
  using assms
proof (induction "length (is_rest s)" arbitrary: w s tr a rule: less_induct)
  case less
  show ?case
  proof (cases "length (is_rest s) < 4096")
    case True
    obtain w' where "transfer_loop fs dest dk tot w s tr = (True, w')"
      "data_at w' dk = Some (a @ is_rest s)" "content w' pk = None" "w_script w' = []" "w_slept w' = w_slept w"
      using transfer_loop_last [OF less.prems(1-8) True less.prems(9), of fs tot tr] by metis
    with True show ?thesis by simp
  next
    case False
    then have long: "4096 \<le> length (is_rest s)" by simp
    let ?s = "\<lparr>is_rest = drop 4096 (is_rest s), is_good = True\<rparr>"
    have c: "calm 4 w" using less.prems by simp
    obtain w1 where w1: "transfer_loop fs dest dk tot w s tr = transfer_loop fs dest dk tot w1 ?s (tr + 4096)"
      "file_step {dk, pk} w w1" "w_script w1 = drop 4 (w_script w)"
      "data_at w1 dk = Some (a @ take 4096 (is_rest s))" "w_slept w1 = w_slept (throttle fs w)"
      using transfer_loop_block [OF less.prems(1-3,5,6) c less.prems(8) long less.prems(9), of fs tot tr]
      by metis
    note d1 = file_stepD [OF w1(2) less.prems(1)]
    have "\<exists>w'. transfer_loop fs dest dk tot w1 ?s (tr + 4096) = (True, w')
        \<and> data_at w' dk = Some ((a @ take 4096 (is_rest s)) @ is_rest ?s) \<and> content w' pk = None
        \<and> w_script w' = [] \<and> w_slept w' = w_slept w1 + length (is_rest ?s) div 4096 * pause_of fs"
      using less.prems long w1 d1 by (intro less.hyps) auto
    moreover have "length (is_rest s) div 4096 = Suc (length (is_rest ?s) div 4096)"
      using long by (simp add: le_div_geq)
    ultimately show ?thesis using w1 by (auto simp: throttle_slept)
  qed
qed

lemma ifs_open_frame:
  assumes "file_step K w w'" "world_wf w" "\<And>k. resolve w p = Some k \<Longrightarrow> k \<notin> K"
  shows "ifs_open w' p = ifs_open w p"
  using file_stepD [OF assms(1,2)] assms(3)
  by (auto simp: ifs_open_def data_at_content env_of_def split: option.splits)

text \<open>What a caller must know of the paths: source readable and not the destination, destination a
  plain file or free, no directory in the way of the progress file.\<close>

definition transfer_ready :: "world \<Rightarrow> string \<Rightarrow> string \<Rightarrow> fpath \<Rightarrow> byte list \<Rightarrow> bool" where
  "transfer_ready w src dest k d \<longleftrightarrow>
     world_wf w \<and> ifs_open w src = Some d \<and> resolve w src \<noteq> Some k \<and>
     resolve w dest = Some k \<and> CHR 0x00 \<notin> set dest \<and>
     \<not> is_dir (w_fs w) k \<and> \<not> is_dir (w_fs w) (progress_key k)"

lemma transfer_readyD:
  assumes "transfer_ready w src dest k d"
  shows "world_wf w" "ifs_open w src = Some d" "resolve w src \<noteq> Some k" "resolve w dest = Some k"
    "CHR 0x00 \<notin> set dest" "\<not> is_dir (w_fs w) k" "\<not> is_dir (w_fs w) (progress_key k)"
    "k \<noteq> []" "resolve w (getProgressFilePath dest) = Some (progress_key k)"
  using assms resolve_progress [of w dest k] by (auto simp: transfer_ready_def)

definition old_bytes :: "world \<Rightarrow> fpath \<Rightarrow> byte list" where
  "old_bytes w k = (case data_at w k of None \<Rightarrow> [] | Some d \<Rightarrow> d)"

lemma transferFile_start:
  assumes r: "transfer_ready w src dest k d" and o: "of_open w dest (off > 0) = (h, w1)"
  shows "h = None \<or> h = Some k" "file_step {k} w w1"
    "h = None \<Longrightarrow> transferFile fs w src dest off = (False, w1)"
    "h = Some k \<Longrightarrow> transferFile fs w src dest off = transfer_loop fs dest k (int (length d)) w1
       \<lparr>is_rest = drop (nat off) d, is_good = True\<rparr> off"
    "h = Some k \<Longrightarrow> data_at w1 k = Some (if off > 0 then old_bytes w k else [])"
proof -
  note t = transfer_readyD [OF r]
  show h: "h = None \<or> h = Some k" using of_open_facts(3) [OF o] t(4) by (cases h) auto
  show f: "file_step {k} w w1"
    using file_step_of_open [of w dest "off > 0"] o t(4) by (auto intro: file_step_mono)
  show "h = None \<Longrightarrow> transferFile fs w src dest off = (False, w1)"
    using o t(2) by (simp add: transferFile_def)
  have "ifs_open w1 src = Some d" using ifs_open_frame [OF f t(1), of src] t(2,3) by fastforce
  with o t(2) show "h = Some k \<Longrightarrow> transferFile fs w src dest off = transfer_loop fs dest k (int (length d)) w1
       \<lparr>is_rest = drop (nat off) d, is_good = True\<rparr> off"
    by (simp add: transferFile_def)
  show "h = Some k \<Longrightarrow> data_at w1 k = Some (if off > 0 then old_bytes w k else [])"
    using of_open_facts(5) [OF o, of k] by (simp add: old_bytes_def split: option.splits)
qed

lemma transferFile_step:
  assumes r: "transfer_ready w src dest k d"
  shows "file_step {k, progress_key k} w (snd (transferFile fs w src dest off))"
proof -
  obtain h w1 where o: "of_open w dest (off > 0) = (h, w1)" by fastforce
  note st = transferFile_start [OF r o]
  note t = transfer_readyD [OF r]
  note d1 = file_stepD [OF st(2) t(1)]
  have f1: "file_step {k, progress_key k} w w1" using st(2) by (auto intro: file_step_mono)
  show ?thesis
  proof (cases h)
    case None
    with st(3) f1 show ?thesis by simp
  next
    case (Some k')
    with st(1) have "h = Some k" by simp
    then show ?thesis
      using st(4) d1 t by (auto intro!: file_step_trans [OF f1] transfer_loop_step)
  qed
qed

lemma transferFile_nominal:
  assumes r: "transfer_ready w src dest k d" and script: "w_script w = []"
  shows "\<exists>w'. transferFile fs w src dest off = (True, w')
     \<and> data_at w' k = Some ((if off > 0 then old_bytes w k else []) @ drop (nat off) d)
     \<and> content w' (progress_key k) = None \<and> w_script w' = []
     \<and> w_slept w' = w_slept w + (length d - nat off) div 4096 * pause_of fs"
proof -
  note t = transfer_readyD [OF r]
  obtain w1 where o: "of_open w dest (off > 0) = (Some k, w1)" "w_script w1 = []"
    using sys_open_w_nominal [OF script t(4,6)] by (auto simp: of_open_def)
  note st = transferFile_start [OF r o(1)]
  note d1 = file_stepD [OF st(2) t(1)]
  have sl: "w_slept w1 = w_slept w"
    using sys_open_w_slept [of w dest "0x1B6" True "\<not> off > 0"] o(1)
    by (auto simp: of_open_def simp del: sys_open_w_slept)
  have "\<exists>w'. transfer_loop fs dest k (int (length d)) w1 \<lparr>is_rest = drop (nat off) d, is_good = True\<rparr> off = (True, w')
     \<and> data_at w' k = Some ((if off > 0 then old_bytes w k else []) @ is_rest \<lparr>is_rest = drop (nat off) d, is_good = True\<rparr>)
     \<and> content w' (progress_key k) = None \<and> w_script w' = []
     \<and> w_slept w' = w_slept w1 + length (is_rest \<lparr>is_rest = drop (nat off) d, is_good = True\<rparr>) div 4096 * pause_of fs"
    using d1 t o st(5) by (intro transfer_loop_nominal) auto
  with st(4) sl show ?thesis by auto
qed

section \<open>A failed transfer can be resumed\<close>

text \<open>One write fault, at any point after the destination was opened.\<close>

lemma saveProgress_script_fault:
  "w_script w = [Fail] \<Longrightarrow> w_script (saveProgress w fp off tot) = []"
  "w_script w = [Nominal, Fail] \<Longrightarrow> resolve w (getProgressFilePath fp) = Some k \<Longrightarrow> \<not> is_dir (w_fs w) k \<Longrightarrow>
     w_script (saveProgress w fp off tot) = []"
proof -
  show "w_script w = [Fail] \<Longrightarrow> w_script (saveProgress w fp off tot) = []"
    by (simp add: saveProgress_def of_open_def sys_open_w_def next_ev_def)
  assume s: "w_script w = [Nominal, Fail]"
    and r: "resolve w (getProgressFilePath fp) = Some k" "\<not> is_dir (w_fs w) k"
  from s have "ev1 w = Nominal" by (simp add: ev1_def)
  from sys_open_w_calm [OF this r] obtain w1
    where "of_open w (getProgressFilePath fp) False = (Some k, w1)" "w_script w1 = [Fail]"
    using s by (auto simp: of_open_def)
  then show "w_script (saveProgress w fp off tot) = []"
    by (simp add: saveProgress_def of_write_def next_ev_def)
qed

lemma transfer_loop_read_fault:
  "ev1 w = Fail \<Longrightarrow> is_good s \<Longrightarrow> fst (transfer_loop fs dest dk tot w s tr)"
  by (subst transfer_loop.simps) (simp add: ifs_read_def next_ev_eq)

lemma transfer_loop_short_ok:
  "length (is_rest s) < 4096 \<Longrightarrow> fst (transfer_loop fs dest dk tot w s tr)"
  by (subst transfer_loop.simps) (auto simp: ifs_read_def next_ev_eq Let_def)

lemma transfer_loop_write_fault:
  assumes wf: "world_wf w" and pk: "resolve w (getProgressFilePath dest) = Some pk"
    and nd: "\<not> is_dir (w_fs w) pk" and sc: "w_script w = [Nominal, Fail]"
    and s: "is_good s" "4096 \<le> length (is_rest s)" and ne: "pk \<noteq> dk"
  shows "\<exists>w'. transfer_loop fs dest dk tot w s tr = (False, w') \<and> data_at w' dk = data_at w dk
      \<and> data_at w' pk = Some (progress_text dest tr tot) \<and> w_script w' = []"
proof -
  let ?w2 = "w\<lparr>w_script := []\<rparr>"
  have "transfer_loop fs dest dk tot w s tr = (False, saveProgress ?w2 dest tr tot)"
    using s sc by (subst transfer_loop.simps) (simp add: ifs_read_calm ev1_def of_write_def next_ev_def)
  moreover have "data_at (saveProgress ?w2 dest tr tot) pk = Some (progress_text dest tr tot)
      \<and> w_script (saveProgress ?w2 dest tr tot) = []"
    using saveProgress_calm [of ?w2 dest pk tr tot] pk nd by simp
  moreover have "data_at (saveProgress ?w2 dest tr tot) dk = data_at ?w2 dk"
    using wf pk ne by (intro data_at_frame [OF file_step_save]) auto
  ultimately show ?thesis by simp
qed

lemma transfer_loop_single_fault:
  assumes "world_wf w" "resolve w (getProgressFilePath dest) = Some pk" "pk \<noteq> dk" "pk \<noteq> []"
    "\<not> is_dir (w_fs w) pk" "\<not> is_dir (w_fs w) dk"
    "w_script w = replicate n Nominal @ [Fail]" "is_good s"
    "data_at w dk = Some a" "\<not> fst (transfer_loop fs dest dk tot w s tr)"
  shows "\<exists>m w'. transfer_loop fs dest dk tot w s tr = (False, w') \<and> m \<le> length (is_rest s)
     \<and> data_at w' dk = Some (a @ take m (is_rest s))
     \<and> data_at w' pk = Some (progress_text dest (tr + int m) tot) \<and> w_script w' = []"
  using assms
proof (induction n arbitrary: w s tr a rule: less_induct)
  case (less n)
  have long: "4096 \<le> length (is_rest s)"
    using less.prems(10) transfer_loop_short_ok linorder_not_less by blast
  have n0: "n \<noteq> 0"
  proof
    assume "n = 0"
    then have "ev1 w = Fail" using less.prems(7) by (simp add: ev1_def)
    with transfer_loop_read_fault less.prems(8,10) show False by blast
  qed
  note block = transfer_loop_write [OF less.prems(6) _ less.prems(8) long less.prems(9), of fs dest tot tr]
  consider "n = 1" | "n = 2 \<or> n = 3" | "4 \<le> n" using n0 by linarith
  then show ?case
  proof cases
    case 1
    with transfer_loop_write_fault [OF less.prems(1,2,5) _ less.prems(8) long less.prems(3), of fs tot tr]
      less.prems(7,9)
    show ?thesis by (intro exI [of _ 0]) auto
  next
    case 2
    have "calm 2 w" using 2 less.prems(7) by (auto simp: calm_def eval_nat_numeral)
    from block [OF this] obtain w2 where w2: "transfer_loop fs dest dk tot w s tr =
       transfer_loop fs dest dk tot (throttle fs (saveProgress w2 dest (tr + 4096) tot))
         \<lparr>is_rest = drop 4096 (is_rest s), is_good = True\<rparr> (tr + 4096)"
      "file_step {dk} w w2" "w_script w2 = drop 2 (w_script w)"
      "data_at w2 dk = Some (a @ take 4096 (is_rest s))" by metis
    note d2 = file_stepD [OF w2(2) less.prems(1)]
    let ?w3 = "throttle fs (saveProgress w2 dest (tr + 4096) tot)"
    note f3 = file_step_throttle_save [OF w2(2) less.prems(1-3), of fs "tr + 4096" tot]
    note d3 = file_stepD [OF f3(1) less.prems(1)]
    have "w_script w2 = [Fail] \<or> w_script w2 = [Nominal, Fail]"
      using 2 w2(3) less.prems(7) by (auto simp: eval_nat_numeral)
    then have "w_script ?w3 = []" using saveProgress_script_fault d2 less.prems(2,5) by auto
    then have "\<exists>w'. transfer_loop fs dest dk tot ?w3 \<lparr>is_rest = drop 4096 (is_rest s), is_good = True\<rparr> (tr + 4096) = (True, w')"
      using transfer_loop_nominal [of ?w3 dest pk dk "\<lparr>is_rest = drop 4096 (is_rest s), is_good = True\<rparr>" _ fs tot "tr + 4096"]
        d3(1-3) f3(2) w2(4) less.prems(2-6) by auto
    with w2(1) less.prems(10) show ?thesis by auto
  next
    case 3
    have c: "calm 4 w" using 3 less.prems(7) by (auto simp: calm_def list_all_iff)
    let ?s = "\<lparr>is_rest = drop 4096 (is_rest s), is_good = True\<rparr>"
    obtain w1 where w1: "transfer_loop fs dest dk tot w s tr = transfer_loop fs dest dk tot w1 ?s (tr + 4096)"
      "file_step {dk, pk} w w1" "w_script w1 = drop 4 (w_script w)"
      "data_at w1 dk = Some (a @ take 4096 (is_rest s))"
      using transfer_loop_block [OF less.prems(1-3,5,6) c less.prems(8) long less.prems(9), of fs tot tr]
      by metis
    note d1 = file_stepD [OF w1(2) less.prems(1)]
    have "\<exists>m w'. transfer_loop fs dest dk tot w1 ?s (tr + 4096) = (False, w') \<and> m \<le> length (is_rest ?s)
     \<and> data_at w' dk = Some ((a @ take 4096 (is_rest s)) @ take m (is_rest ?s))
     \<and> data_at w' pk = Some (progress_text dest (tr + 4096 + int m) tot) \<and> w_script w' = []"
      using 3 less.prems w1 d1 by (intro less.IH [of "n - 4"]) (auto simp: drop_replicate)
    then obtain m w' where m: "transfer_loop fs dest dk tot w s tr = (False, w')" "m \<le> length (is_rest s) - 4096"
      "data_at w' dk = Some (a @ take (4096 + m) (is_rest s))"
      "data_at w' pk = Some (progress_text dest (tr + int (4096 + m)) tot)" "w_script w' = []"
      using w1(1) by (auto simp: take_add add.assoc)
    then show ?thesis using long by (intro exI [of _ "4096 + m"] exI [of _ w']) auto
  qed
qed

lemma transferFile_single_fault:
  assumes r: "transfer_ready w src dest k d" and sc: "w_script w = Nominal # replicate n Nominal @ [Fail]"
    and f: "transferFile fs w src dest 0 = (False, w1)"
  shows "\<exists>m\<le>length d. data_at w1 k = Some (take m d)
     \<and> data_at w1 (progress_key k) = Some (progress_text dest (int m) (int (length d))) \<and> w_script w1 = []"
proof -
  note t = transfer_readyD [OF r]
  have "ev1 w = Nominal" using sc by (simp add: ev1_def)
  from sys_open_w_calm [OF this t(4,6)] sc obtain v
    where o: "of_open w dest (0 > (0::int)) = (Some k, v)" "w_script v = replicate n Nominal @ [Fail]"
    by (auto simp: of_open_def)
  note st = transferFile_start [OF r o(1)]
  note d1 = file_stepD [OF st(2) t(1)]
  let ?s = "\<lparr>is_rest = d, is_good = True\<rparr>"
  have l: "transfer_loop fs dest k (int (length d)) v ?s 0 = (False, w1)" using st(4) f by simp
  have "\<exists>m w'. transfer_loop fs dest k (int (length d)) v ?s 0 = (False, w') \<and> m \<le> length (is_rest ?s)
     \<and> data_at w' k = Some ([] @ take m (is_rest ?s))
     \<and> data_at w' (progress_key k) = Some (progress_text dest (0 + int m) (int (length d))) \<and> w_script w' = []"
    using d1 t o st(5) l by (intro transfer_loop_single_fault [where n = n]) auto
  with l show ?thesis by auto
qed

lemma loadProgress_nominal:
  assumes "w_script w = []" "resolve w (getProgressFilePath fp) = Some k" "\<not> w_unreadable w k"
    "data_at w k = Some (progress_text fp off tot)"
    and "list_all (\<lambda>c. \<not> is_space c) fp" "fp \<noteq> []" "- (2 ^ 63) \<le> off" "off < 2 ^ 63" "- (2 ^ 63) \<le> tot" "tot < 2 ^ 63"
  shows "loadProgress w fp = (\<lparr>sp_filePath = fp, sp_offset = off, sp_totalSize = tot\<rparr>, w)"
  using assms(1-4) parse_progress_text [OF assms(5-)]
  by (simp add: loadProgress_def ifs_open_def next_ev_nominal)

lemma env_unreadable: "env_of w' = env_of w \<Longrightarrow> w_unreadable w' = w_unreadable w"
  by (simp add: env_of_def)

lemma transfer_ready_step:
  assumes r: "transfer_ready w src dest k d" and f: "file_step {k, progress_key k} w w'"
    and n: "resolve w src \<noteq> Some (progress_key k)"
  shows "transfer_ready w' src dest k d"
proof -
  note t = transfer_readyD [OF r]
  have "ifs_open w' src = ifs_open w src" using n t(3) by (intro ifs_open_frame [OF f t(1)]) auto
  with t file_stepD [OF f t(1)] show ?thesis by (simp add: transfer_ready_def)
qed

lemma resume_after_fault:
  assumes r: "transfer_ready w src dest k d" and nsp: "resolve w src \<noteq> Some (progress_key k)"
    and rd: "\<not> w_unreadable w (progress_key k)"
    and dest: "list_all (\<lambda>c. \<not> is_space c) dest" and size: "int (length d) < 2 ^ 63"
    and sc: "w_script w = Nominal # replicate n Nominal @ [Fail]"
    and f: "transferFile fs w src dest 0 = (False, w1)"
  shows "\<exists>m\<le>length d. data_at w1 k = Some (take m d)
     \<and> loadProgress w1 dest = (\<lparr>sp_filePath = dest, sp_offset = int m, sp_totalSize = int (length d)\<rparr>, w1)
     \<and> (0 < m \<longrightarrow> (\<exists>w2. resumeSync fs w1 src dest = (True, w2) \<and> data_at w2 k = Some d
           \<and> content w2 (progress_key k) = None))"
proof -
  note t = transfer_readyD [OF r]
  obtain m where m: "m \<le> length d" "data_at w1 k = Some (take m d)" "w_script w1 = []"
    "data_at w1 (progress_key k) = Some (progress_text dest (int m) (int (length d)))"
    using transferFile_single_fault [OF r sc f] by auto
  have st: "file_step {k, progress_key k} w w1" using transferFile_step [OF r, of fs 0] f by simp
  note d1 = file_stepD [OF st t(1)]
  note big = size
  have "dest \<noteq> []" using t(4) by (auto simp: resolve_def cstr_def)
  moreover have "\<not> w_unreadable w1 (progress_key k)" using rd env_unreadable [OF d1(4)] by simp
  moreover have "int m \<le> int (length d)" using m(1) by simp
  ultimately have lp: "loadProgress w1 dest = (\<lparr>sp_filePath = dest, sp_offset = int m, sp_totalSize = int (length d)\<rparr>, w1)"
    using m(3,4) big dest t(9) d1(3)
    by (intro loadProgress_nominal [where k = "progress_key k"]) simp_all
  have "\<exists>w2. resumeSync fs w1 src dest = (True, w2) \<and> data_at w2 k = Some d
      \<and> content w2 (progress_key k) = None" if "0 < m"
    using transferFile_nominal [OF transfer_ready_step [OF r st nsp] m(3), of fs "int m"] that m lp
    by (auto simp: resumeSync_def old_bytes_def)
  with m lp show ?thesis by auto
qed

lemma cleanup_step:
  assumes wf: "world_wf w" and k: "resolve w dest = Some k" "\<not> is_dir (w_fs w) k"
    and pk: "resolve w (getProgressFilePath dest) = Some pk" "\<not> is_dir (w_fs w) pk"
  shows "file_step {k, pk} w (cleanupCorruptedFile w dest)"
proof -
  define w1 where "w1 = (if fileExists w dest then snd (sys_remove w dest) else w)"
  have f1: "file_step {k, pk} w w1"
    unfolding w1_def using file_step_remove [OF k] by (auto intro: file_step_mono)
  note d1 = file_stepD [OF f1 wf]
  have "file_step {pk} w1 (snd (sys_remove w1 (getProgressFilePath dest)))"
    using d1 pk by (intro file_step_remove) auto
  then show ?thesis
    unfolding cleanupCorruptedFile_def Let_def w1_def [symmetric]
    using f1 by (auto intro: file_step_trans file_step_mono)
qed

end
