(* ===== verification/ParallelCopy.thy ===== *)
theory ParallelCopy
  imports FileTransfer
begin

text \<open>
  \<^verbatim>\<open>FileSync::transferLargeFileAsync\<close>: the file is cut into chunks of \<^verbatim>\<open>ASYNC_CHUNK_SIZE\<close>, one
  \<^verbatim>\<open>std::async\<close> thread copies each with \<^verbatim>\<open>transferChunk\<close>, and the caller waits for all of them.
  A thread is a program counter; one step of it is one system call, one atomic operation or one
  \<^verbatim>\<open>saveProgress\<close>.  A schedule is a list of thread numbers; threads that have not ended when it is
  used up run to their end one after the other, so that every interleaving is given by a schedule.
\<close>

section \<open>Threads\<close>

definition ASYNC_CHUNK_SIZE :: int where "ASYNC_CHUNK_SIZE = 4 * 1024 * 1024"

definition LARGE_FILE_THRESHOLD :: int where "LARGE_FILE_THRESHOLD = 10 * 1024 * 1024"

datatype pc =
    PStart
  | PRead "byte list"
  | PWrite "byte list" nat
  | PFail
  | PAdd
  | PSave int
  | PSleep
  | PDone bool

record chunk =
  ch_offset :: nat
  ch_size :: nat
  ch_pc :: pc

record shared =
  sh_world :: world
  sh_transferred :: int
  sh_hasError :: bool

record job =
  jb_fs :: FileSync
  jb_dest :: string
  jb_total :: int
  jb_src :: fpath
  jb_dst :: fpath

text \<open>One step of the lambda passed to \<^verbatim>\<open>std::async\<close>, with \<^verbatim>\<open>transferChunk\<close>, \<^verbatim>\<open>robustPread\<close> and
  \<^verbatim>\<open>robustPwrite\<close> taken apart into their system calls.\<close>

definition chunk_step :: "job \<Rightarrow> chunk \<Rightarrow> shared \<Rightarrow> chunk \<times> shared" where
  "chunk_step j c g =
     (let w = sh_world g; lo = ch_offset c; sz = ch_size c in
      case ch_pc c of
        PStart \<Rightarrow>
          if sh_hasError g then (c\<lparr>ch_pc := PDone False\<rparr>, g)
          else if nat ASYNC_CHUNK_SIZE < sz then (c\<lparr>ch_pc := PFail\<rparr>, g)
          else (c\<lparr>ch_pc := PRead []\<rparr>, g)
      | PRead buf \<Rightarrow>
          if length buf < sz then
            (case sys_pread w (jb_src j) (sz - length buf) (lo + length buf) of
               (RData bs, w1) \<Rightarrow> (c\<lparr>ch_pc := if bs = [] then PFail else PRead (buf @ bs)\<rparr>, g\<lparr>sh_world := w1\<rparr>)
             | (RIntr, w1) \<Rightarrow> (c, g\<lparr>sh_world := w1\<rparr>)
             | (RErr, w1) \<Rightarrow> (c\<lparr>ch_pc := PFail\<rparr>, g\<lparr>sh_world := w1\<rparr>))
          else (c\<lparr>ch_pc := PWrite buf 0\<rparr>, g)
      | PWrite buf n \<Rightarrow>
          if n < length buf then
            (case sys_pwrite w (jb_dst j) (drop n buf) (lo + n) of
               (WRet m, w1) \<Rightarrow> (c\<lparr>ch_pc := if m = 0 then PFail else PWrite buf (n + m)\<rparr>, g\<lparr>sh_world := w1\<rparr>)
             | (WIntr, w1) \<Rightarrow> (c, g\<lparr>sh_world := w1\<rparr>)
             | (WErr, w1) \<Rightarrow> (c\<lparr>ch_pc := PFail\<rparr>, g\<lparr>sh_world := w1\<rparr>))
          else (c\<lparr>ch_pc := PAdd\<rparr>, g)
      | PFail \<Rightarrow> (c\<lparr>ch_pc := PDone False\<rparr>, g\<lparr>sh_hasError := True\<rparr>)
      | PAdd \<Rightarrow>
          (let new = sh_transferred g + int sz in
           (c\<lparr>ch_pc := PSave new\<rparr>, g\<lparr>sh_transferred := new\<rparr>))
      | PSave t \<Rightarrow> (c\<lparr>ch_pc := PSleep\<rparr>, g\<lparr>sh_world := saveProgress w (jb_dest j) t (jb_total j)\<rparr>)
      | PSleep \<Rightarrow>
          (c\<lparr>ch_pc := PDone True\<rparr>,
           if fsy_speedLimit (jb_fs j) > 0
           then g\<lparr>sh_world := sleep_ms (sz * 1000 div fsy_speedLimit (jb_fs j) div 4) w\<rparr> else g)
      | PDone b \<Rightarrow> (c, g))"

definition is_done :: "chunk \<Rightarrow> bool" where
  "is_done c = (case ch_pc c of PDone _ \<Rightarrow> True | _ \<Rightarrow> False)"

text \<open>How many steps a thread has left, when nothing interrupts it.\<close>

definition pc_left :: "chunk \<Rightarrow> nat" where
  "pc_left c = (case ch_pc c of PStart \<Rightarrow> 2 * ch_size c + 7
      | PRead buf \<Rightarrow> (ch_size c - length buf) + max (ch_size c) (length buf) + 6
      | PWrite buf n \<Rightarrow> (length buf - n) + 5
      | PAdd \<Rightarrow> 4 | PSave _ \<Rightarrow> 3 | PSleep \<Rightarrow> 2 | PFail \<Rightarrow> 1 | PDone _ \<Rightarrow> 0)"

lemma next_ev_script_le: "length (w_script (snd (next_ev w))) \<le> length (w_script w)"
  by (simp add: next_ev_eq)

lemma sys_pread_script:
  "sys_pread w k n off = (r, w1) \<Longrightarrow> w_script w1 = tl (w_script w) \<and> (r = RIntr \<longrightarrow> w_script w \<noteq> [])
     \<and> (case r of RData bs \<Rightarrow> length bs \<le> n | _ \<Rightarrow> True)"
  by (auto simp: sys_pread_def next_ev_def Let_def read_count_def split: list.splits ev.splits option.splits)

lemma sys_pwrite_script:
  "sys_pwrite w k bs off = (r, w1) \<Longrightarrow> w_script w1 = tl (w_script w) \<and> (r = WIntr \<longrightarrow> w_script w \<noteq> [])"
  by (auto simp: sys_pwrite_def next_ev_def Let_def split: list.splits ev.splits option.splits)

lemma saveProgress_script_le: "length (w_script (saveProgress w fp off tot)) \<le> length (w_script w)"
proof -
  obtain h w1 where o: "of_open w (getProgressFilePath fp) False = (h, w1)" by fastforce
  then have "w_script w1 = tl (w_script w)"
    by (cases rule: sys_open_w_cases [of w "getProgressFilePath fp" "0x1B6" True True])
       (auto simp: of_open_def)
  with o show ?thesis
    by (auto simp: saveProgress_def of_write_def next_ev_eq Let_def split: option.splits)
qed

lemma chunk_step_decreases:
  assumes nd: "\<not> is_done c" and st: "chunk_step j c g = (c1, g1)"
  shows "length (w_script (sh_world g1)) + pc_left c1 < length (w_script (sh_world g)) + pc_left c"
proof (cases "ch_pc c")
  case (PRead buf)
  obtain r w1 where r: "sys_pread (sh_world g) (jb_src j) (ch_size c - length buf) (ch_offset c + length buf) = (r, w1)"
    by fastforce
  show ?thesis using st PRead r sys_pread_script [OF r]
    by (cases r; cases "w_script (sh_world g)")
       (auto simp: neq_Nil_conv chunk_step_def pc_left_def Let_def split: if_splits)
next
  case (PWrite buf n)
  obtain r w1 where r: "sys_pwrite (sh_world g) (jb_dst j) (drop n buf) (ch_offset c + n) = (r, w1)"
    by fastforce
  show ?thesis using st PWrite r sys_pwrite_script [OF r]
    by (cases r; cases "w_script (sh_world g)")
       (auto simp: chunk_step_def pc_left_def Let_def split: if_splits)
next
  case (PSave t)
  then show ?thesis using st saveProgress_script_le [of "sh_world g" "jb_dest j" t "jb_total j"]
    by (auto simp: chunk_step_def pc_left_def Let_def)
qed (use nd st in \<open>auto simp: chunk_step_def pc_left_def is_done_def Let_def sleep_ms_def split: if_splits\<close>)

function run_chunk :: "job \<Rightarrow> chunk \<Rightarrow> shared \<Rightarrow> chunk \<times> shared" where
  "run_chunk j c g =
     (if is_done c then (c, g) else (let (c1, g1) = chunk_step j c g in run_chunk j c1 g1))"
  by pat_completeness auto
termination
  by (relation "measure (\<lambda>(j, c, g). length (w_script (sh_world g)) + pc_left c)")
     (auto simp del: split_paired_All split: prod.splits dest: chunk_step_decreases [OF _ sym])

declare run_chunk.simps [simp del]

section \<open>All threads\<close>

definition step_at :: "job \<Rightarrow> chunk list \<times> shared \<Rightarrow> nat \<Rightarrow> chunk list \<times> shared" where
  "step_at j st i =
     (let (cs, g) = st in
      if i < length cs then (let (c, g1) = chunk_step j (cs ! i) g in (cs[i := c], g1)) else (cs, g))"

definition run_schedule :: "job \<Rightarrow> nat list \<Rightarrow> chunk list \<times> shared \<Rightarrow> chunk list \<times> shared" where
  "run_schedule j sched st = foldl (step_at j) st sched"

fun finish :: "job \<Rightarrow> chunk list \<Rightarrow> shared \<Rightarrow> chunk list \<times> shared" where
  "finish j [] g = ([], g)"
| "finish j (c # cs) g =
     (let (c1, g1) = run_chunk j c g; (cs1, g2) = finish j cs g1 in (c1 # cs1, g2))"

definition numChunks :: "off_t \<Rightarrow> off_t \<Rightarrow> int" where
  "numChunks fileSize offset = to_int32 (c_div (fileSize - offset + ASYNC_CHUNK_SIZE - 1) ASYNC_CHUNK_SIZE)"

definition make_chunk :: "off_t \<Rightarrow> off_t \<Rightarrow> nat \<Rightarrow> chunk" where
  "make_chunk fileSize offset i =
     (let chunkOffset = offset + int i * ASYNC_CHUNK_SIZE
      in \<lparr>ch_offset = nat chunkOffset, ch_size = nat (min ASYNC_CHUNK_SIZE (fileSize - chunkOffset)),
          ch_pc = PStart\<rparr>)"

definition make_chunks :: "off_t \<Rightarrow> off_t \<Rightarrow> chunk list" where
  "make_chunks fileSize offset = map (make_chunk fileSize offset) [0..<nat (numChunks fileSize offset)]"

text \<open>The destination: created and pre-allocated for a fresh copy, opened as it is for a resumed one.\<close>

definition open_dest :: "world \<Rightarrow> string \<Rightarrow> off_t \<Rightarrow> off_t \<Rightarrow> fpath option \<times> world" where
  "open_dest w destPath offset fileSize =
     (if offset = 0 then
        (case sys_open_w w destPath 0x1A4 True True of
           (None, w1) \<Rightarrow> (None, w1)
         | (Some k, w1) \<Rightarrow>
             (let (ok, w2) = sys_ftruncate w1 k (nat fileSize) in
              if \<not> ok then (None, cleanupCorruptedFile w2 destPath) else (Some k, w2)))
      else sys_open_w w destPath 0 False False)"

text \<open>The argument \<open>sched\<close> is the interleaving of the threads.  The only caller passes offset 0.\<close>

definition transferLargeFileAsync ::
    "FileSync \<Rightarrow> nat list \<Rightarrow> world \<Rightarrow> string \<Rightarrow> string \<Rightarrow> off_t \<Rightarrow> bool \<times> world" where
  "transferLargeFileAsync fs sched w srcPath destPath offset =
     (case getFileStat w srcPath of
        None \<Rightarrow> (False, w)
      | Some statbuf \<Rightarrow>
          (let fileSize = st_size statbuf in
           if \<not> FileSync_checkDiskSpace w destPath (fileSize - offset) then (False, w)
           else case sys_open_r w srcPath of
             None \<Rightarrow> (False, w)
           | Some srcFd \<Rightarrow>
               (case open_dest w destPath offset fileSize of
                  (None, w1) \<Rightarrow> (False, w1)
                | (Some destFd, w1) \<Rightarrow>
                    (let j = \<lparr>jb_fs = fs, jb_dest = destPath, jb_total = fileSize, jb_src = srcFd, jb_dst = destFd\<rparr>;
                         g = \<lparr>sh_world = w1, sh_transferred = offset, sh_hasError = False\<rparr>;
                         (cs1, g1) = run_schedule j sched (make_chunks fileSize offset, g);
                         (cs2, g2) = finish j cs1 g1;
                         w2 = sh_world g2;
                         allSuccess = list_all (\<lambda>c. ch_pc c = PDone True) cs2
                     in if \<not> allSuccess then (False, cleanupCorruptedFile w2 destPath)
                        else (True, snd (sys_remove w2 (getProgressFilePath destPath)))))))"

section \<open>What a thread keeps true\<close>

definition agree :: "byte list \<Rightarrow> byte list \<Rightarrow> nat \<Rightarrow> nat \<Rightarrow> bool" where
  "agree src dst lo n \<longleftrightarrow> (\<forall>i. lo \<le> i \<and> i < lo + n \<longrightarrow> dst ! i = src ! i)"

definition chunk_inv :: "byte list \<Rightarrow> byte list \<Rightarrow> chunk \<Rightarrow> bool" where
  "chunk_inv src dst c \<longleftrightarrow>
     (let lo = ch_offset c; sz = ch_size c in
      lo + sz \<le> length src \<and>
      (case ch_pc c of
         PRead buf \<Rightarrow> length buf \<le> sz \<and> buf = take (length buf) (drop lo src)
       | PWrite buf n \<Rightarrow> buf = take sz (drop lo src) \<and> n \<le> sz \<and> agree src dst lo n
       | PStart \<Rightarrow> True | PFail \<Rightarrow> True
       | PDone b \<Rightarrow> b \<longrightarrow> agree src dst lo sz
       | _ \<Rightarrow> agree src dst lo sz))"

lemma length_splice: "off + length bs \<le> length d \<Longrightarrow> length (splice_at off bs d) = length d"
  by (simp add: splice_at_def)

lemma nth_splice:
  "off + length bs \<le> length d \<Longrightarrow> i < length d \<Longrightarrow>
     splice_at off bs d ! i = (if off \<le> i \<and> i < off + length bs then bs ! (i - off) else d ! i)"
  by (auto simp: splice_at_def nth_append min_def)

lemma splice_agree:
  assumes len: "length dst = length src" and b: "off + n \<le> length src"
  shows "length (splice_at off (take n (drop off src)) dst) = length src"
    "agree src (splice_at off (take n (drop off src)) dst) off n"
    "lo + m \<le> length src \<Longrightarrow> agree src dst lo m \<Longrightarrow> agree src (splice_at off (take n (drop off src)) dst) lo m"
  using assms by (auto simp: length_splice nth_splice agree_def)

lemma agree_zero [simp]: "agree src dst lo 0"
  by (auto simp: agree_def)

lemma agree_append: "agree src dst lo m \<Longrightarrow> agree src dst (lo + m) n \<Longrightarrow> agree src dst lo (m + n)"
  unfolding agree_def by (metis add.assoc not_le)

definition job_ok :: "job \<Rightarrow> fpath \<Rightarrow> world \<Rightarrow> byte list \<Rightarrow> bool" where
  "job_ok j pk w0 src \<longleftrightarrow> world_wf w0 \<and> resolve w0 (getProgressFilePath (jb_dest j)) = Some pk
     \<and> pk \<noteq> jb_dst j \<and> jb_src j \<noteq> jb_dst j \<and> jb_src j \<noteq> pk \<and> data_at w0 (jb_src j) = Some src
     \<and> \<not> is_dir (w_fs w0) (jb_dst j)"

definition world_inv :: "job \<Rightarrow> fpath \<Rightarrow> world \<Rightarrow> byte list \<Rightarrow> world \<Rightarrow> byte list \<Rightarrow> bool" where
  "world_inv j pk w0 src w d \<longleftrightarrow>
     file_step {jb_dst j, pk} w0 w \<and> data_at w (jb_dst j) = Some d \<and> length d = length src"

text \<open>\<open>grows src d d'\<close>: where \<open>d\<close> already agreed with the source, \<open>d'\<close> still does.\<close>

definition grows :: "byte list \<Rightarrow> byte list \<Rightarrow> byte list \<Rightarrow> bool" where
  "grows src d d' \<longleftrightarrow> (\<forall>lo m. lo + m \<le> length src \<and> agree src d lo m \<longrightarrow> agree src d' lo m)"

lemma grows_refl [simp]: "grows src d d"
  by (simp add: grows_def)

lemma grows_trans: "grows src a b \<Longrightarrow> grows src b c \<Longrightarrow> grows src a c"
  by (simp add: grows_def)

lemma chunk_inv_grows: "chunk_inv src d c \<Longrightarrow> grows src d d' \<Longrightarrow> chunk_inv src d' c"
  by (auto simp: chunk_inv_def grows_def Let_def split: pc.splits)

lemma world_inv_same:
  assumes "world_inv j pk w0 src w d" "file_step {jb_dst j, pk} w w'" "data_at w' (jb_dst j) = data_at w (jb_dst j)"
  shows "world_inv j pk w0 src w' d"
  using assms by (auto simp: world_inv_def intro: file_step_trans)

lemma world_inv_src:
  assumes "job_ok j pk w0 src" "world_inv j pk w0 src w d"
  shows "data_at w (jb_src j) = Some src"
  using assms by (auto simp: job_ok_def world_inv_def data_at_frame)

lemma world_inv_save:
  assumes j: "job_ok j pk w0 src" and i: "world_inv j pk w0 src w d"
  shows "world_inv j pk w0 src (saveProgress w (jb_dest j) t tot) d"
proof -
  have f: "file_step {jb_dst j, pk} w0 w" and wf: "world_wf w0" using i j by (auto simp: world_inv_def job_ok_def)
  note d = file_stepD [OF f wf]
  have s: "file_step {pk} w (saveProgress w (jb_dest j) t tot)"
    using j d(3) by (intro file_step_save) (simp add: job_ok_def)
  then show ?thesis
    using j data_at_frame [OF s d(1)] by (intro world_inv_same [OF i]) (auto simp: job_ok_def intro: file_step_mono)
qed

lemma world_inv_script: "world_inv j pk w0 src w d \<Longrightarrow> world_inv j pk w0 src (w\<lparr>w_script := s\<rparr>) d"
  by (rule world_inv_same) simp_all

lemma sys_pread_data:
  assumes "sys_pread w k n off = (r, w1)" "data_at w k = Some d"
  shows "w1 = w\<lparr>w_script := tl (w_script w)\<rparr>" "r = RData bs \<Longrightarrow> \<exists>m\<le>n. bs = take m (drop off d)"
proof -
  show "w1 = w\<lparr>w_script := tl (w_script w)\<rparr>"
    using assms by (auto simp: sys_pread_def next_ev_eq Let_def split: ev.splits)
  assume "r = RData bs"
  with assms have "bs = take (read_count (ev1 w) n) (drop off d)"
    by (auto simp: sys_pread_def next_ev_eq Let_def split: ev.splits)
  then show "\<exists>m\<le>n. bs = take m (drop off d)"
    by (intro exI [of _ "read_count (ev1 w) n"]) (auto simp: read_count_def split: ev.splits)
qed

lemma sys_pwrite_data:
  assumes "sys_pwrite w k bs off = (r, w1)" "\<not> is_dir (w_fs w) k" "data_at w k = Some d"
  shows "file_step {k} w w1"
    "data_at w1 k = Some (case r of WRet n \<Rightarrow> if n = 0 then d else splice_at off (take n bs) d | _ \<Rightarrow> d)"
    "r = WRet n \<Longrightarrow> n \<le> length bs"
proof -
  from assms(1) have w1: "w1 = snd (sys_pwrite w k bs off)" by simp
  show "file_step {k} w w1"
    unfolding w1 file_step_def
    using assms(2) by (simp add: sys_pwrite_step) (simp add: sys_pwrite_def next_ev_eq Let_def split: ev.splits)
  show "data_at w1 k = Some (case r of WRet n \<Rightarrow> if n = 0 then d else splice_at off (take n bs) d | _ \<Rightarrow> d)"
    "r = WRet n \<Longrightarrow> n \<le> length bs"
    using assms(1,3) by (auto simp: sys_pwrite_def next_ev_eq Let_def ev_count_def data_at_set_data min_def
        split: ev.splits if_splits)
qed

lemma chunk_step_inv:
  assumes j: "job_ok j pk w0 src" and i: "world_inv j pk w0 src (sh_world g) d"
    and c: "chunk_inv src d c" and st: "chunk_step j c g = (c1, g1)"
  shows "\<exists>d1. world_inv j pk w0 src (sh_world g1) d1 \<and> chunk_inv src d1 c1 \<and> grows src d d1
     \<and> ch_offset c1 = ch_offset c \<and> ch_size c1 = ch_size c"
proof (cases "ch_pc c")
  case (PRead buf)
  let ?w = "sh_world g"
  obtain r w1 where r: "sys_pread ?w (jb_src j) (ch_size c - length buf) (ch_offset c + length buf) = (r, w1)"
    by fastforce
  note rd = sys_pread_data [OF r world_inv_src [OF j i]]
  have w1: "world_inv j pk w0 src w1 d" unfolding rd(1) by (rule world_inv_script [OF i])
  have app: "buf @ bs = take (length (buf @ bs)) (drop (ch_offset c) src) \<and> length bs \<le> ch_size c - length buf"
    if bs: "r = RData bs" for bs
  proof -
    from rd(2) [OF bs] obtain m where m: "m \<le> ch_size c - length buf" "bs = take m (drop (ch_offset c + length buf) src)"
      by auto
    have b: "buf = take (length buf) (drop (ch_offset c) src)" using c PRead by (simp add: chunk_inv_def Let_def)
    have "bs = take (length bs) (drop (ch_offset c + length buf) src)" using m(2) by (metis length_take min.cobounded2 take_all_iff take_take min.commute)
    with b m show ?thesis by (simp add: take_add add.commute)
  qed
  show ?thesis
    using st PRead r i c w1 app
    by (intro exI [of _ d], cases r) (auto simp: chunk_step_def Let_def chunk_inv_def split: if_splits)
next
  case (PWrite buf n)
  let ?w = "sh_world g" let ?lo = "ch_offset c"
  obtain r w1 where r: "sys_pwrite ?w (jb_dst j) (drop n buf) (?lo + n) = (r, w1)" by fastforce
  have f: "file_step {jb_dst j, pk} w0 ?w" and wf: "world_wf w0" and da: "data_at ?w (jb_dst j) = Some d"
    and len: "length d = length src"
    using i j by (auto simp: world_inv_def job_ok_def)
  have "\<not> is_dir (w_fs ?w) (jb_dst j)" using file_stepD(2) [OF f wf] j by (simp add: job_ok_def)
  note wd = sys_pwrite_data [OF r this da]
  have f1: "file_step {jb_dst j, pk} w0 w1" using wd(1) by (auto intro: file_step_trans [OF f] file_step_mono)
  have buf: "buf = take (ch_size c) (drop ?lo src)" "?lo + ch_size c \<le> length src" "n \<le> ch_size c" "agree src d ?lo n"
    using c PWrite by (simp_all add: chunk_inv_def Let_def)
  show ?thesis
  proof (cases "n < length buf \<and> (\<exists>m. r = WRet m \<and> m \<noteq> 0)")
    case True
    then obtain m where m: "r = WRet m" "m \<noteq> 0" "n < length buf" by auto
    with wd(3) buf have mb: "n + m \<le> ch_size c" by fastforce
    have tk: "take m (drop n buf) = take m (drop (?lo + n) src)"
      using mb buf(1) by (simp add: drop_take add.commute)
    let ?d1 = "splice_at (?lo + n) (take m (drop (?lo + n) src)) d"
    have b: "?lo + n + m \<le> length src" using mb buf(2) by simp
    note sp = splice_agree [OF len b]
    have "world_inv j pk w0 src w1 ?d1" using f1 wd(2) m tk sp(1) by (simp add: world_inv_def)
    moreover have "agree src ?d1 ?lo (n + m)" using sp(2) sp(3) [of ?lo n] buf mb by (intro agree_append) auto
    moreover have "grows src d ?d1" using sp(3) by (simp add: grows_def)
    ultimately show ?thesis using st PWrite r m mb buf
      by (intro exI [of _ ?d1]) (auto simp: chunk_step_def Let_def chunk_inv_def)
  next
    case False
    have w1: "world_inv j pk w0 src w1 d" if "\<not> (\<exists>m. r = WRet m \<and> m \<noteq> 0)"
      using f1 wd(2) that len by (auto simp: world_inv_def split: wres.splits)
    show ?thesis using st PWrite r i c w1 False buf
      by (intro exI [of _ d], cases r) (auto simp: chunk_step_def Let_def chunk_inv_def split: if_splits)
  qed
next
  case (PSave t)
  then show ?thesis using st c world_inv_save [OF j i, of t "jb_total j"]
    by (auto simp: chunk_step_def chunk_inv_def Let_def)
next
  case PSleep
  have "world_inv j pk w0 src (sleep_ms n (sh_world g)) d" for n
    by (rule world_inv_same [OF i]) (simp_all add: sleep_ms_def data_at_def file_step_def fs_step_def
        world_wf_def env_of_def net_of_def content_def)
  with PSleep show ?thesis using st c i by (intro exI [of _ d]) (auto simp: chunk_step_def chunk_inv_def Let_def)
qed (use st c i in \<open>auto simp: chunk_step_def chunk_inv_def Let_def split: if_splits\<close>)

section \<open>What the threads together keep true\<close>

definition par_inv :: "job \<Rightarrow> fpath \<Rightarrow> world \<Rightarrow> byte list \<Rightarrow> (nat \<times> nat) list \<Rightarrow> chunk list \<times> shared \<Rightarrow> bool" where
  "par_inv j pk w0 src rs st \<longleftrightarrow>
     (\<exists>d. world_inv j pk w0 src (sh_world (snd st)) d \<and> list_all (chunk_inv src d) (fst st)
        \<and> map (\<lambda>c. (ch_offset c, ch_size c)) (fst st) = rs)"

lemma step_at_inv:
  assumes j: "job_ok j pk w0 src" and i: "par_inv j pk w0 src rs st"
  shows "par_inv j pk w0 src rs (step_at j st i)"
proof -
  obtain cs g where st: "st = (cs, g)" by fastforce
  show ?thesis
  proof (cases "i < length cs")
    case False
    with i st show ?thesis by (simp add: step_at_def)
  next
    case True
    from i st obtain d where d: "world_inv j pk w0 src (sh_world g) d" "list_all (chunk_inv src d) cs"
      "map (\<lambda>c. (ch_offset c, ch_size c)) cs = rs" by (auto simp: par_inv_def)
    obtain c1 g1 where c1: "chunk_step j (cs ! i) g = (c1, g1)" by fastforce
    have "chunk_inv src d (cs ! i)" using d(2) True by (simp add: list_all_length)
    from chunk_step_inv [OF j d(1) this c1] obtain d1 where
      d1: "world_inv j pk w0 src (sh_world g1) d1" "chunk_inv src d1 c1" "grows src d d1"
      "ch_offset c1 = ch_offset (cs ! i)" "ch_size c1 = ch_size (cs ! i)" by auto
    have "list_all (chunk_inv src d1) (cs[i := c1])"
      using d(2) d1(2,3) unfolding list_all_iff
      by (metis chunk_inv_grows insert_iff set_update_subset_insert subsetD)
    moreover have "map (\<lambda>c. (ch_offset c, ch_size c)) (cs[i := c1]) = rs"
      using d(3) d1(4,5) True by (auto simp: map_update list_update_same_conv)
    ultimately show ?thesis using st True c1 d1(1) by (auto simp: step_at_def par_inv_def)
  qed
qed

lemma run_schedule_inv:
  assumes "job_ok j pk w0 src" "par_inv j pk w0 src rs st"
  shows "par_inv j pk w0 src rs (run_schedule j sched st)"
  unfolding run_schedule_def using assms(2)
proof (induction sched arbitrary: st)
  case (Cons i sched)
  from Cons.IH [OF step_at_inv [OF assms(1) Cons.prems, of i]] show ?case by simp
qed simp

lemma run_chunk_inv:
  assumes j: "job_ok j pk w0 src" and i: "world_inv j pk w0 src (sh_world g) d" and c: "chunk_inv src d c"
    and r: "run_chunk j c g = (c1, g1)"
  shows "is_done c1 \<and> (\<exists>d1. world_inv j pk w0 src (sh_world g1) d1 \<and> chunk_inv src d1 c1 \<and> grows src d d1
     \<and> ch_offset c1 = ch_offset c \<and> ch_size c1 = ch_size c)"
  using j i c r
proof (induction j c g arbitrary: d c1 g1 rule: run_chunk.induct)
  case (1 j c g)
  show ?case
  proof (cases "is_done c")
    case True
    with "1.prems" show ?thesis by (auto simp: run_chunk.simps [of j c] intro!: exI [of _ d])
  next
    case False
    obtain c2 g2 where st: "chunk_step j c g = (c2, g2)" by fastforce
    from chunk_step_inv [OF "1.prems"(1-3) st] obtain d2 where
      d2: "world_inv j pk w0 src (sh_world g2) d2" "chunk_inv src d2 c2" "grows src d d2"
      "ch_offset c2 = ch_offset c" "ch_size c2 = ch_size c" by auto
    have "run_chunk j c2 g2 = (c1, g1)" using "1.prems"(4) False st by (simp add: run_chunk.simps [of j c])
    from "1.IH" [OF False st [symmetric] refl "1.prems"(1) d2(1,2) this] d2 show ?thesis
      by (auto intro: grows_trans)
  qed
qed

lemma finish_inv:
  assumes j: "job_ok j pk w0 src"
  shows "world_inv j pk w0 src (sh_world g) d \<Longrightarrow> list_all (chunk_inv src d) cs \<Longrightarrow> finish j cs g = (cs1, g1) \<Longrightarrow>
    list_all is_done cs1 \<and> (\<exists>d1. world_inv j pk w0 src (sh_world g1) d1 \<and> list_all (chunk_inv src d1) cs1 \<and> grows src d d1)
     \<and> map (\<lambda>c. (ch_offset c, ch_size c)) cs1 = map (\<lambda>c. (ch_offset c, ch_size c)) cs"
proof (induction cs arbitrary: g d cs1 g1)
  case Nil
  then show ?case by (auto intro!: exI [of _ d])
next
  case (Cons c cs)
  obtain c2 g2 where c2: "run_chunk j c g = (c2, g2)" by fastforce
  obtain cs3 g3 where c3: "finish j cs g2 = (cs3, g3)" by fastforce
  have eq: "cs1 = c2 # cs3" "g1 = g3" using Cons.prems(3) c2 c3 by simp_all
  have "chunk_inv src d c" "list_all (chunk_inv src d) cs" using Cons.prems(2) by simp_all
  with run_chunk_inv [OF j Cons.prems(1) _ c2] obtain d2 where d2: "is_done c2"
    "world_inv j pk w0 src (sh_world g2) d2" "chunk_inv src d2 c2" "grows src d d2"
    "ch_offset c2 = ch_offset c" "ch_size c2 = ch_size c" by blast
  have "list_all (chunk_inv src d2) cs"
    using \<open>list_all (chunk_inv src d) cs\<close> d2(4) by (auto simp: list_all_iff intro: chunk_inv_grows)
  from Cons.IH [OF d2(2) this c3] obtain d3 where d3: "list_all is_done cs3"
    "world_inv j pk w0 src (sh_world g3) d3" "list_all (chunk_inv src d3) cs3" "grows src d2 d3"
    "map (\<lambda>c. (ch_offset c, ch_size c)) cs3 = map (\<lambda>c. (ch_offset c, ch_size c)) cs" by blast
  then show ?case using eq d2 by (auto intro!: exI [of _ d3] intro: grows_trans chunk_inv_grows)
qed

section \<open>The chunks cover the file\<close>

lemma numChunks_fresh:
  assumes "int n < 2 ^ 52"
  shows "numChunks (int n) 0 = (int n + ASYNC_CHUNK_SIZE - 1) div ASYNC_CHUNK_SIZE"
proof -
  let ?q = "(int n + ASYNC_CHUNK_SIZE - 1) div ASYNC_CHUNK_SIZE"
  have "?q < 2 ^ 31" "0 \<le> ?q" using assms by (simp_all add: ASYNC_CHUNK_SIZE_def)
  then show ?thesis
    by (simp add: numChunks_def c_div_pos ASYNC_CHUNK_SIZE_def to_int32_id)
qed

lemma make_chunks_cover:
  assumes n: "int n < 2 ^ 52" and i: "i < n"
  shows "\<exists>c\<in>set (make_chunks (int n) 0). ch_offset c \<le> i \<and> i < ch_offset c + ch_size c"
proof -
  let ?q = "i div 4194304"
  have "int ?q < (int n + ASYNC_CHUNK_SIZE - 1) div ASYNC_CHUNK_SIZE"
    using i by (simp add: ASYNC_CHUNK_SIZE_def)
  then have "?q < nat (numChunks (int n) 0)" using numChunks_fresh [OF n] by simp
  then have "make_chunk (int n) 0 ?q \<in> set (make_chunks (int n) 0)" by (simp add: make_chunks_def)
  moreover have "ch_offset (make_chunk (int n) 0 ?q) \<le> i \<and>
      i < ch_offset (make_chunk (int n) 0 ?q) + ch_size (make_chunk (int n) 0 ?q)"
    using i by (simp add: make_chunk_def Let_def ASYNC_CHUNK_SIZE_def min_def) linarith
  ultimately show ?thesis by blast
qed

lemma make_chunks_disjoint:
  assumes "c \<in> set (make_chunks (int n) 0)" "ch_offset c \<le> i" "i < ch_offset c + ch_size c"
    and "c' \<in> set (make_chunks (int n) 0)" "ch_offset c' \<le> i" "i < ch_offset c' + ch_size c'"
  shows "c' = c"
proof -
  have "q = i div 4194304" if "b = make_chunk (int n) 0 q" "ch_offset b \<le> i" "i < ch_offset b + ch_size b" for b q
    using that by (simp add: make_chunk_def Let_def ASYNC_CHUNK_SIZE_def min_def split: if_splits)
  with assms show ?thesis by (auto simp: make_chunks_def)
qed

lemma make_chunks_start:
  assumes "c \<in> set (make_chunks (int n) 0)" "int n < 2 ^ 52"
  shows "ch_offset c + ch_size c \<le> n" "ch_size c \<le> nat ASYNC_CHUNK_SIZE" "ch_pc c = PStart"
proof -
  from assms numChunks_fresh obtain i where i: "c = make_chunk (int n) 0 i"
    "int i < (int n + ASYNC_CHUNK_SIZE - 1) div ASYNC_CHUNK_SIZE"
    by (auto simp: make_chunks_def)
  then have "int i * 4194304 \<le> int n" by (simp add: ASYNC_CHUNK_SIZE_def)
  then show "ch_offset c + ch_size c \<le> n" "ch_size c \<le> nat ASYNC_CHUNK_SIZE" "ch_pc c = PStart"
    using i by (auto simp: make_chunk_def Let_def ASYNC_CHUNK_SIZE_def min_def)
qed

section \<open>The whole transfer\<close>

lemma open_dest_fresh:
  assumes r: "transfer_ready w src dest k d" and o: "open_dest w dest 0 (int n) = (Some k', w1)"
  shows "k' = k" "file_step {k} w w1" "data_at w1 k = Some (replicate n (CHR 0x00))"
proof -
  note t = transfer_readyD [OF r]
  obtain k1 v where v: "sys_open_w w dest 0x1A4 True True = (Some k1, v)"
    using o by (auto simp: open_dest_def split: prod.splits option.splits)
  note od = sys_open_w_data [OF v] sys_open_w_not_dir [OF creat_perms(2) v]
  have k1: "k1 = k" using od t(4) by simp
  obtain ok v2 where v2: "sys_ftruncate v k1 n = (ok, v2)" by fastforce
  with o v have eq: "k' = k1" "w1 = v2" ok
    by (auto simp: open_dest_def split: if_splits)
  with k1 show "k' = k" by simp
  have fv: "file_step {k} w v"
    using sys_open_w_step [of w dest "0x1A4" True True] sys_open_w_is_dir [OF creat_perms(2), of w dest True True] v t(4)
    by (auto simp: file_step_def intro: fs_step_mono)
  have "fs_step {k} v v2" "is_dir (w_fs v2) = is_dir (w_fs v)"
    using sys_ftruncate_step [of v k n] v2 od(2) k1 by (auto simp: sys_ftruncate_def next_ev_eq Let_def split: if_splits)
  with fv eq show "file_step {k} w w1" by (auto intro: file_step_trans simp: file_step_def [of _ v])
  show "data_at w1 k = Some (replicate n (CHR 0x00))"
    using v2 eq od(1) k1 by (auto simp: sys_ftruncate_def next_ev_eq data_at_set_data split: if_splits)
qed

definition async_ready :: "world \<Rightarrow> string \<Rightarrow> string \<Rightarrow> fpath \<Rightarrow> fpath \<Rightarrow> byte list \<Rightarrow> bool" where
  "async_ready w src dest sk k d \<longleftrightarrow> transfer_ready w src dest k d \<and> resolve w src = Some sk
     \<and> \<not> is_dir (w_fs w) sk \<and> sk \<noteq> progress_key k \<and> int (length d) < 2 ^ 52"

lemma async_readyD:
  assumes "async_ready w src dest sk k d"
  shows "transfer_ready w src dest k d" "resolve w src = Some sk" "sk \<noteq> progress_key k" "int (length d) < 2 ^ 52"
    "sk \<noteq> k" "data_at w sk = Some d" "sys_open_r w src = Some sk"
    "\<exists>st. getFileStat w src = Some st \<and> st_size st = int (length d)"
proof -
  from assms show a: "transfer_ready w src dest k d" "resolve w src = Some sk" "sk \<noteq> progress_key k" "int (length d) < 2 ^ 52"
    by (simp_all add: async_ready_def)
  note t = transfer_readyD [OF a(1)]
  show "sk \<noteq> k" using t a by auto
  show da: "data_at w sk = Some d" using t(2) a(2) by (auto simp: ifs_open_def split: if_splits)
  then obtain i where i: "map_of (w_fs w) sk = Some i" "i_data i = d" by (auto simp: data_at_def)
  show "sys_open_r w src = Some sk" using t(2) a(2) i by (auto simp: ifs_open_def sys_open_r_def split: if_splits)
  have "\<not> S_ISDIR (i_mode i)" using assms i by (auto simp: async_ready_def is_dir_def)
  then show "\<exists>st. getFileStat w src = Some st \<and> st_size st = int (length d)"
    using a(2) i by (auto simp: getFileStat_def sys_stat_def stat_of_def)
qed

definition async_job :: "FileSync \<Rightarrow> string \<Rightarrow> fpath \<Rightarrow> fpath \<Rightarrow> byte list \<Rightarrow> job" where
  "async_job fs dest sk k d = \<lparr>jb_fs = fs, jb_dest = dest, jb_total = int (length d), jb_src = sk, jb_dst = k\<rparr>"

definition async_run :: "FileSync \<Rightarrow> nat list \<Rightarrow> string \<Rightarrow> fpath \<Rightarrow> fpath \<Rightarrow> byte list \<Rightarrow> world \<Rightarrow> chunk list \<times> shared" where
  "async_run fs sched dest sk k d w1 =
     (let (cs1, g1) = run_schedule (async_job fs dest sk k d) sched
            (make_chunks (int (length d)) 0, \<lparr>sh_world = w1, sh_transferred = 0, sh_hasError = False\<rparr>)
      in finish (async_job fs dest sk k d) cs1 g1)"

lemma transferLargeFileAsync_eq:
  assumes r: "async_ready w src dest sk k d" and sp: "FileSync_checkDiskSpace w dest (int (length d))"
    and o: "open_dest w dest 0 (int (length d)) = (Some k, w1)"
  shows "transferLargeFileAsync fs sched w src dest 0 =
     (let (cs2, g2) = async_run fs sched dest sk k d w1 in
      if list_all (\<lambda>c. ch_pc c = PDone True) cs2
      then (True, snd (sys_remove (sh_world g2) (getProgressFilePath dest)))
      else (False, cleanupCorruptedFile (sh_world g2) dest))"
  using async_readyD(7,8) [OF r] sp o
  by (auto simp: transferLargeFileAsync_def async_run_def async_job_def Let_def split: prod.splits)

lemma async_start:
  assumes r: "async_ready w src dest sk k d" and o: "open_dest w dest 0 (int (length d)) = (Some k, w1)"
  shows "job_ok (async_job fs dest sk k d) (progress_key k) w1 d"
    "par_inv (async_job fs dest sk k d) (progress_key k) w1 d
       (map (\<lambda>c. (ch_offset c, ch_size c)) (make_chunks (int (length d)) 0))
       (make_chunks (int (length d)) 0, \<lparr>sh_world = w1, sh_transferred = 0, sh_hasError = False\<rparr>)"
proof -
  note a = async_readyD [OF r]
  note t = transfer_readyD [OF a(1)]
  note od = open_dest_fresh [OF a(1) o]
  note d1 = file_stepD [OF od(2) t(1)]
  have "data_at w1 sk = Some d" using data_at_frame [OF od(2) t(1), of sk] a(5,6) by auto
  then show "job_ok (async_job fs dest sk k d) (progress_key k) w1 d"
    using d1 t a by (auto simp: job_ok_def async_job_def)
  show "par_inv (async_job fs dest sk k d) (progress_key k) w1 d
       (map (\<lambda>c. (ch_offset c, ch_size c)) (make_chunks (int (length d)) 0))
       (make_chunks (int (length d)) 0, \<lparr>sh_world = w1, sh_transferred = 0, sh_hasError = False\<rparr>)"
    unfolding par_inv_def using od(3) make_chunks_start [OF _ a(4)]
    by (intro exI [of _ "replicate (length d) (CHR 0x00)"])
       (auto simp: world_inv_def async_job_def list_all_iff chunk_inv_def Let_def)
qed

lemma async_run_inv:
  assumes r: "async_ready w src dest sk k d" and o: "open_dest w dest 0 (int (length d)) = (Some k, w1)"
    and run: "async_run fs sched dest sk k d w1 = (cs2, g2)"
  shows "list_all is_done cs2" "file_step {k, progress_key k} w (sh_world g2)"
    "list_all (\<lambda>c. ch_pc c = PDone True) cs2 \<Longrightarrow> data_at (sh_world g2) k = Some d"
proof -
  let ?j = "async_job fs dest sk k d" and ?pk = "progress_key k"
  note a = async_readyD [OF r]
  note t = transfer_readyD [OF a(1)]
  note od = open_dest_fresh [OF a(1) o]
  note j = async_start(1) [OF r o, of fs]
  let ?cs = "make_chunks (int (length d)) 0"
  let ?g = "\<lparr>sh_world = w1, sh_transferred = 0, sh_hasError = False\<rparr>"
  let ?rs = "map (\<lambda>c. (ch_offset c, ch_size c)) ?cs"
  have "par_inv ?j ?pk w1 d ?rs (run_schedule ?j sched (?cs, ?g))"
    by (rule run_schedule_inv [OF j async_start(2) [OF r o]])
  moreover obtain cs1 g1 where c1: "run_schedule ?j sched (?cs, ?g) = (cs1, g1)" by fastforce
  ultimately obtain dd where dd: "world_inv ?j ?pk w1 d (sh_world g1) dd" "list_all (chunk_inv d dd) cs1"
    "map (\<lambda>c. (ch_offset c, ch_size c)) cs1 = ?rs" by (auto simp: par_inv_def)
  have "finish ?j cs1 g1 = (cs2, g2)" using run c1 by (simp add: async_run_def)
  from finish_inv [OF j dd(1,2) this] dd(3) obtain e where e: "list_all is_done cs2"
    "world_inv ?j ?pk w1 d (sh_world g2) e" "list_all (chunk_inv d e) cs2"
    "map (\<lambda>c. (ch_offset c, ch_size c)) cs2 = ?rs" by auto
  show "list_all is_done cs2" by (fact e(1))
  have "file_step {k, ?pk} w1 (sh_world g2)" using e(2) by (simp add: world_inv_def async_job_def)
  moreover have "file_step {k, ?pk} w w1" using od(2) by (rule file_step_mono) simp
  ultimately show "file_step {k, ?pk} w (sh_world g2)" by (blast intro: file_step_trans)
  have e': "data_at (sh_world g2) k = Some e" "length e = length d"
    using e(2) by (auto simp: world_inv_def async_job_def)
  assume all: "list_all (\<lambda>c. ch_pc c = PDone True) cs2"
  have "e ! i = d ! i" if i: "i < length d" for i
  proof -
    from make_chunks_cover [OF a(4) i] obtain lo sz where "(lo, sz) \<in> set ?rs" "lo \<le> i" "i < lo + sz" by auto
    with e(4) obtain c where "c \<in> set cs2" "lo = ch_offset c" "sz = ch_size c" by (metis (no_types, lifting) fst_conv imageE set_map snd_conv)
    with all e(3) have "agree d e lo sz" by (auto simp: list_all_iff chunk_inv_def Let_def)
    with \<open>lo \<le> i\<close> \<open>i < lo + sz\<close> show ?thesis by (simp add: agree_def)
  qed
  then have "e = d" using e'(2) by (intro nth_equalityI) auto
  with e'(1) show "data_at (sh_world g2) k = Some d" by simp
qed

lemma ready_step_cleanup:
  assumes r: "transfer_ready w src dest k d" and f: "file_step {k, progress_key k} w v"
  shows "file_step {k, progress_key k} w (cleanupCorruptedFile v dest)"
    "file_step {k, progress_key k} w (snd (sys_remove v (getProgressFilePath dest)))"
proof -
  note t = transfer_readyD [OF r]
  note dv = file_stepD [OF f t(1)]
  show "file_step {k, progress_key k} w (cleanupCorruptedFile v dest)"
    using dv t by (intro file_step_trans [OF f] cleanup_step) auto
  show "file_step {k, progress_key k} w (snd (sys_remove v (getProgressFilePath dest)))"
    using dv t file_step_remove [of v "getProgressFilePath dest" "progress_key k"]
    by (intro file_step_trans [OF f]) (auto intro: file_step_mono)
qed

lemma open_dest_failed:
  assumes r: "transfer_ready w src dest k d" and o: "open_dest w dest 0 n = (None, w1)"
  shows "file_step {k, progress_key k} w w1"
proof -
  note t = transfer_readyD [OF r]
  obtain h v where v: "sys_open_w w dest 0x1A4 True True = (h, v)" by fastforce
  have fv: "file_step {k, progress_key k} w v"
    using sys_open_w_step [of w dest "0x1A4" True True] sys_open_w_is_dir [OF creat_perms(2), of w dest True True] v t(4)
    by (auto simp: file_step_def intro: fs_step_mono)
  show ?thesis
  proof (cases h)
    case None
    with o v fv show ?thesis by (simp add: open_dest_def)
  next
    case (Some k')
    then have "w1 = cleanupCorruptedFile (snd (sys_ftruncate v k' (nat n))) dest"
      "snd (sys_ftruncate v k' (nat n)) = v\<lparr>w_script := tl (w_script v)\<rparr>"
      using o v by (auto simp: open_dest_def sys_ftruncate_def next_ev_eq split: if_splits)
    moreover have "file_step {k, progress_key k} w (v\<lparr>w_script := tl (w_script v)\<rparr>)"
      using fv by (rule file_step_trans) simp
    ultimately show ?thesis using ready_step_cleanup(1) [OF r] by simp
  qed
qed

lemma transferLargeFileAsync_facts:
  assumes r: "async_ready w src dest sk k d" and res: "transferLargeFileAsync fs sched w src dest 0 = (ok, w')"
  shows "file_step {k, progress_key k} w w'" "ok \<Longrightarrow> data_at w' k = Some d"
proof -
  note a = async_readyD [OF r]
  note t = transfer_readyD [OF a(1)]
  obtain h w1 where o: "open_dest w dest 0 (int (length d)) = (h, w1)" by fastforce
  have "file_step {k, progress_key k} w w' \<and> (ok \<longrightarrow> data_at w' k = Some d)"
  proof (cases "FileSync_checkDiskSpace w dest (int (length d))")
    case False
    then show ?thesis using a(7,8) res by (auto simp: transferLargeFileAsync_def)
  next
    case sp: True
    show ?thesis
    proof (cases h)
      case None
      with open_dest_failed [OF a(1)] o a(7,8) res sp show ?thesis
        by (auto simp: transferLargeFileAsync_def)
    next
      case (Some k')
      have o': "open_dest w dest 0 (int (length d)) = (Some k, w1)"
        using o Some open_dest_fresh(1) [OF a(1), of "length d" k' w1] by simp
      obtain cs2 g2 where run: "async_run fs sched dest sk k d w1 = (cs2, g2)" by fastforce
      note i = async_run_inv [OF r o' run]
      note cl = ready_step_cleanup [OF a(1) i(2)]
      note d2 = file_stepD [OF i(2) t(1)]
      have "file_step {progress_key k} (sh_world g2) (snd (sys_remove (sh_world g2) (getProgressFilePath dest)))"
        using d2 t by (intro file_step_remove) auto
      from data_at_frame [OF this d2(1), of k] t(8)
      have "data_at (snd (sys_remove (sh_world g2) (getProgressFilePath dest))) k = data_at (sh_world g2) k"
        by auto
      then show ?thesis
        using transferLargeFileAsync_eq [OF r sp o', of fs sched] run res cl i(3) by (auto split: if_splits)
    qed
  qed
  then show "file_step {k, progress_key k} w w'" "ok \<Longrightarrow> data_at w' k = Some d" by auto
qed

section \<open>Without faults every schedule succeeds\<close>

definition calm_chunk :: "chunk \<Rightarrow> bool" where
  "calm_chunk c \<longleftrightarrow> ch_size c \<le> nat ASYNC_CHUNK_SIZE \<and> ch_pc c \<noteq> PFail \<and> ch_pc c \<noteq> PDone False"

definition calm_shared :: "shared \<Rightarrow> bool" where
  "calm_shared g \<longleftrightarrow> w_script (sh_world g) = [] \<and> \<not> sh_hasError g"

lemma chunk_step_calm:
  assumes j: "job_ok j pk w0 src" and i: "world_inv j pk w0 src (sh_world g) d"
    and c: "chunk_inv src d c" and cc: "calm_chunk c" "calm_shared g" and st: "chunk_step j c g = (c1, g1)"
  shows "calm_chunk c1 \<and> calm_shared g1"
proof (cases "ch_pc c")
  case (PRead buf)
  let ?w = "sh_world g"
  have src: "data_at ?w (jb_src j) = Some src" by (rule world_inv_src [OF j i])
  have "length buf < ch_size c \<Longrightarrow> take (ch_size c - length buf) (drop (ch_offset c + length buf) src) \<noteq> []"
    using c PRead by (auto simp: chunk_inv_def Let_def)
  with st PRead cc src show ?thesis
    by (auto simp: chunk_step_def Let_def calm_chunk_def calm_shared_def sys_pread_def next_ev_nominal read_count_def
        split: if_splits)
next
  case (PWrite buf n)
  with st cc show ?thesis
    by (auto simp: chunk_step_def Let_def calm_chunk_def calm_shared_def sys_pwrite_def next_ev_nominal ev_count_def
        split: if_splits)
next
  case (PSave t)
  with st cc saveProgress_script_le [of "sh_world g" "jb_dest j" t "jb_total j"] show ?thesis
    by (auto simp: chunk_step_def Let_def calm_chunk_def calm_shared_def)
qed (use st cc in \<open>auto simp: chunk_step_def Let_def calm_chunk_def calm_shared_def sleep_ms_def split: if_splits\<close>)

definition calm_par :: "chunk list \<times> shared \<Rightarrow> bool" where
  "calm_par st \<longleftrightarrow> list_all calm_chunk (fst st) \<and> calm_shared (snd st)"

lemma run_schedule_calm:
  assumes j: "job_ok j pk w0 src"
  shows "par_inv j pk w0 src rs st \<Longrightarrow> calm_par st \<Longrightarrow> calm_par (run_schedule j sched st)"
  unfolding run_schedule_def
proof (induction sched arbitrary: st)
  case (Cons i sched)
  obtain cs g where st: "st = (cs, g)" by fastforce
  have "calm_par (step_at j st i)"
  proof (cases "i < length cs")
    case True
    from Cons.prems(1) st obtain d where d: "world_inv j pk w0 src (sh_world g) d" "list_all (chunk_inv src d) cs"
      by (auto simp: par_inv_def)
    obtain c1 g1 where c1: "chunk_step j (cs ! i) g = (c1, g1)" by fastforce
    have "chunk_inv src d (cs ! i)" "calm_chunk (cs ! i)" "calm_shared g"
      using d(2) True Cons.prems(2) st by (auto simp: list_all_length calm_par_def)
    from chunk_step_calm [OF j d(1) this c1] have "calm_chunk c1" "calm_shared g1" by auto
    moreover have "list_all calm_chunk (cs[i := c1])"
      using Cons.prems(2) st \<open>calm_chunk c1\<close> unfolding calm_par_def list_all_iff
      by (metis fst_conv insert_iff set_update_subset_insert subsetD)
    ultimately show ?thesis using st True c1 by (simp add: step_at_def calm_par_def)
  qed (use Cons.prems st in \<open>simp add: step_at_def\<close>)
  from Cons.IH [OF step_at_inv [OF j Cons.prems(1)] this] show ?case by simp
qed simp

lemma run_chunk_calm:
  assumes j: "job_ok j pk w0 src" and i: "world_inv j pk w0 src (sh_world g) d" and c: "chunk_inv src d c"
    and cc: "calm_chunk c" "calm_shared g"
    and r: "run_chunk j c g = (c1, g1)"
  shows "calm_chunk c1 \<and> calm_shared g1"
  using j i c cc r
proof (induction j c g arbitrary: d c1 g1 rule: run_chunk.induct)
  case (1 j c g)
  show ?case
  proof (cases "is_done c")
    case True
    with "1.prems" show ?thesis by (auto simp: run_chunk.simps [of j c])
  next
    case False
    obtain c2 g2 where st: "chunk_step j c g = (c2, g2)" by fastforce
    from chunk_step_inv [OF "1.prems"(1-3) st] obtain d2 where
      d2: "world_inv j pk w0 src (sh_world g2) d2" "chunk_inv src d2 c2" by auto
    from chunk_step_calm [OF "1.prems"(1-5) st] have cc: "calm_chunk c2" "calm_shared g2" by auto
    have "run_chunk j c2 g2 = (c1, g1)" using "1.prems"(6) False st by (simp add: run_chunk.simps [of j c])
    from "1.IH" [OF False st [symmetric] refl "1.prems"(1) d2 cc this] show ?thesis .
  qed
qed

lemma finish_calm:
  assumes j: "job_ok j pk w0 src"
  shows "world_inv j pk w0 src (sh_world g) d \<Longrightarrow> list_all (chunk_inv src d) cs \<Longrightarrow> list_all calm_chunk cs \<Longrightarrow>
    calm_shared g \<Longrightarrow> finish j cs g = (cs1, g1) \<Longrightarrow> list_all calm_chunk cs1 \<and> calm_shared g1"
proof (induction cs arbitrary: g d cs1 g1)
  case (Cons c cs)
  obtain c2 g2 where c2: "run_chunk j c g = (c2, g2)" by fastforce
  obtain cs3 g3 where c3: "finish j cs g2 = (cs3, g3)" by fastforce
  have inv: "chunk_inv src d c" "list_all (chunk_inv src d) cs" "calm_chunk c" "list_all calm_chunk cs"
    using Cons.prems(2,3) by simp_all
  from run_chunk_inv [OF j Cons.prems(1) inv(1) c2] obtain d2
    where d2: "world_inv j pk w0 src (sh_world g2) d2" "grows src d d2" by blast
  have cc: "calm_chunk c2" "calm_shared g2"
    using run_chunk_calm [OF j Cons.prems(1) inv(1,3) Cons.prems(4) c2] by auto
  have "list_all (chunk_inv src d2) cs"
    using inv(2) d2(2) by (auto simp: list_all_iff intro: chunk_inv_grows)
  from Cons.IH [OF d2(1) this inv(4) cc(2) c3] cc(1) c2 c3 Cons.prems(5) show ?case by auto
qed simp

lemma async_run_calm:
  assumes r: "async_ready w src dest sk k d" and o: "open_dest w dest 0 (int (length d)) = (Some k, w1)"
    and sc: "w_script w1 = []" and run: "async_run fs sched dest sk k d w1 = (cs2, g2)"
  shows "list_all (\<lambda>c. ch_pc c = PDone True) cs2 \<and> w_script (sh_world g2) = []"
proof -
  let ?j = "async_job fs dest sk k d" and ?pk = "progress_key k"
  note a = async_readyD [OF r]
  note t = transfer_readyD [OF a(1)]
  note j = async_start(1) [OF r o, of fs]
  let ?cs = "make_chunks (int (length d)) 0"
  let ?g = "\<lparr>sh_world = w1, sh_transferred = 0, sh_hasError = False\<rparr>"
  let ?rs = "map (\<lambda>c. (ch_offset c, ch_size c)) ?cs"
  have pi: "par_inv ?j ?pk w1 d ?rs (?cs, ?g)" by (rule async_start(2) [OF r o])
  have "calm_par (?cs, ?g)"
    using sc make_chunks_start [OF _ a(4)]
    by (auto simp: calm_par_def calm_shared_def calm_chunk_def list_all_iff)
  from run_schedule_calm [OF j pi this, of sched] run_schedule_inv [OF j pi, of sched]
  obtain cs1 g1 dd where c1: "run_schedule ?j sched (?cs, ?g) = (cs1, g1)" and cc: "list_all calm_chunk cs1" "calm_shared g1"
    and dd: "world_inv ?j ?pk w1 d (sh_world g1) dd" "list_all (chunk_inv d dd) cs1"
    by (cases "run_schedule ?j sched (?cs, ?g)") (auto simp: calm_par_def par_inv_def)
  have fin: "finish ?j cs1 g1 = (cs2, g2)" using run c1 by (simp add: async_run_def)
  have "ch_pc c = PDone True" if "calm_chunk c" "is_done c" for c
    using that by (cases "ch_pc c") (auto simp: calm_chunk_def is_done_def)
  with finish_calm [OF j dd cc fin] async_run_inv(1) [OF r o run] show ?thesis
    by (auto simp: list_all_iff calm_shared_def)
qed

lemma transferLargeFileAsync_nominal:
  assumes r: "async_ready w src dest sk k d" and sp: "FileSync_checkDiskSpace w dest (int (length d))"
    and sc: "w_script w = []"
  shows "\<exists>w'. transferLargeFileAsync fs sched w src dest 0 = (True, w') \<and> data_at w' k = Some d
     \<and> content w' (progress_key k) = None \<and> w_script w' = []"
proof -
  note a = async_readyD [OF r]
  note t = transfer_readyD [OF a(1)]
  from sys_open_w_nominal [OF sc t(4,6), of "0x1A4" True] obtain v
    where v: "sys_open_w w dest 0x1A4 True True = (Some k, v)" "w_script v = []" by auto
  then obtain w1 where o: "open_dest w dest 0 (int (length d)) = (Some k, w1)" "w_script w1 = []"
    by (auto simp: open_dest_def sys_ftruncate_def next_ev_nominal)
  obtain cs2 g2 where run: "async_run fs sched dest sk k d w1 = (cs2, g2)" by fastforce
  note c = async_run_calm [OF r o run]
  let ?w' = "snd (sys_remove (sh_world g2) (getProgressFilePath dest))"
  have eq: "transferLargeFileAsync fs sched w src dest 0 = (True, ?w')"
    using c transferLargeFileAsync_eq [OF r sp o(1), of fs sched] run by simp
  note d2 = file_stepD [OF async_run_inv(2) [OF r o(1) run] t(1)]
  have "content ?w' (progress_key k) = None" "w_script ?w' = []"
    using sys_remove_calm [of "sh_world g2" "getProgressFilePath dest" "progress_key k"] d2 t c
      entries_file [OF world_wf_fs [OF d2(1)], of "progress_key k"]
    by (simp_all add: ev1_def)
  with eq transferLargeFileAsync_facts(2) [OF r eq] show ?thesis by simp
qed

section \<open>A thread on its own is the code of the lambda\<close>

definition chunk_lambda :: "job \<Rightarrow> nat \<Rightarrow> nat \<Rightarrow> shared \<Rightarrow> bool \<times> shared" where
  "chunk_lambda j chunkOffset currentChunkSize g =
     (if sh_hasError g then (False, g)
      else
        (let (ok, w1) = transferChunk (jb_src j) (jb_dst j) (sh_world g) chunkOffset currentChunkSize
                          (nat ASYNC_CHUNK_SIZE)
         in if \<not> ok then (False, g\<lparr>sh_world := w1, sh_hasError := True\<rparr>)
            else
              (let newTransferred = sh_transferred g + int currentChunkSize;
                   w2 = saveProgress w1 (jb_dest j) newTransferred (jb_total j);
                   w3 = (if fsy_speedLimit (jb_fs j) > 0
                         then sleep_ms (currentChunkSize * 1000 div fsy_speedLimit (jb_fs j) div 4) w2 else w2)
               in (True, g\<lparr>sh_world := w3, sh_transferred := newTransferred\<rparr>))))"

lemma run_chunk_fail:
  "run_chunk j (c\<lparr>ch_pc := PFail\<rparr>) g = (c\<lparr>ch_pc := PDone False\<rparr>, g\<lparr>sh_hasError := True\<rparr>)"
  by (simp add: run_chunk.simps chunk_step_def is_done_def)

lemma run_chunk_add:
  "run_chunk j (c\<lparr>ch_pc := PAdd\<rparr>) g =
     (c\<lparr>ch_pc := PDone True\<rparr>,
      (let t = sh_transferred g + int (ch_size c);
           w2 = saveProgress (sh_world g) (jb_dest j) t (jb_total j);
           w3 = (if fsy_speedLimit (jb_fs j) > 0
                 then sleep_ms (ch_size c * 1000 div fsy_speedLimit (jb_fs j) div 4) w2 else w2)
       in g\<lparr>sh_world := w3, sh_transferred := t\<rparr>))"
  by (simp add: run_chunk.simps chunk_step_def is_done_def Let_def)

lemma run_chunk_step: "\<not> is_done c \<Longrightarrow> run_chunk j c g = (let (c1, g1) = chunk_step j c g in run_chunk j c1 g1)"
  by (simp add: run_chunk.simps [of j c])

lemma run_chunk_write:
  "length buf = ch_size c \<Longrightarrow> n \<le> ch_size c \<Longrightarrow>
   run_chunk j (c\<lparr>ch_pc := PWrite buf n\<rparr>) g =
     (case robustPwrite (jb_dst j) (sh_world g) buf (ch_offset c) n of
        (None, w1) \<Rightarrow> run_chunk j (c\<lparr>ch_pc := PFail\<rparr>) (g\<lparr>sh_world := w1\<rparr>)
      | (Some m, w1) \<Rightarrow> run_chunk j (c\<lparr>ch_pc := if m = ch_size c then PAdd else PFail\<rparr>) (g\<lparr>sh_world := w1\<rparr>))"
proof (induction "jb_dst j" "sh_world g" buf "ch_offset c" n arbitrary: g rule: robustPwrite.induct)
  case (1 buf n)
  let ?c = "c\<lparr>ch_pc := PWrite buf n\<rparr>"
  have nd: "\<not> is_done ?c" by (simp add: is_done_def)
  obtain r w1 where r: "sys_pwrite (sh_world g) (jb_dst j) (drop n buf) (ch_offset c + n) = (r, w1)" by fastforce
  have m: "n + m \<le> ch_size c" if "r = WRet m" for m
    using r that "1.prems" by (auto simp: sys_pwrite_def next_ev_eq Let_def ev_count_def split: ev.splits)
  show ?case
  proof (cases "n < length buf")
    case False
    with "1.prems" run_chunk_step [OF nd] show ?thesis
      by (simp add: chunk_step_def robustPwrite.simps [of "jb_dst j"])
  next
    case True
    show ?thesis
    proof (cases r)
      case (WRet m')
      then show ?thesis
        using run_chunk_step [OF nd, of j g] r True "1.prems" m [OF WRet]
          "1.hyps"(1) [of "WRet m'" "g\<lparr>sh_world := w1\<rparr>" m']
        by (cases "m' = 0") (auto simp: chunk_step_def robustPwrite.simps [of "jb_dst j" "sh_world g"]
            split: prod.splits option.splits)
    next
      case WIntr
      then show ?thesis
        using run_chunk_step [OF nd, of j g] r True "1.prems"
          "1.hyps"(2) [of WIntr "g\<lparr>sh_world := w1\<rparr>"]
        by (auto simp: chunk_step_def robustPwrite.simps [of "jb_dst j" "sh_world g"]
            split: prod.splits option.splits)
    next
      case WErr
      then show ?thesis using run_chunk_step [OF nd, of j g] r True
        by (auto simp: chunk_step_def robustPwrite.simps [of "jb_dst j" "sh_world g"]
            split: prod.splits option.splits)
    qed
  qed
qed

lemma run_chunk_read:
  "length buf \<le> ch_size c \<Longrightarrow>
   run_chunk j (c\<lparr>ch_pc := PRead buf\<rparr>) g =
     (case robustPread (jb_src j) (sh_world g) (ch_size c) (ch_offset c) buf of
        (None, w1) \<Rightarrow> run_chunk j (c\<lparr>ch_pc := PFail\<rparr>) (g\<lparr>sh_world := w1\<rparr>)
      | (Some b, w1) \<Rightarrow>
          run_chunk j (c\<lparr>ch_pc := if length b = ch_size c then PWrite b 0 else PFail\<rparr>) (g\<lparr>sh_world := w1\<rparr>))"
proof (induction "jb_src j" "sh_world g" "ch_size c" "ch_offset c" buf arbitrary: g rule: robustPread.induct)
  case (1 buf)
  let ?c = "c\<lparr>ch_pc := PRead buf\<rparr>"
  have nd: "\<not> is_done ?c" by (simp add: is_done_def)
  obtain r w1 where r: "sys_pread (sh_world g) (jb_src j) (ch_size c - length buf) (ch_offset c + length buf) = (r, w1)"
    by fastforce
  note rs = sys_pread_script [OF r]
  show ?case
  proof (cases "length buf < ch_size c")
    case False
    with "1.prems" run_chunk_step [OF nd, of j g] show ?thesis
      by (simp add: chunk_step_def robustPread.simps [of "jb_src j"])
  next
    case True
    show ?thesis
    proof (cases r)
      case (RData bs)
      then show ?thesis
        using run_chunk_step [OF nd, of j g] r True "1.prems" rs
          "1.hyps"(1) [of "RData bs" "g\<lparr>sh_world := w1\<rparr>" bs]
        by (cases "bs = []") (auto simp: chunk_step_def robustPread.simps [of "jb_src j" "sh_world g"]
            split: prod.splits option.splits)
    next
      case RIntr
      then show ?thesis
        using run_chunk_step [OF nd, of j g] r True "1.prems"
          "1.hyps"(2) [of RIntr "g\<lparr>sh_world := w1\<rparr>"]
        by (auto simp: chunk_step_def robustPread.simps [of "jb_src j" "sh_world g"]
            split: prod.splits option.splits)
    next
      case RErr
      then show ?thesis using run_chunk_step [OF nd, of j g] r True
        by (auto simp: chunk_step_def robustPread.simps [of "jb_src j" "sh_world g"]
            split: prod.splits option.splits)
    qed
  qed
qed

lemma run_chunk_lambda:
  assumes "ch_pc c = PStart"
  shows "run_chunk j c g =
    (let (b, g1) = chunk_lambda j (ch_offset c) (ch_size c) g in (c\<lparr>ch_pc := PDone b\<rparr>, g1))"
proof -
  have nd: "\<not> is_done c" using assms by (simp add: is_done_def)
  show ?thesis
  proof (cases "sh_hasError g \<or> nat ASYNC_CHUNK_SIZE < ch_size c")
    case True
    then show ?thesis using assms run_chunk_step [OF nd, of j g]
      by (auto simp: chunk_step_def chunk_lambda_def transferChunk_def run_chunk_fail run_chunk.simps [of j "c\<lparr>ch_pc := PDone False\<rparr>"] is_done_def)
  next
    case False
    then have "run_chunk j c g = run_chunk j (c\<lparr>ch_pc := PRead []\<rparr>) g"
      using assms run_chunk_step [OF nd, of j g] by (simp add: chunk_step_def)
    with False show ?thesis
      using run_chunk_read [of "[]" c j g]
      by (auto simp: run_chunk_write run_chunk_fail run_chunk_add chunk_lambda_def transferChunk_def Let_def
          split: prod.splits option.splits)
  qed
qed

end
