(* ===== verification/LocalSync.thy ===== *)
theory LocalSync
  imports ParallelCopy
begin

text \<open>
  The local half of \<^verbatim>\<open>src/core/FileSync.cpp\<close>: scanning two trees (\<^verbatim>\<open>collectMetadata\<close>), turning
  the difference into tasks (\<^verbatim>\<open>compareMetadata\<close>, \<^verbatim>\<open>needSync\<close>, \<^verbatim>\<open>detectChanges\<close>), and executing
  them (\<^verbatim>\<open>syncDirectory\<close>, \<^verbatim>\<open>syncFile\<close>, \<^verbatim>\<open>executeSyncTask\<close>, \<^verbatim>\<open>syncLocal\<close>).  A
  \<^verbatim>\<open>std::unordered_map\<close> is an association list with distinct keys; the order in which it is iterated
  is the parameter \<open>ord\<close>, any function that permutes its argument.
\<close>

section \<open>Data\<close>

record FileMetadata =
  fm_path :: string
  fm_size :: off_t
  fm_mtime :: time_t
  fm_mode :: mode_t
  fm_md5 :: string

record SyncTask =
  tk_srcPath :: string
  tk_destPath :: string
  tk_isDirectory :: bool
  tk_mode :: mode_t

type_synonym meta_map = "(string \<times> FileMetadata) list"

section \<open>Scanning a tree\<close>

definition FileSync_calculateFileMD5 :: "'c md5_api \<Rightarrow> world \<Rightarrow> string \<Rightarrow> string \<times> world" where
  "FileSync_calculateFileMD5 M w path = calculateMD5 M w path"

text \<open>\<^verbatim>\<open>insert(first, last)\<close> keeps the entries that are there.\<close>

definition map_insert_all :: "meta_map \<Rightarrow> meta_map \<Rightarrow> meta_map" where
  "map_insert_all sub m = m @ filter (\<lambda>(k, _). map_of m k = None) sub"

text \<open>The body of the loop, for one entry of the directory; \<open>rec\<close> is the recursive call.\<close>

definition collect_entry ::
    "'c md5_api \<Rightarrow> (world \<Rightarrow> string \<Rightarrow> (meta_map \<times> world) option) \<Rightarrow> string \<Rightarrow> meta_map \<times> world \<Rightarrow>
     (meta_map \<times> world) option" where
  "collect_entry M rec path mw =
     (let (metadataMap, w) = mw in
      case getFileStat w path of
        None \<Rightarrow> Some (metadataMap, w)
      | Some statbuf \<Rightarrow>
          (let (md5, w1) = (if S_ISREG (st_mode statbuf) then calculateMD5 M w path else ([], w));
               meta = \<lparr>fm_path = path, fm_size = st_size statbuf, fm_mtime = st_mtime statbuf,
                       fm_mode = st_mode statbuf, fm_md5 = md5\<rparr>;
               metadataMap1 = AList.update path meta metadataMap
           in if S_ISDIR (st_mode statbuf) then
                (case rec w1 path of
                   None \<Rightarrow> None
                 | Some (subMetadata, w2) \<Rightarrow> Some (map_insert_all subMetadata metadataMap1, w2))
              else Some (metadataMap1, w1)))"

fun collect_entries ::
    "(string \<Rightarrow> meta_map \<times> world \<Rightarrow> (meta_map \<times> world) option) \<Rightarrow> string list \<Rightarrow> meta_map \<times> world \<Rightarrow>
     (meta_map \<times> world) option" where
  "collect_entries f [] mw = Some mw"
| "collect_entries f (path # files) mw =
     (case f path mw of None \<Rightarrow> None | Some mw1 \<Rightarrow> collect_entries f files mw1)"

text \<open>The first argument bounds the depth of the recursion; \<^term>\<open>None\<close> means it was too small.\<close>

primrec collectMetadata :: "nat \<Rightarrow> 'c md5_api \<Rightarrow> world \<Rightarrow> string \<Rightarrow> (meta_map \<times> world) option" where
  "collectMetadata 0 M w directory = None"
| "collectMetadata (Suc n) M w directory =
     collect_entries (collect_entry M (collectMetadata n M)) (listDirectory w directory) ([], w)"

section \<open>Comparing two trees\<close>

definition needSync :: "FileMetadata \<Rightarrow> FileMetadata \<Rightarrow> bool" where
  "needSync srcMeta destMeta =
     (if S_ISREG (fm_mode srcMeta) \<noteq> S_ISREG (fm_mode destMeta) then True
      else if fm_size srcMeta \<noteq> fm_size destMeta \<or> fm_mtime srcMeta \<noteq> fm_mtime destMeta then True
      else if S_ISREG (fm_mode srcMeta) then fm_md5 srcMeta \<noteq> fm_md5 destMeta
      else False)"

definition make_task :: "string \<Rightarrow> string \<Rightarrow> FileMetadata \<Rightarrow> SyncTask" where
  "make_task srcPath destPath srcMeta =
     \<lparr>tk_srcPath = srcPath, tk_destPath = destPath, tk_isDirectory = S_ISDIR (fm_mode srcMeta),
      tk_mode = fm_mode srcMeta\<rparr>"

fun compareMetadata ::
    "(meta_map \<Rightarrow> meta_map) \<Rightarrow> meta_map \<Rightarrow> meta_map \<Rightarrow> string \<Rightarrow> string \<Rightarrow> SyncTask list" where
  "compareMetadata ord srcMetadata destMetadata srcDir destDir =
     concat (map (\<lambda>(srcPath, srcMeta).
       let destPath = destDir @ drop (length srcDir) srcPath
       in case map_of destMetadata destPath of
            None \<Rightarrow> [make_task srcPath destPath srcMeta]
          | Some destMeta \<Rightarrow>
              if needSync srcMeta destMeta then [make_task srcPath destPath srcMeta] else [])
       (ord srcMetadata))"

definition detectChanges ::
    "nat \<Rightarrow> 'c md5_api \<Rightarrow> (meta_map \<Rightarrow> meta_map) \<Rightarrow> world \<Rightarrow> string \<Rightarrow> string \<Rightarrow> (SyncTask list \<times> world) option" where
  "detectChanges fuel M ord w srcDir destDir =
     (case collectMetadata fuel M w srcDir of
        None \<Rightarrow> None
      | Some (srcMetadata, w1) \<Rightarrow>
          (case collectMetadata fuel M w1 destDir of
             None \<Rightarrow> None
           | Some (destMetadata, w2) \<Rightarrow> Some (compareMetadata ord srcMetadata destMetadata srcDir destDir, w2)))"

section \<open>Executing tasks\<close>

definition syncDirectory :: "world \<Rightarrow> string \<Rightarrow> string \<Rightarrow> mode_t \<Rightarrow> bool \<times> world" where
  "syncDirectory w srcPath destPath mode =
     (let (ok, w1) = createDirectory w destPath 0x1ED in
      if \<not> ok then (False, w1)
      else
        (let (ok2, w2) = setFileMode w1 destPath mode in
         if \<not> ok2 then (False, w2) else (True, w2)))"

text \<open>The part of \<^verbatim>\<open>syncFile\<close> after the resume attempt: the parallel copy for a large file when there is
  a thread pool, the sequential copy otherwise or when that fails.\<close>

definition syncFile_copy :: "FileSync \<Rightarrow> nat list \<Rightarrow> world \<Rightarrow> string \<Rightarrow> string \<Rightarrow> mode_t \<Rightarrow> bool \<times> world" where
  "syncFile_copy fs sched w srcPath destPath mode =
     (let useAsync = (case getFileStat w srcPath of
                        None \<Rightarrow> False
                      | Some statbuf \<Rightarrow> st_size statbuf \<ge> LARGE_FILE_THRESHOLD \<and> fsy_threadPool fs);
          (asyncDone, w1) = (if useAsync then transferLargeFileAsync fs sched w srcPath destPath 0 else (False, w))
      in if asyncDone then (True, snd (setFileMode w1 destPath mode))
         else
           (let w2 = (if useAsync then cleanupCorruptedFile w1 destPath else w1);
                (ok, w3) = transferFile fs w2 srcPath destPath 0
            in if ok then (True, snd (setFileMode w3 destPath mode))
               else (False, cleanupCorruptedFile w3 destPath)))"

definition syncFile_resume :: "FileSync \<Rightarrow> nat list \<Rightarrow> world \<Rightarrow> string \<Rightarrow> string \<Rightarrow> mode_t \<Rightarrow> bool \<times> world" where
  "syncFile_resume fs sched w srcPath destPath mode =
     (let (progress, w1) = loadProgress w destPath in
      if sp_offset progress > 0 \<and> sp_totalSize progress > 0 then
        (let (resumeOk, w2) = transferFile fs w1 srcPath destPath (sp_offset progress) in
         if resumeOk then
           (True, snd (setFileMode (snd (sys_remove w2 (getProgressFilePath destPath))) destPath mode))
         else syncFile_copy fs sched w2 srcPath destPath mode)
      else syncFile_copy fs sched w1 srcPath destPath mode)"

definition syncFile :: "FileSync \<Rightarrow> nat list \<Rightarrow> world \<Rightarrow> string \<Rightarrow> string \<Rightarrow> mode_t \<Rightarrow> bool \<times> world" where
  "syncFile fs sched w srcPath destPath mode =
     (if \<not> fileExists w srcPath then (False, w)
      else
        (let (ok, w1) = (case find_last_of (CHR ''/'') destPath of
                           None \<Rightarrow> (True, w)
                         | Some lastSlash \<Rightarrow> createDirectory w (take lastSlash destPath) 0x1ED)
         in if \<not> ok then (False, w1)
            else
              (let (ok2, w2) = (if fileExists w1 destPath then handleConflict fs w1 srcPath destPath else (True, w1))
               in if \<not> ok2 then (False, w2) else syncFile_resume fs sched w2 srcPath destPath mode)))"

definition executeSyncTask :: "FileSync \<Rightarrow> nat list \<Rightarrow> world \<Rightarrow> SyncTask \<Rightarrow> bool \<times> world" where
  "executeSyncTask fs sched w task =
     (if tk_isDirectory task then syncDirectory w (tk_srcPath task) (tk_destPath task) (tk_mode task)
      else syncFile fs sched w (tk_srcPath task) (tk_destPath task) (tk_mode task))"

fun execute_tasks :: "FileSync \<Rightarrow> nat list \<Rightarrow> world \<Rightarrow> SyncTask list \<Rightarrow> bool \<times> world" where
  "execute_tasks fs sched w [] = (True, w)"
| "execute_tasks fs sched w (task # tasks) =
     (let (ok, w1) = executeSyncTask fs sched w task in
      if \<not> ok then (False, w1) else execute_tasks fs sched w1 tasks)"

text \<open>The argument \<^verbatim>\<open>recursive\<close> is not used by the code.\<close>

definition syncLocal ::
    "nat \<Rightarrow> 'c md5_api \<Rightarrow> (meta_map \<Rightarrow> meta_map) \<Rightarrow> FileSync \<Rightarrow> nat list \<Rightarrow> world \<Rightarrow> string \<Rightarrow> string \<Rightarrow> bool \<Rightarrow>
     (bool \<times> world) option" where
  "syncLocal fuel M ord fs sched w srcDir destDir recursive =
     (let (ok, w1) = createDirectory w destDir 0x1ED in
      if \<not> ok then Some (False, w1)
      else case detectChanges fuel M ord w1 srcDir destDir of
        None \<Rightarrow> None
      | Some (tasks, w2) \<Rightarrow> Some (execute_tasks fs sched w2 tasks))"

text \<open>An existing destination under the strategy \<^verbatim>\<open>skip\<close>.\<close>

lemma fileExists_dirs_added:
  "fileExists w p \<Longrightarrow> dirs_added w w' \<Longrightarrow> fileExists w' p"
  using dirs_added_resolve dirs_added_content by (fastforce simp: fileExists_content)

lemma syncFile_skip:
  assumes "fsy_conflictStrategy fs = ''skip''" "fileExists w dest"
  shows "fst (syncFile fs sched w src dest mode) = False \<and> dirs_added w (snd (syncFile fs sched w src dest mode))"
proof (cases "fileExists w src")
  case True
  obtain ok w1 where o: "(case find_last_of (CHR ''/'') dest of
      None \<Rightarrow> (True, w) | Some lastSlash \<Rightarrow> createDirectory w (take lastSlash dest) 0x1ED) = (ok, w1)" by fastforce
  have "dirs_added w w1"
    using o createDirectory_dirs_added [of w _ "0x1ED"]
    by (auto split: option.splits) (metis snd_conv)
  with fileExists_dirs_added [OF assms(2) this] True assms(1) o show ?thesis
    by (cases ok) (simp_all add: syncFile_def handleConflict_def)
qed (simp add: syncFile_def)

section \<open>Path names below a directory\<close>

definition join :: "string \<Rightarrow> string list \<Rightarrow> string" where
  "join dir rel = dir @ concat (map (\<lambda>n. CHR ''/'' # n) rel)"

lemma join_simps [simp]:
  "join dir [] = dir" "join dir (n # rel) = join (dir @ ''/'' @ n) rel"
  "join dir (rel @ [n]) = join dir rel @ ''/'' @ n"
  by (simp_all add: join_def)

lemma drop_join [simp]: "drop (length dir) (join dir rel) = concat (map (\<lambda>n. CHR ''/'' # n) rel)"
  by (simp add: join_def)

definition plain_names :: "string list \<Rightarrow> bool" where
  "plain_names rel \<longleftrightarrow> list_all valid_name rel"

lemma split_slash_join: "plain_names rel \<Longrightarrow> split_slash (join dir rel) = split_slash dir @ rel"
proof (induction rel rule: rev_induct)
  case (snoc n rel)
  then have "split_slash n = [n]" by (intro split_slash_plain) (simp add: plain_names_def valid_name_def)
  with snoc show ?case by (simp add: split_slash_append plain_names_def)
qed simp

lemma join_inject:
  "plain_names rel \<Longrightarrow> plain_names rel' \<Longrightarrow> join dir rel = join dir rel' \<longleftrightarrow> rel = rel'"
  using split_slash_join [of rel dir] split_slash_join [of rel' dir] by (metis same_append_eq)

lemma fs_wf_below:
  assumes wf: "fs_wf fs"
  shows "map_of fs (k @ rel) = Some i \<Longrightarrow> rel \<noteq> [] \<Longrightarrow> is_dir fs k \<and> plain_names rel"
proof (induction rel arbitrary: i rule: rev_induct)
  case (snoc n rel)
  from fs_wf_good_slot [OF wf snoc.prems(1)] have g: "is_dir fs (k @ rel)" "valid_name n"
    by (auto simp: good_slot_def simp flip: append_assoc)
  from g(1) obtain j where j: "map_of fs (k @ rel) = Some j" by (auto dest: is_dir_dom)
  show ?case
  proof (cases "rel = []")
    case True
    with g show ?thesis by (simp add: plain_names_def)
  next
    case False
    from snoc.IH [OF j False] g(2) show ?thesis by (simp add: plain_names_def)
  qed
qed simp

text \<open>A name of a directory: it resolves to one, and it has no NUL byte.\<close>

definition dir_at :: "world \<Rightarrow> string \<Rightarrow> fpath \<Rightarrow> bool" where
  "dir_at w dir k \<longleftrightarrow> resolve w dir = Some k \<and> is_dir (w_fs w) k \<and> CHR 0x00 \<notin> set dir"

lemma resolve_child:
  assumes "dir_at w dir k" "valid_name n"
  shows "resolve w (dir @ ''/'' @ n) = Some (k @ [n])"
proof -
  from assms have d: "dir \<noteq> []" "cstr dir = dir" "walk (w_fs w) (path_start w dir) (split_slash dir) = Some k"
    by (auto simp: dir_at_def resolve_def Let_def cstr_id split: if_splits)
  have c: "cstr (dir @ ''/'' @ n) = dir @ ''/'' @ n"
    using assms by (auto simp: cstr_id dir_at_def valid_name_def)
  have s: "split_slash (dir @ ''/'' @ n) = split_slash dir @ [n]"
    using assms(2) by (simp add: split_slash_append split_slash_plain valid_name_def)
  have "path_start w (dir @ ''/'' @ n) = path_start w dir" using d(1) by (simp add: path_start_def)
  with d c s assms show ?thesis
    by (simp add: resolve_def Let_def walk_snoc dir_at_def valid_name_def)
qed

lemma resolve_join:
  assumes wf: "fs_wf (w_fs w)"
  shows "dir_at w dir k \<Longrightarrow> map_of (w_fs w) (k @ rel) = Some i \<Longrightarrow> resolve w (join dir rel) = Some (k @ rel)"
proof (induction rel arbitrary: dir k)
  case (Cons n rel)
  have v: "valid_name n" using fs_wf_below [OF wf Cons.prems(2)] by (simp add: plain_names_def)
  note r = resolve_child [OF Cons.prems(1) v]
  show ?case
  proof (cases "rel = []")
    case True
    with r show ?thesis by simp
  next
    case False
    have "is_dir (w_fs w) (k @ [n])" using fs_wf_below [OF wf, of "k @ [n]" rel i] Cons.prems(2) False by simp
    with r Cons.prems(1) v have "dir_at w (dir @ ''/'' @ n) (k @ [n])"
      by (auto simp: dir_at_def valid_name_def)
    from Cons.IH [OF this] Cons.prems(2) show ?thesis by simp
  qed
qed (simp add: dir_at_def)

section \<open>What a scan finds\<close>

lemma md5_loop_nominal: "w_script w = [] \<Longrightarrow> snd (md5_loop M w f ctx) = w"
proof (induction M w f ctx rule: md5_loop.induct)
  case (1 M w f ctx)
  then show ?case
    by (subst md5_loop.simps) (auto simp: ifs_read_def next_ev_nominal Let_def split: if_splits)
qed

lemma calculateMD5_nominal: "w_script w = [] \<Longrightarrow> calculateMD5 M w p = (fst (calculateMD5 M w p), w)"
  using md5_loop_nominal [of w M] by (auto simp: calculateMD5_def split: option.splits prod.splits) (metis snd_conv)

definition meta_of :: "'c md5_api \<Rightarrow> world \<Rightarrow> string \<Rightarrow> fpath \<Rightarrow> inode \<Rightarrow> FileMetadata" where
  "meta_of M w p k i =
     \<lparr>fm_path = p, fm_size = st_size (stat_of w k i), fm_mtime = i_mtime i, fm_mode = i_mode i,
      fm_md5 = (if S_ISREG (i_mode i) then fst (calculateMD5 M w p) else [])\<rparr>"

text \<open>The entries below \<open>k\<close> whose first name is in \<open>A\<close>, under their path names.\<close>

definition found :: "'c md5_api \<Rightarrow> world \<Rightarrow> string \<Rightarrow> fpath \<Rightarrow> string set \<Rightarrow> string \<Rightarrow> FileMetadata \<Rightarrow> bool" where
  "found M w dir k A p meta \<longleftrightarrow>
     (\<exists>rel i. rel \<noteq> [] \<and> hd rel \<in> A \<and> p = join dir rel \<and> map_of (w_fs w) (k @ rel) = Some i
        \<and> meta = meta_of M w p (k @ rel) i)"

definition scanned :: "'c md5_api \<Rightarrow> world \<Rightarrow> string \<Rightarrow> fpath \<Rightarrow> string set \<Rightarrow> meta_map \<Rightarrow> bool" where
  "scanned M w dir k A m \<longleftrightarrow> distinct (map fst m) \<and> (\<forall>p meta. map_of m p = Some meta \<longleftrightarrow> found M w dir k A p meta)"

lemma map_of_map_insert_all:
  "map_of (map_insert_all sub m) p = (case map_of m p of Some v \<Rightarrow> Some v | None \<Rightarrow> map_of sub p)"
proof -
  have "map_of (filter (\<lambda>(k, _). map_of m k = None) xs) p = (if map_of m p = None then map_of xs p else None)" for xs
    by (induction xs) auto
  then show ?thesis by (auto simp: map_insert_all_def map_add_def split: option.splits)
qed

lemma distinct_map_insert_all:
  "distinct (map fst m) \<Longrightarrow> distinct (map fst sub) \<Longrightarrow> distinct (map fst (map_insert_all sub m))"
  by (auto simp: map_insert_all_def distinct_map_filter map_of_eq_None_iff rev_image_eqI)

lemma scanned_empty: "scanned M w dir k {} []"
  by (simp add: scanned_def found_def)

lemma found_child:
  assumes wf: "fs_wf (w_fs w)" and i: "map_of (w_fs w) (k @ [n]) = Some i"
  shows "found M w dir k {n} p meta \<longleftrightarrow>
    p = dir @ ''/'' @ n \<and> meta = meta_of M w p (k @ [n]) i
    \<or> S_ISDIR (i_mode i) \<and> found M w (dir @ ''/'' @ n) (k @ [n]) UNIV p meta" (is "_ \<longleftrightarrow> ?r")
proof
  assume "found M w dir k {n} p meta"
  then obtain rel j where r: "p = join dir (n # rel)" "map_of (w_fs w) (k @ n # rel) = Some j"
    "meta = meta_of M w p (k @ n # rel) j"
    by (auto simp: found_def neq_Nil_conv)
  show ?r
  proof (cases "rel = []")
    case True
    with r i show ?thesis by simp
  next
    case False
    have "is_dir (w_fs w) (k @ [n])" using fs_wf_below [OF wf, of "k @ [n]" rel j] r(2) False by simp
    with i have "S_ISDIR (i_mode i)" by (simp add: is_dir_at)
    with r False show ?thesis by (auto simp: found_def)
  qed
next
  assume ?r
  then show "found M w dir k {n} p meta"
  proof
    assume "p = dir @ ''/'' @ n \<and> meta = meta_of M w p (k @ [n]) i"
    with i show ?thesis unfolding found_def by (intro exI [of _ "[n]"] exI [of _ i]) simp
  next
    assume "S_ISDIR (i_mode i) \<and> found M w (dir @ ''/'' @ n) (k @ [n]) UNIV p meta"
    then obtain rel j where "p = join dir (n # rel)" "map_of (w_fs w) (k @ n # rel) = Some j"
      "meta = meta_of M w p (k @ n # rel) j" by (auto simp: found_def)
    then show ?thesis unfolding found_def by (intro exI [of _ "n # rel"] exI [of _ j]) auto
  qed
qed

lemma found_union: "found M w dir k (A \<union> B) p meta \<longleftrightarrow> found M w dir k A p meta \<or> found M w dir k B p meta"
  by (auto simp: found_def)

lemma found_disjoint:
  assumes wf: "fs_wf (w_fs w)" and "found M w dir k A p m1" "found M w dir k B p m2" "A \<inter> B = {}"
  shows False
proof -
  obtain rel i rel' i' where r: "rel \<noteq> []" "hd rel \<in> A" "p = join dir rel" "map_of (w_fs w) (k @ rel) = Some i"
    "rel' \<noteq> []" "hd rel' \<in> B" "p = join dir rel'" "map_of (w_fs w) (k @ rel') = Some i'"
    using assms(2,3) by (auto simp: found_def)
  then have "rel = rel'" using fs_wf_below [OF wf] join_inject [of rel rel' dir] by metis
  with r assms(4) show False by auto
qed

lemma found_unique:
  assumes wf: "fs_wf (w_fs w)" and "found M w dir k A p m1" "found M w dir k A p m2"
  shows "m1 = m2"
proof -
  obtain rel i rel' i' where r: "rel \<noteq> []" "p = join dir rel" "map_of (w_fs w) (k @ rel) = Some i"
    "rel' \<noteq> []" "p = join dir rel'" "map_of (w_fs w) (k @ rel') = Some i'"
    "m1 = meta_of M w p (k @ rel) i" "m2 = meta_of M w p (k @ rel') i'"
    using assms(2,3) by (auto simp: found_def)
  then have "rel = rel'" using fs_wf_below [OF wf] join_inject [of rel rel' dir] by metis
  with r show ?thesis by auto
qed

lemma collect_entry_scanned:
  assumes wf: "fs_wf (w_fs w)" and sc: "w_script w = []" and d: "dir_at w dir k"
    and n: "n \<notin> A" and i: "map_of (w_fs w) (k @ [n]) = Some i" and m: "scanned M w dir k A m"
    and rec: "S_ISDIR (i_mode i) \<Longrightarrow> \<exists>sub. rec w (dir @ ''/'' @ n) = Some (sub, w)
        \<and> scanned M w (dir @ ''/'' @ n) (k @ [n]) UNIV sub"
  shows "\<exists>m'. collect_entry M rec (dir @ ''/'' @ n) (m, w) = Some (m', w) \<and> scanned M w dir k (insert n A) m'"
proof -
  let ?p = "dir @ ''/'' @ n" and ?me = "meta_of M w (dir @ ''/'' @ n) (k @ [n]) i"
  have v: "valid_name n" using fs_wf_below [OF wf i] by (simp add: plain_names_def)
  have st: "getFileStat w ?p = Some (stat_of w (k @ [n]) i)"
    using resolve_child [OF d v] i by (simp add: getFileStat_def sys_stat_def)
  have fresh: "map_of m q = None" if "found M w dir k {n} q x" for q x
  proof (rule ccontr)
    assume "map_of m q \<noteq> None"
    then obtain y where "found M w dir k A q y" using m by (auto simp: scanned_def)
    from found_disjoint [OF wf this that] n show False by auto
  qed
  let ?m1 = "AList.update ?p ?me m"
  have dm: "distinct (map fst ?m1)" using m by (simp add: scanned_def distinct_update)
  have fme: "found M w dir k {n} ?p ?me" using found_child [OF wf i] by blast
  have ce: "collect_entry M rec ?p (m, w) =
      (if S_ISDIR (i_mode i) then (case rec w ?p of None \<Rightarrow> None | Some (sub, w2) \<Rightarrow> Some (map_insert_all sub ?m1, w2))
       else Some (?m1, w))"
    using st calculateMD5_nominal [OF sc, of M ?p]
    by (cases "calculateMD5 M w ?p") (auto simp: collect_entry_def meta_of_def stat_of_def Let_def split: option.splits prod.splits)
  have ins: "insert n A = A \<union> {n}" by simp
  have old: "map_of m p = Some x \<longleftrightarrow> found M w dir k A p x" for p x using m by (simp add: scanned_def)
  have nf: "\<not> found M w dir k A ?p x" for x using old [of ?p x] fresh [OF fme] by simp
  show ?thesis
  proof (cases "S_ISDIR (i_mode i)")
    case False
    have "scanned M w dir k (insert n A) ?m1"
      unfolding scanned_def ins found_union found_child [OF wf i]
      using dm False old nf by (auto simp: update_conv')
    with ce False show ?thesis by auto
  next
    case True
    from rec [OF True] obtain sub where sub: "rec w ?p = Some (sub, w)" "scanned M w ?p (k @ [n]) UNIV sub" by blast
    then have subm: "map_of sub p = Some x \<longleftrightarrow> found M w ?p (k @ [n]) UNIV p x" for p x
      by (simp add: scanned_def)
    have nsub: "map_of sub p = Some x \<Longrightarrow> map_of m p = None" for p x
      using fresh found_child [OF wf i] subm True by blast
    have psub: "map_of sub ?p = None"
    proof (rule ccontr)
      assume "map_of sub ?p \<noteq> None"
      then obtain rel j where "rel \<noteq> []" "?p = join ?p rel" using subm by (auto simp: found_def)
      then show False by (auto simp: join_def neq_Nil_conv)
    qed
    have "map_of (map_insert_all sub ?m1) p = Some x \<longleftrightarrow>
        found M w dir k A p x \<or> p = ?p \<and> x = ?me \<or> found M w ?p (k @ [n]) UNIV p x" for p x
      using old [of p x] subm [of p x] nsub [of p] psub fresh [OF fme]
      by (auto simp: map_of_map_insert_all update_conv' split: option.splits)
    then have "scanned M w dir k (insert n A) (map_insert_all sub ?m1)"
      unfolding scanned_def ins found_union found_child [OF wf i]
      using dm True sub(2) by (auto simp: scanned_def intro: distinct_map_insert_all)
    with ce True sub(1) show ?thesis by auto
  qed
qed

lemma collect_entries_scanned:
  assumes wf: "fs_wf (w_fs w)" and sc: "w_script w = []" and d: "dir_at w dir k"
    and rec: "\<And>n i. map_of (w_fs w) (k @ [n]) = Some i \<Longrightarrow> S_ISDIR (i_mode i) \<Longrightarrow>
        \<exists>sub. rec w (dir @ ''/'' @ n) = Some (sub, w) \<and> scanned M w (dir @ ''/'' @ n) (k @ [n]) UNIV sub"
  shows "distinct ns \<Longrightarrow> A \<inter> set ns = {} \<Longrightarrow> (\<And>n. n \<in> set ns \<Longrightarrow> map_of (w_fs w) (k @ [n]) \<noteq> None) \<Longrightarrow>
    scanned M w dir k A m \<Longrightarrow>
    \<exists>m'. collect_entries (collect_entry M rec) (map (\<lambda>n. dir @ ''/'' @ n) ns) (m, w) = Some (m', w)
      \<and> scanned M w dir k (A \<union> set ns) m'"
proof (induction ns arbitrary: A m)
  case (Cons n ns)
  from Cons.prems obtain i where i: "map_of (w_fs w) (k @ [n]) = Some i" by (metis list.set_intros(1) not_Some_eq)
  have "n \<notin> A" using Cons.prems(2) by auto
  from collect_entry_scanned [where rec = rec, OF wf sc d this i Cons.prems(4) rec [OF i]] obtain m1
    where m1: "collect_entry M rec (dir @ ''/'' @ n) (m, w) = Some (m1, w)" "scanned M w dir k (insert n A) m1" by blast
  have "\<exists>m'. collect_entries (collect_entry M rec) (map (\<lambda>n. dir @ ''/'' @ n) ns) (m1, w) = Some (m', w)
      \<and> scanned M w dir k (insert n A \<union> set ns) m'"
    using Cons.prems by (intro Cons.IH m1(2)) auto
  with m1(1) show ?case by auto
qed simp

text \<open>The names of a directory in a well-formed tree.\<close>

lemma entries_props:
  assumes wf: "fs_wf (w_fs w)" and d: "is_dir (w_fs w) k"
  shows "distinct (entries (w_fs w) k)" "n \<in> set (entries (w_fs w) k) \<longleftrightarrow> map_of (w_fs w) (k @ [n]) \<noteq> None"
proof -
  let ?ps = "filter (\<lambda>p. p \<noteq> [] \<and> butlast p = k) (map fst (w_fs w))"
  have "inj_on last (set ?ps)" by (auto simp: inj_on_def) (metis append_butlast_last_id)
  moreover have "distinct ?ps" using wf by (simp add: fs_wf_def)
  ultimately show "distinct (entries (w_fs w) k)" unfolding entries_def by (simp add: distinct_map)
  have "n \<in> set (entries (w_fs w) k) \<longleftrightarrow> (\<exists>p\<in>fst ` set (w_fs w). p \<noteq> [] \<and> butlast p = k \<and> last p = n)"
    by (auto simp: entries_def)
  also have "\<dots> \<longleftrightarrow> k @ [n] \<in> fst ` set (w_fs w)"
    by (metis append_butlast_last_id butlast_snoc last_snoc snoc_eq_iff_butlast)
  finally show "n \<in> set (entries (w_fs w) k) \<longleftrightarrow> map_of (w_fs w) (k @ [n]) \<noteq> None"
    by (simp add: map_of_eq_None_iff)
qed

lemma listDirectory_children:
  assumes wf: "fs_wf (w_fs w)" and d: "dir_at w dir k"
  shows "\<exists>ns. listDirectory w dir = map (\<lambda>n. dir @ ''/'' @ n) ns \<and> distinct ns
     \<and> set ns = {n. map_of (w_fs w) (k @ [n]) \<noteq> None}"
proof -
  let ?ns = "entries (w_fs w) k"
  have k: "is_dir (w_fs w) k" using d by (simp add: dir_at_def)
  note e = entries_props [OF wf k]
  have "n \<noteq> ''.'' \<and> n \<noteq> ''..''" if "n \<in> set ?ns" for n
    using that fs_wf_below [OF wf, of k "[n]"] by (auto simp: e(2) plain_names_def valid_name_def)
  then have "listDirectory w dir = map (\<lambda>n. dir @ ''/'' @ n) ?ns"
    using d k by (simp add: listDirectory_def sys_opendir_def dir_at_def)
  with e show ?thesis by blast
qed

text \<open>Enough fuel for the scan of \<open>k\<close>: more than the depth of the tree below it.\<close>

definition deep_enough :: "nat \<Rightarrow> world \<Rightarrow> fpath \<Rightarrow> bool" where
  "deep_enough fuel w k \<longleftrightarrow> (\<forall>rel. map_of (w_fs w) (k @ rel) \<noteq> None \<longrightarrow> length rel < fuel)"

lemma collectMetadata_scanned:
  assumes wf: "fs_wf (w_fs w)" and sc: "w_script w = []"
  shows "dir_at w dir k \<Longrightarrow> deep_enough fuel w k \<Longrightarrow>
    \<exists>m. collectMetadata fuel M w dir = Some (m, w) \<and> scanned M w dir k UNIV m"
proof (induction fuel arbitrary: dir k)
  case 0
  then obtain i where "map_of (w_fs w) (k @ []) = Some i" by (auto simp: dir_at_def dest: is_dir_dom)
  with 0 show ?case by (auto simp: deep_enough_def dest: spec [of _ "[]"])
next
  case (Suc n)
  obtain ns where ns: "listDirectory w dir = map (\<lambda>n. dir @ ''/'' @ n) ns" "distinct ns"
    "set ns = {n. map_of (w_fs w) (k @ [n]) \<noteq> None}"
    using listDirectory_children [OF wf Suc.prems(1)] by blast
  have rec: "\<exists>sub. collectMetadata n M w (dir @ ''/'' @ a) = Some (sub, w) \<and> scanned M w (dir @ ''/'' @ a) (k @ [a]) UNIV sub"
    if i: "map_of (w_fs w) (k @ [a]) = Some i" "S_ISDIR (i_mode i)" for a i
  proof (rule Suc.IH)
    have v: "valid_name a" using fs_wf_below [OF wf i(1)] by (simp add: plain_names_def)
    with resolve_child [OF Suc.prems(1) v] i Suc.prems(1) show "dir_at w (dir @ ''/'' @ a) (k @ [a])"
      by (auto simp: dir_at_def valid_name_def is_dir_at)
    show "deep_enough n w (k @ [a])"
      using Suc.prems(2) by (auto simp: deep_enough_def)
  qed
  have "\<exists>m. collect_entries (collect_entry M (collectMetadata n M)) (map (\<lambda>n. dir @ ''/'' @ n) ns) ([], w) = Some (m, w)
      \<and> scanned M w dir k ({} \<union> set ns) m"
    using ns by (intro collect_entries_scanned [where rec = "collectMetadata n M", OF wf sc Suc.prems(1) rec] scanned_empty) auto
  then obtain m where m: "collectMetadata (Suc n) M w dir = Some (m, w)" "scanned M w dir k (set ns) m"
    using ns(1) by auto
  have "found M w dir k (set ns) p x \<longleftrightarrow> found M w dir k UNIV p x" for p x
  proof
    assume "found M w dir k UNIV p x"
    then obtain a rel i where r: "p = join dir (a # rel)" "map_of (w_fs w) (k @ a # rel) = Some i"
      "x = meta_of M w p (k @ a # rel) i" by (auto simp: found_def neq_Nil_conv)
    have "map_of (w_fs w) (k @ [a]) \<noteq> None"
      using fs_wf_below [OF wf, of "k @ [a]" rel i] r(2) by (cases "rel = []") (auto dest: is_dir_dom)
    with r ns(3) show "found M w dir k (set ns) p x"
      unfolding found_def by (intro exI [of _ "a # rel"] exI [of _ i]) auto
  qed (auto simp: found_def)
  with m show ?case by (auto simp: scanned_def)
qed

section \<open>Which tasks a comparison yields\<close>

lemma scanned_lookup:
  assumes wf: "fs_wf (w_fs w)" and m: "scanned M w dir k UNIV m" and rel: "rel \<noteq> []" "plain_names rel"
  shows "map_of m (join dir rel) = map_option (meta_of M w (join dir rel) (k @ rel)) (map_of (w_fs w) (k @ rel))"
proof -
  have "map_of m (join dir rel) = Some x \<longleftrightarrow>
      (\<exists>i. map_of (w_fs w) (k @ rel) = Some i \<and> x = meta_of M w (join dir rel) (k @ rel) i)" for x
  proof -
    have "rel' = rel" if "rel' \<noteq> []" "join dir rel = join dir rel'" "map_of (w_fs w) (k @ rel') = Some i" for rel' i
      using that fs_wf_below [OF wf that(3,1)] join_inject [OF rel(2)] by metis
    then show ?thesis using m rel(1) by (auto simp: scanned_def found_def)
  qed
  then show ?thesis by (cases "map_of m (join dir rel)"; cases "map_of (w_fs w) (k @ rel)") auto
qed

definition task_for :: "string \<Rightarrow> string \<Rightarrow> string list \<Rightarrow> inode \<Rightarrow> SyncTask" where
  "task_for srcDir destDir rel i =
     \<lparr>tk_srcPath = join srcDir rel, tk_destPath = join destDir rel, tk_isDirectory = S_ISDIR (i_mode i),
      tk_mode = i_mode i\<rparr>"

definition out_of_date :: "'c md5_api \<Rightarrow> world \<Rightarrow> string \<Rightarrow> fpath \<Rightarrow> string \<Rightarrow> fpath \<Rightarrow> string list \<Rightarrow> inode \<Rightarrow> bool" where
  "out_of_date M w srcDir ks destDir kd rel i =
     (case map_of (w_fs w) (kd @ rel) of
        None \<Rightarrow> True
      | Some j \<Rightarrow> S_ISREG (i_mode i) \<noteq> S_ISREG (i_mode j)
          \<or> st_size (stat_of w (ks @ rel) i) \<noteq> st_size (stat_of w (kd @ rel) j) \<or> i_mtime i \<noteq> i_mtime j
          \<or> S_ISREG (i_mode i) \<and> fst (calculateMD5 M w (join srcDir rel)) \<noteq> fst (calculateMD5 M w (join destDir rel)))"

lemma out_of_date_needSync:
  "out_of_date M w srcDir ks destDir kd rel i =
     (case map_of (w_fs w) (kd @ rel) of
        None \<Rightarrow> True
      | Some j \<Rightarrow> needSync (meta_of M w (join srcDir rel) (ks @ rel) i) (meta_of M w (join destDir rel) (kd @ rel) j))"
  by (cases "map_of (w_fs w) (kd @ rel)") (auto simp: out_of_date_def needSync_def meta_of_def)

text \<open>\<open>ord\<close> lists the entries of a map in some order.\<close>

definition lists_entries :: "(meta_map \<Rightarrow> meta_map) \<Rightarrow> bool" where
  "lists_entries ord \<longleftrightarrow> (\<forall>m. distinct (map fst m) \<longrightarrow> set (ord m) = set m \<and> distinct (map fst (ord m)))"

lemma compareMetadata_tasks:
  assumes wf: "fs_wf (w_fs w)" and ord: "lists_entries ord"
    and ms: "scanned M w srcDir ks UNIV ms" and md: "scanned M w destDir kd UNIV md"
  shows "t \<in> set (compareMetadata ord ms md srcDir destDir) \<longleftrightarrow>
    (\<exists>rel i. rel \<noteq> [] \<and> map_of (w_fs w) (ks @ rel) = Some i \<and> t = task_for srcDir destDir rel i
      \<and> out_of_date M w srcDir ks destDir kd rel i)"
proof -
  have dm: "distinct (map fst ms)" using ms by (simp add: scanned_def)
  have entry: "(p, x) \<in> set (ord ms) \<longleftrightarrow> found M w srcDir ks UNIV p x" for p x
  proof -
    have "set (ord ms) = set ms" using ord dm by (simp add: lists_entries_def)
    with map_of_eq_Some_iff [OF dm, of p x] ms show ?thesis by (simp add: scanned_def)
  qed
  define f where "f = (\<lambda>(srcPath, srcMeta).
       let destPath = destDir @ drop (length srcDir) srcPath
       in case map_of md destPath of
            None \<Rightarrow> [make_task srcPath destPath srcMeta]
          | Some destMeta \<Rightarrow>
              if needSync srcMeta destMeta then [make_task srcPath destPath srcMeta] else [])"
  have eq: "f (join srcDir rel, meta_of M w (join srcDir rel) (ks @ rel) i) =
      (if out_of_date M w srcDir ks destDir kd rel i then [task_for srcDir destDir rel i] else [])"
    if "rel \<noteq> []" "map_of (w_fs w) (ks @ rel) = Some i" for rel i
  proof -
    have "plain_names rel" using fs_wf_below [OF wf that(2,1)] by simp
    note l = scanned_lookup [OF wf md that(1) this]
    have p: "destDir @ drop (length srcDir) (join srcDir rel) = join destDir rel" by (simp add: join_def)
    have t: "make_task (join srcDir rel) (join destDir rel) (meta_of M w (join srcDir rel) (ks @ rel) i) = task_for srcDir destDir rel i"
      by (simp add: task_for_def make_task_def meta_of_def)
    show ?thesis unfolding f_def prod.case p Let_def l t
      by (cases "map_of (w_fs w) (kd @ rel)") (simp_all add: out_of_date_needSync)
  qed
  have "t \<in> set (compareMetadata ord ms md srcDir destDir) \<longleftrightarrow> (\<exists>p x. (p, x) \<in> set (ord ms) \<and> t \<in> set (f (p, x)))"
    unfolding compareMetadata.simps f_def [symmetric] by auto
  also have "\<dots> \<longleftrightarrow> (\<exists>rel i. rel \<noteq> [] \<and> map_of (w_fs w) (ks @ rel) = Some i
      \<and> t \<in> set (f (join srcDir rel, meta_of M w (join srcDir rel) (ks @ rel) i)))"
    unfolding entry found_def by blast
  also have "\<dots> \<longleftrightarrow> (\<exists>rel i. rel \<noteq> [] \<and> map_of (w_fs w) (ks @ rel) = Some i \<and> t = task_for srcDir destDir rel i
      \<and> out_of_date M w srcDir ks destDir kd rel i)"
    using eq by (metis empty_iff empty_set list.set_intros(1) set_ConsD)
  finally show ?thesis .
qed

lemma detectChanges_tasks:
  assumes wf: "fs_wf (w_fs w)" and sc: "w_script w = []" and ord: "lists_entries ord"
    and d: "dir_at w srcDir ks" "dir_at w destDir kd" "deep_enough fuel w ks" "deep_enough fuel w kd"
  shows "\<exists>tasks. detectChanges fuel M ord w srcDir destDir = Some (tasks, w) \<and>
    (\<forall>t. t \<in> set tasks \<longleftrightarrow>
      (\<exists>rel i. rel \<noteq> [] \<and> map_of (w_fs w) (ks @ rel) = Some i \<and> t = task_for srcDir destDir rel i
        \<and> out_of_date M w srcDir ks destDir kd rel i))"
proof -
  obtain ms where ms: "collectMetadata fuel M w srcDir = Some (ms, w)" "scanned M w srcDir ks UNIV ms"
    using collectMetadata_scanned [OF wf sc d(1,3)] by blast
  obtain md where md: "collectMetadata fuel M w destDir = Some (md, w)" "scanned M w destDir kd UNIV md"
    using collectMetadata_scanned [OF wf sc d(2,4)] by blast
  show ?thesis
    using ms(1) md(1) compareMetadata_tasks [OF wf ord ms(2) md(2)]
    by (intro exI [of _ "compareMetadata ord ms md srcDir destDir"]) (simp add: detectChanges_def)
qed

end
