(* ===== verification/Mirror.thy ===== *)
theory Mirror
  imports LocalSync
begin

text \<open>
  What a local synchronisation achieves: one file (\<open>syncFile_nominal\<close>), one directory
  (\<open>syncDirectory_nominal\<close>), and a whole tree.
\<close>

section \<open>Steps that change some paths and may add directories on the way\<close>

definition grow :: "fpath set \<Rightarrow> fpath set \<Rightarrow> world \<Rightarrow> world \<Rightarrow> bool" where
  "grow K P w w' \<longleftrightarrow> (world_wf w \<longrightarrow> world_wf w') \<and> env_of w' = env_of w \<and> net_of w' = net_of w \<and>
     (\<forall>p. p \<notin> K \<longrightarrow> content w' p = content w p \<or> content w p = None \<and> p \<in> P \<and> is_dir (w_fs w') p) \<and>
     (\<forall>p. is_dir (w_fs w) p \<longrightarrow> is_dir (w_fs w') p)"

lemma grow_trans:
  assumes a: "grow K P w w1" and b: "grow L Q w1 w2"
  shows "grow (K \<union> L) (P \<union> Q) w w2"
proof -
  have "content w2 p = content w p \<or> content w p = None \<and> p \<in> P \<union> Q \<and> is_dir (w_fs w2) p" if "p \<notin> K \<union> L" for p
  proof -
    have "content w1 p = content w p \<or> content w p = None \<and> p \<in> P \<and> is_dir (w_fs w1) p"
      using a that by (auto simp: grow_def)
    moreover have "content w2 p = content w1 p \<or> content w1 p = None \<and> p \<in> Q \<and> is_dir (w_fs w2) p"
      using b that by (auto simp: grow_def)
    moreover have "is_dir (w_fs w1) p \<longrightarrow> is_dir (w_fs w2) p" using b by (simp add: grow_def)
    ultimately show ?thesis by auto
  qed
  then show ?thesis using a b by (simp add: grow_def)
qed

lemma grow_trans1: "grow K P w w1 \<Longrightarrow> grow K P w1 w2 \<Longrightarrow> grow K P w w2"
  using grow_trans [of K P w w1 K P w2] by simp

lemma grow_mono: "grow K P w w' \<Longrightarrow> K \<subseteq> L \<Longrightarrow> P \<subseteq> Q \<Longrightarrow> grow L Q w w'"
  by (auto simp: grow_def)

lemma grow_refl [simp]: "grow K P w w"
  by (simp add: grow_def)

lemma grow_file_step: "file_step K w w' \<Longrightarrow> world_wf w \<Longrightarrow> grow K {} w w'"
  by (auto simp: grow_def file_step_def fs_step_def)

lemma grow_createDirectory:
  assumes "plain_path p"
  shows "grow {} (path_prefixes w p) w (snd (createDirectory w p m))"
proof -
  let ?w = "snd (createDirectory w p m)"
  have d: "dirs_added w ?w" by (rule createDirectory_dirs_added)
  have f: "fs_step (path_prefixes w p) w ?w" by (rule createDirectory_footprint [OF assms])
  have "content ?w q = content w q \<or> content w q = None \<and> q \<in> path_prefixes w p \<and> is_dir (w_fs ?w) q" for q
    using fs_stepD(4) [OF f, of q] dirs_added_content [OF d, of q] dirs_added_new [OF d, of q]
    by (cases "content w q"; cases "q \<in> path_prefixes w p"; cases "content ?w q") auto
  then show ?thesis
    using fs_stepD(1-3) [OF f] dirs_added_is_dir [OF d] by (simp add: grow_def)
qed

lemma growD:
  assumes "grow K P w w'"
  shows "world_wf w \<Longrightarrow> world_wf w'" "env_of w' = env_of w" "net_of w' = net_of w"
    "is_dir (w_fs w) p \<Longrightarrow> is_dir (w_fs w') p" "resolve w q = Some k \<Longrightarrow> resolve w' q = Some k"
    "p \<notin> K \<Longrightarrow> content w p = Some c \<Longrightarrow> content w' p = Some c"
    "p \<notin> K \<Longrightarrow> p \<notin> P \<Longrightarrow> content w' p = content w p"
    "p \<notin> K \<Longrightarrow> content w p = None \<Longrightarrow> content w' p \<noteq> None \<Longrightarrow> is_dir (w_fs w') p"
  using assms resolve_mono [of w w' q k] by (auto simp: grow_def dest: env_cwd)

section \<open>Permissions\<close>

definition perm_bits :: "mode_t \<Rightarrow> mode_t" where
  "perm_bits m = m AND 0xFFF"

definition chmod_result :: "mode_t \<Rightarrow> mode_t \<Rightarrow> mode_t" where
  "chmod_result old mode = (old AND S_IFMT) OR (mode AND 0xFFF)"

lemma perm_bits_chmod [simp]: "perm_bits (chmod_result old mode) = perm_bits mode"
proof -
  have "((old AND old) AND S_IFMT) AND 0xFFF = 0" "((old AND S_IFMT) AND 0xFFF) = 0"
    by (simp_all add: S_IFMT_def and.assoc)
  then show ?thesis
    by (simp add: perm_bits_def chmod_result_def bit.conj_disj_distrib2 and.assoc)
qed

lemma S_ISDIR_chmod_result [simp]: "S_ISDIR (chmod_result old mode) = S_ISDIR old"
  by (simp add: chmod_result_def)

lemma setFileMode_nominal:
  assumes "w_script w = []" "resolve w p = Some k" "content w k = Some (m, d)" "world_wf w"
  shows "\<exists>w'. setFileMode w p mode = (True, w') \<and> w_script w' = [] \<and> file_step {k} w w'
     \<and> content w' k = Some (chmod_result m mode, d)"
proof -
  obtain i where i: "map_of (w_fs w) k = Some i" "i_mode i = m" "i_data i = d"
    using assms(3) by (auto simp: content_def)
  let ?i = "i\<lparr>i_mode := chmod_result m mode, i_ctime := w_clock w\<rparr>"
  let ?w = "w\<lparr>w_fs := AList.update k ?i (w_fs w)\<rparr>"
  have eq: "setFileMode w p mode = (True, ?w)"
    using assms i by (simp add: setFileMode_def sys_chmod_def next_ev_nominal chmod_result_def)
  have "is_dir (w_fs ?w) = is_dir (w_fs w)"
    using i by (auto simp: fun_eq_iff is_dir_update is_dir_at)
  moreover have "fs_step {k} w ?w"
    using sys_chmod_step [of w p mode] eq assms(2) by (auto simp: setFileMode_def intro: fs_step_mono)
  moreover have "content ?w k = Some (chmod_result m mode, d)"
    using i by (simp add: content_update)
  ultimately show ?thesis using eq assms(1) by (simp add: file_step_def)
qed

section \<open>One directory\<close>

lemma syncDirectory_nominal:
  assumes wf: "world_wf w" and sc: "w_script w = []" and p: "plain_path dest" "path_free w dest"
  shows "\<exists>w' m. syncDirectory w src dest mode = (True, w') \<and> w_script w' = []
     \<and> is_dir (w_fs w') (path_key w dest)
     \<and> content w' (path_key w dest) = Some (m, []) \<and> perm_bits m = perm_bits mode
     \<and> grow {path_key w dest} (path_prefixes w dest) w w'"
proof -
  let ?k = "path_key w dest"
  obtain w1 where w1: "createDirectory w dest 0x1ED = (True, w1)" "w_script w1 = []"
    "resolve w1 dest = Some ?k" "is_dir (w_fs w1) ?k"
    using createDirectory_total [OF sc wf p, of "0x1ED"] by blast
  have g1: "grow {} (path_prefixes w dest) w w1" using grow_createDirectory [OF p(1), of w "0x1ED"] w1(1) by simp
  have wf1: "world_wf w1" using growD(1) [OF g1 wf] .
  from w1(4) obtain i where i: "map_of (w_fs w1) ?k = Some i" "S_ISDIR (i_mode i)"
    by (auto simp: is_dir_def split: option.splits)
  have c1: "content w1 ?k = Some (i_mode i, [])"
    using i fs_wf_dir_data [OF world_wf_fs [OF wf1] i] by (simp add: content_def)
  from setFileMode_nominal [OF w1(2,3) c1 wf1, of mode] obtain w2 where
    w2: "setFileMode w1 dest mode = (True, w2)" "w_script w2 = []" "file_step {?k} w1 w2"
      "content w2 ?k = Some (chmod_result (i_mode i) mode, [])" by blast
  have "grow {?k} (path_prefixes w dest) w w2"
    using grow_trans [OF g1 grow_file_step [OF w2(3) wf1]] by simp
  moreover have "is_dir (w_fs w2) ?k" using w2(4) i(2) by (simp add: is_dir_content)
  moreover have "syncDirectory w src dest mode = (True, w2)" using w1(1) w2(1) by (simp add: syncDirectory_def)
  ultimately show ?thesis using w2(2,4) perm_bits_chmod by blast
qed

section \<open>One file\<close>

text \<open>A source file that can be read, and a destination in a directory that exists.\<close>

definition copy_ready :: "world \<Rightarrow> string \<Rightarrow> fpath \<Rightarrow> string \<Rightarrow> fpath \<Rightarrow> mode_t \<Rightarrow> byte list \<Rightarrow> bool" where
  "copy_ready w src sk dest k m d \<longleftrightarrow>
     world_wf w \<and> w_script w = [] \<and> resolve w src = Some sk \<and> content w sk = Some (m, d) \<and> \<not> S_ISDIR m
     \<and> \<not> w_unreadable w sk \<and> int (length d) < 2 ^ 52 \<and> sk \<noteq> k \<and> sk \<noteq> progress_key k
     \<and> resolve w dest = Some k \<and> CHR 0x00 \<notin> set dest \<and> \<not> is_dir (w_fs w) k
     \<and> \<not> is_dir (w_fs w) (progress_key k)"

lemma copy_readyD:
  assumes "copy_ready w src sk dest k m d"
  shows "async_ready w src dest sk k d" "transfer_ready w src dest k d" "world_wf w" "w_script w = []"
    "resolve w dest = Some k"
  using assms
  by (auto simp: copy_ready_def async_ready_def transfer_ready_def ifs_open_def data_at_content is_dir_content)

lemma copy_ready_step:
  assumes r: "copy_ready w src sk dest k m d" and f: "file_step {k, progress_key k} w w'" and sc: "w_script w' = []"
  shows "copy_ready w' src sk dest k m d"
  using r file_stepD [OF f copy_readyD(3) [OF r]] env_unreadable [of w' w] sc
  by (simp add: copy_ready_def)

lemma cleanup_script: "w_script w = [] \<Longrightarrow> w_script (cleanupCorruptedFile w p) = []"
proof -
  have "w_script v = [] \<Longrightarrow> w_script (snd (sys_remove v q)) = []" for v q
    by (cases rule: sys_remove_cases [of v q]) auto
  then show "w_script w = [] \<Longrightarrow> w_script (cleanupCorruptedFile w p) = []"
    by (simp add: cleanupCorruptedFile_def Let_def)
qed

lemma chmod_copied:
  assumes r: "copy_ready w src sk dest k m d" and f: "file_step {k, progress_key k} w w1" and sc: "w_script w1 = []"
    and d: "data_at w1 k = Some d" and pk: "content w1 (progress_key k) = None"
  shows "\<exists>m'. let w' = snd (setFileMode w1 dest mode) in w_script w' = [] \<and> file_step {k, progress_key k} w w'
     \<and> content w' k = Some (m', d) \<and> perm_bits m' = perm_bits mode \<and> content w' (progress_key k) = None"
proof -
  note c = copy_readyD [OF r]
  note fd = file_stepD [OF f c(3)]
  obtain m1 where m1: "content w1 k = Some (m1, d)" using d by (auto simp: data_at_content)
  obtain w2 where w2: "setFileMode w1 dest mode = (True, w2)" "w_script w2 = []" "file_step {k} w1 w2"
    "content w2 k = Some (chmod_result m1 mode, d)"
    using setFileMode_nominal [OF sc _ m1 fd(1), of dest mode] fd(3) c(5) by auto
  have "file_step {k, progress_key k} w w2"
    using file_step_trans [OF f file_step_mono [OF w2(3)]] by simp
  moreover have "content w2 (progress_key k) = None"
    using file_stepD(6) [OF w2(3) fd(1), of "progress_key k"] pk transfer_readyD(8) [OF c(2)] by simp
  ultimately show ?thesis using w2 by (intro exI [of _ "chmod_result m1 mode"]) (simp add: Let_def)
qed

lemma syncFile_copy_nominal:
  assumes r: "copy_ready w src sk dest k m d"
  shows "\<exists>w' m'. syncFile_copy fs sched w src dest mode = (True, w') \<and> w_script w' = []
     \<and> file_step {k, progress_key k} w w' \<and> content w' k = Some (m', d) \<and> perm_bits m' = perm_bits mode
     \<and> content w' (progress_key k) = None"
proof -
  note c = copy_readyD [OF r]
  have tr: "\<exists>w' m'. (case transferFile fs v src dest 0 of (ok, w3) \<Rightarrow>
       if ok then (True, snd (setFileMode w3 dest mode)) else (False, cleanupCorruptedFile w3 dest)) = (True, w')
     \<and> w_script w' = [] \<and> file_step {k, progress_key k} w w' \<and> content w' k = Some (m', d)
     \<and> perm_bits m' = perm_bits mode \<and> content w' (progress_key k) = None"
    if v: "file_step {k, progress_key k} w v" "w_script v = []" for v
  proof -
    have rv: "transfer_ready v src dest k d" using copy_readyD(2) [OF copy_ready_step [OF r v]] .
    obtain w3 where w3: "transferFile fs v src dest 0 = (True, w3)" "data_at w3 k = Some d"
      "content w3 (progress_key k) = None" "w_script w3 = []"
      using transferFile_nominal [OF rv v(2), of fs 0] by auto
    have "file_step {k, progress_key k} w w3"
      using file_step_trans [OF v(1)] transferFile_step [OF rv, of fs 0] w3(1) by simp
    from chmod_copied [OF r this w3(4,2,3), of mode] w3(1) show ?thesis by (auto simp: Let_def)
  qed
  obtain st where st: "getFileStat w src = Some st" "st_size st = int (length d)"
    using async_readyD(8) [OF c(1)] by blast
  show ?thesis
  proof (cases "st_size st \<ge> LARGE_FILE_THRESHOLD \<and> fsy_threadPool fs")
    case False
    with tr [of w] c(4) st show ?thesis by (auto simp: syncFile_copy_def Let_def)
  next
    case True
    show ?thesis
    proof (cases "FileSync_checkDiskSpace w dest (int (length d))")
      case sp: True
      obtain w1 where w1: "transferLargeFileAsync fs sched w src dest 0 = (True, w1)" "data_at w1 k = Some d"
        "content w1 (progress_key k) = None" "w_script w1 = []"
        using transferLargeFileAsync_nominal [OF c(1) sp c(4)] by blast
      from chmod_copied [OF r transferLargeFileAsync_facts(1) [OF c(1) w1(1)] w1(4,2,3), of mode] w1(1) True st
      show ?thesis by (auto simp: syncFile_copy_def Let_def)
    next
      case False
      then have "transferLargeFileAsync fs sched w src dest 0 = (False, w)"
        using st by (simp add: transferLargeFileAsync_def)
      moreover have "file_step {k, progress_key k} w (cleanupCorruptedFile w dest)"
        using ready_step_cleanup(1) [OF c(2)] by simp
      ultimately show ?thesis using tr [of "cleanupCorruptedFile w dest"] cleanup_script [OF c(4)] True st
        by (auto simp: syncFile_copy_def Let_def)
    qed
  qed
qed

lemma find_last_of_slash:
  "CHR ''/'' \<notin> set n \<Longrightarrow> find_last_of (CHR ''/'') (q @ ''/'' @ n) = Some (length q)"
  by (simp add: find_last_of_def Let_def takeWhile_append)

lemma path_prefixes_length: "p \<in> path_prefixes w q \<Longrightarrow> length p \<le> length (path_key w q)"
  by (auto simp: path_prefixes_def path_key_def)

lemma fileExists_iff: "fileExists w p \<longleftrightarrow> (\<exists>k c. resolve w p = Some k \<and> content w k = Some c)"
  by (auto simp: fileExists_def sys_stat_def content_def split: option.splits)

lemma loadProgress_absent:
  "resolve w (getProgressFilePath p) = Some k \<Longrightarrow> content w k = None \<Longrightarrow>
     loadProgress w p = (\<lparr>sp_filePath = p, sp_offset = 0, sp_totalSize = 0\<rparr>, w)"
  by (simp add: loadProgress_def ifs_open_def data_at_content)

lemma syncFile_nominal:
  assumes wf: "world_wf w" and sc: "w_script w = []" and strat: "fsy_conflictStrategy fs = ''overwrite''"
    and src: "resolve w src = Some sk" "content w sk = Some (m, d)" "\<not> S_ISDIR m" "\<not> w_unreadable w sk"
      "int (length d) < 2 ^ 52" "sk \<noteq> k"
    and q: "plain_path q" "path_free w q" "valid_name n" and k: "k = path_key w q @ [n]"
    and dst: "\<not> is_dir (w_fs w) k" "content w (progress_key k) = None"
  shows "\<exists>w' m'. syncFile fs sched w src (q @ ''/'' @ n) mode = (True, w') \<and> w_script w' = []
     \<and> grow {k, progress_key k} (path_prefixes w q) w w' \<and> content w' k = Some (m', d) \<and> \<not> S_ISDIR m'
     \<and> perm_bits m' = perm_bits mode \<and> content w' (progress_key k) = None"
proof -
  let ?dest = "q @ ''/'' @ n" and ?pk = "progress_key k"
  obtain w1 where w1: "createDirectory w q 0x1ED = (True, w1)" "w_script w1 = []"
    "resolve w1 q = Some (path_key w q)" "is_dir (w_fs w1) (path_key w q)"
    using createDirectory_total [OF sc wf q(1,2), of "0x1ED"] by blast
  have g1: "grow {} (path_prefixes w q) w w1" using grow_createDirectory [OF q(1), of w "0x1ED"] w1(1) by simp
  note g = growD [OF g1]
  have lk: "length (path_key w q) < length k" "length (path_key w q) < length ?pk"
    using k by (simp_all add: progress_key_def)
  then have ck: "content w1 k = content w k" "content w1 ?pk = content w ?pk"
    using g(7) path_prefixes_length [of _ w q] by (metis empty_iff not_le)+
  have nul: "CHR 0x00 \<notin> set ?dest" using q(1,3) by (auto simp: plain_path_def valid_name_def)
  have rd: "resolve w1 ?dest = Some k"
    using resolve_child [of w1 q "path_key w q" n] w1(3,4) q(1,3) k by (simp add: dir_at_def plain_path_def)
  have nd: "\<not> is_dir (w_fs w1) k" "\<not> is_dir (w_fs w1) ?pk" using dst ck by (simp_all add: is_dir_content)
  have skp: "sk \<noteq> ?pk" using src(2) dst(2) by auto
  have r: "copy_ready w1 src sk ?dest k m d"
    unfolding copy_ready_def using g(1) [OF wf] w1(2) g(5) [OF src(1)] g(6) [OF _ src(2)] src(3-6) skp rd nul nd
      env_unreadable [OF g(2)] by simp
  have lp: "loadProgress w1 ?dest = (\<lparr>sp_filePath = ?dest, sp_offset = 0, sp_totalSize = 0\<rparr>, w1)"
    using loadProgress_absent transfer_readyD(9) [OF copy_readyD(2) [OF r]] ck(2) dst(2) by simp
  obtain w2 m2 where w2: "syncFile_copy fs sched w1 src ?dest mode = (True, w2)" "w_script w2 = []"
    "file_step {k, ?pk} w1 w2" "content w2 k = Some (m2, d)" "perm_bits m2 = perm_bits mode" "content w2 ?pk = None"
    using syncFile_copy_nominal [OF r, of fs sched mode] by blast
  have "fileExists w src" using src(1,2) by (auto simp: fileExists_iff)
  moreover have "handleConflict fs w1 src ?dest = (True, w1)" using strat by (simp add: handleConflict_def)
  moreover have "find_last_of (CHR ''/'') ?dest = Some (length q)"
    using q(3) by (intro find_last_of_slash) (simp add: valid_name_def)
  ultimately have "syncFile fs sched w src ?dest mode = (True, w2)"
    using w1(1) lp w2(1) by (simp add: syncFile_def syncFile_resume_def)
  moreover have "grow {k, ?pk} (path_prefixes w q) w w2"
    using grow_trans [OF g1 grow_file_step [OF w2(3) g(1) [OF wf]]] by simp
  moreover have "\<not> S_ISDIR m2"
    using file_stepD(2) [OF w2(3) g(1) [OF wf]] nd(1) w2(4) by (simp add: is_dir_content fun_eq_iff) (metis option.simps(5) prod.simps(2))
  ultimately show ?thesis using w2 by blast
qed

section \<open>A whole tree\<close>

definition is_progress_name :: "string \<Rightarrow> bool" where
  "is_progress_name s \<longleftrightarrow> take 14 (rev s) = rev ''.sync_progress''"

lemma is_progress_nameI: "is_progress_name (t @ ''.sync_progress'')"
  by (simp add: is_progress_name_def)

text \<open>The state in which the tasks are executed: the destination directory exists, no entry blocks
  another of a different type, no file is named like a progress file.\<close>

definition tree_ready :: "world \<Rightarrow> string \<Rightarrow> fpath \<Rightarrow> string \<Rightarrow> fpath \<Rightarrow> bool" where
  "tree_ready w srcDir ks destDir kd \<longleftrightarrow>
     world_wf w \<and> dir_at w srcDir ks \<and> plain_path destDir \<and> kd = path_key w destDir
     \<and> dirs_upto (w_fs w) (path_start w destDir) (names_of (split_slash destDir))
     \<and> \<not> is_prefix ks kd \<and> \<not> is_prefix kd ks
     \<and> (\<forall>rel m d. content w (ks @ rel) = Some (m, d) \<longrightarrow> S_ISDIR m \<or> \<not> w_unreadable w (ks @ rel) \<and> int (length d) < 2 ^ 52)
     \<and> (\<forall>rel n c. content w (ks @ rel @ [n]) = Some c \<longrightarrow> \<not> is_progress_name n)"

definition good_dest :: "world \<Rightarrow> fpath \<Rightarrow> fpath \<Rightarrow> world \<Rightarrow> bool" where
  "good_dest w0 ks kd w \<longleftrightarrow>
     w_script w = [] \<and> grow {kd @ rel | rel. rel \<noteq> []} {} w0 w
     \<and> (\<forall>rel m d. rel \<noteq> [] \<and> content w0 (ks @ rel) = Some (m, d) \<longrightarrow>
          content w (kd @ rel) = None \<or> is_dir (w_fs w) (kd @ rel) = S_ISDIR m)
     \<and> (\<forall>rel n. is_progress_name n \<longrightarrow> content w (kd @ rel @ [n]) = None)"

definition copied :: "fpath \<Rightarrow> world \<Rightarrow> string list \<Rightarrow> mode_t \<Rightarrow> byte list \<Rightarrow> bool" where
  "copied kd w rel m d \<longleftrightarrow>
     (\<exists>m'. content w (kd @ rel) = Some (m', d) \<and> S_ISDIR m' = S_ISDIR m \<and> perm_bits m' = perm_bits m)"

lemma tree_readyD:
  assumes "tree_ready w srcDir ks destDir kd"
  shows "world_wf w" "dir_at w srcDir ks" "plain_path destDir" "kd = path_key w destDir"
    "dirs_upto (w_fs w) (path_start w destDir) (names_of (split_slash destDir))"
    "\<not> is_prefix ks kd" "\<not> is_prefix kd ks"
    "content w (ks @ rel) = Some (m, d) \<Longrightarrow> S_ISDIR m \<or> \<not> w_unreadable w (ks @ rel) \<and> int (length d) < 2 ^ 52"
    "content w (ks @ rel @ [n]) = Some c \<Longrightarrow> \<not> is_progress_name n"
  using assms unfolding tree_ready_def by blast+

lemma apart: "\<not> is_prefix ks kd \<Longrightarrow> \<not> is_prefix kd ks \<Longrightarrow> ks @ rel \<noteq> kd @ rel'"
  by (auto simp: is_prefix_def append_eq_append_conv2)

lemma dirs_upto_take: "dirs_upto fs k ns \<Longrightarrow> is_dir fs (k @ take i ns)"
proof (induction ns arbitrary: k i)
  case (Cons n ns)
  from Cons.IH [of "k @ [n]" "i - 1"] Cons.prems show ?case by (cases i) auto
qed simp

lemma names_of_join:
  "plain_names rel \<Longrightarrow> names_of (split_slash (join dir rel)) = names_of (split_slash dir) @ rel"
  by (auto simp: split_slash_join names_of_def plain_names_def list_all_iff valid_name_def)

lemma plain_path_join: "plain_path dir \<Longrightarrow> plain_names rel \<Longrightarrow> plain_path (join dir rel)"
proof -
  assume d: "plain_path dir" and r: "plain_names rel"
  have "CHR 0x00 \<notin> set (join dir rel)"
    using d r by (auto simp: plain_path_def plain_names_def list_all_iff valid_name_def join_def)
  moreover have "join dir rel \<noteq> []" using d by (simp add: plain_path_def join_def)
  moreover have "''..'' \<notin> set (split_slash (join dir rel))"
    unfolding split_slash_join [OF r] using d r by (auto simp: plain_path_def plain_names_def list_all_iff valid_name_def)
  ultimately show ?thesis by (simp add: plain_path_def)
qed

lemma path_start_join: "plain_path dir \<Longrightarrow> path_start w (join dir rel) = path_start w dir"
  by (simp add: path_start_def join_def plain_path_def)

lemma path_key_join:
  "plain_path dir \<Longrightarrow> plain_names rel \<Longrightarrow> path_key w (join dir rel) = path_key w dir @ rel"
  by (simp add: path_key_def names_of_join path_start_join)

lemma path_prefixes_join:
  assumes "plain_path dir" "plain_names rel" "p \<in> path_prefixes w (join dir rel)"
  shows "(\<exists>i. p = path_start w dir @ take i (names_of (split_slash dir))) \<or> (\<exists>j. p = path_key w dir @ take j rel)"
proof -
  let ?ns = "names_of (split_slash dir)"
  from assms obtain i where i: "p = path_start w dir @ take i (?ns @ rel)"
    by (auto simp: path_prefixes_def names_of_join path_start_join)
  show ?thesis
  proof (cases "i \<le> length ?ns")
    case True
    with i show ?thesis by auto
  next
    case False
    with i have "p = path_key w dir @ take (i - length ?ns) rel" by (simp add: path_key_def)
    then show ?thesis by blast
  qed
qed

text \<open>What is above an entry of the source is a directory.\<close>

lemma source_above:
  assumes wf: "world_wf w" and e: "content w (ks @ rel) = Some (m, d)" and j: "j < length rel"
  shows "\<exists>m'. content w (ks @ take j rel) = Some (m', []) \<and> S_ISDIR m'"
proof -
  obtain i where i: "map_of (w_fs w) (ks @ rel) = Some i" using e by (auto simp: content_def)
  have "(ks @ take j rel) @ drop j rel = ks @ rel" "drop j rel \<noteq> []" using j by auto
  with fs_wf_below [OF world_wf_fs [OF wf], of "ks @ take j rel" "drop j rel" i] i
  have "is_dir (w_fs w) (ks @ take j rel)" by metis
  then obtain a where a: "map_of (w_fs w) (ks @ take j rel) = Some a" "S_ISDIR (i_mode a)"
    by (auto simp: is_dir_def split: option.splits)
  with fs_wf_dir_data [OF world_wf_fs [OF wf]] show ?thesis by (auto simp: content_def)
qed

lemma source_names:
  assumes wf: "world_wf w" and e: "content w (ks @ rel) = Some c" and "rel \<noteq> []"
  shows "plain_names rel"
  using assms fs_wf_below [OF world_wf_fs [OF wf]] by (auto simp: content_def)

lemma good_destD:
  assumes "good_dest w0 ks kd w"
  shows "w_script w = []" "grow {kd @ rel | rel. rel \<noteq> []} {} w0 w"
    "rel \<noteq> [] \<Longrightarrow> content w0 (ks @ rel) = Some (m, d) \<Longrightarrow>
       content w (kd @ rel) = None \<or> is_dir (w_fs w) (kd @ rel) = S_ISDIR m"
    "is_progress_name n \<Longrightarrow> content w (kd @ rel @ [n]) = None"
  using assms unfolding good_dest_def by blast+

lemma good_dest_source:
  assumes t: "tree_ready w0 srcDir ks destDir kd" and g: "good_dest w0 ks kd w"
  shows "content w (ks @ rel) = content w0 (ks @ rel)"
proof -
  have "ks @ rel \<notin> {kd @ r | r. r \<noteq> []}" using apart [OF tree_readyD(6,7) [OF t]] by auto
  then show ?thesis using growD(7) [OF good_destD(2) [OF g]] by simp
qed

lemma path_free_dest:
  assumes t: "tree_ready w0 srcDir ks destDir kd" and g: "good_dest w0 ks kd w"
    and e: "rel = [] \<or> (\<exists>m d. content w0 (ks @ rel) = Some (m, d) \<and> S_ISDIR m)"
  shows "path_free w (join destDir rel)" "plain_path (join destDir rel)" "path_key w (join destDir rel) = kd @ rel"
proof -
  note r = tree_readyD [OF t]
  note gd = growD [OF good_destD(2) [OF g]]
  have pn: "plain_names rel" using e source_names [OF r(1)] by (cases "rel = []") (auto simp: plain_names_def)
  have ps: "path_start w destDir = path_start w0 destDir" using env_cwd [OF gd(2)] by (simp add: path_start_def)
  then have kd: "path_key w destDir = kd" using r(4) by (simp add: path_key_def)
  show "plain_path (join destDir rel)" by (rule plain_path_join [OF r(3) pn])
  show "path_key w (join destDir rel) = kd @ rel" using path_key_join [OF r(3) pn] kd by simp
  have "content w p = None \<or> is_dir (w_fs w) p" if "p \<in> path_prefixes w (join destDir rel)" for p
    using path_prefixes_join [OF r(3) pn that]
  proof
    assume "\<exists>i. p = path_start w destDir @ take i (names_of (split_slash destDir))"
    then show ?thesis using dirs_upto_take [OF r(5)] gd(4) ps by auto
  next
    assume "\<exists>j. p = path_key w destDir @ take j rel"
    then obtain j where j: "p = kd @ take j rel" using kd by auto
    show ?thesis
    proof (cases "take j rel = []")
      case True
      then show ?thesis using j dirs_upto_take [OF r(5), of "length (names_of (split_slash destDir))"] gd(4) r(4)
        by (auto simp: path_key_def)
    next
      case ne: False
      then obtain m d where e': "content w0 (ks @ rel) = Some (m, d)" "S_ISDIR m" using e by auto
      obtain m' d' where "content w0 (ks @ take j rel) = Some (m', d')" "S_ISDIR m'"
        using source_above [OF r(1) e'(1), of j] e' by (cases "j < length rel") auto
      with good_destD(3) [OF g ne] j show ?thesis by auto
    qed
  qed
  then show "path_free w (join destDir rel)"
    unfolding path_free_iff path_prefixes_def by blast
qed

text \<open>One task: it succeeds, its entry is copied, and the state stays good.\<close>

lemma task_effect:
  assumes t: "tree_ready w0 srcDir ks destDir kd" and g: "good_dest w0 ks kd w"
    and strat: "fsy_conflictStrategy fs = ''overwrite''"
    and e: "rel \<noteq> []" "content w0 (ks @ rel) = Some (m, d)"
  shows "\<exists>w'. executeSyncTask fs sched w
       \<lparr>tk_srcPath = join srcDir rel, tk_destPath = join destDir rel, tk_isDirectory = S_ISDIR m, tk_mode = m\<rparr> = (True, w')
     \<and> w_script w' = [] \<and> copied kd w' rel m d
     \<and> (\<exists>P. grow (if S_ISDIR m then {kd @ rel} else {kd @ rel, progress_key (kd @ rel)}) P w w'
          \<and> (\<forall>p\<in>P. content w p \<noteq> None \<or> (\<exists>j. p = kd @ take j rel \<and> take j rel \<noteq> [] \<and> (j < length rel \<or> S_ISDIR m))))
     \<and> (\<not> S_ISDIR m \<longrightarrow> content w' (progress_key (kd @ rel)) = None)"
proof -
  note r = tree_readyD [OF t]
  note gd = growD [OF good_destD(2) [OF g]]
  have wf: "world_wf w" using gd(1) [OF r(1)] .
  have sc: "w_script w = []" using good_destD(1) [OF g] .
  have src: "content w (ks @ rel) = Some (m, d)" using good_dest_source [OF t g] e(2) by simp
  have pn: "plain_names rel" using source_names [OF r(1) e(2,1)] .
  have kdw: "path_key w destDir = kd" using path_free_dest(3) [OF t g, of "[]"] by simp
  have P: "content w p \<noteq> None \<or> (\<exists>j. p = kd @ take j r \<and> take j r \<noteq> [])"
    if "p \<in> path_prefixes w (join destDir r)" "plain_names r" for p r
    using path_prefixes_join [OF r(3) that(2,1)]
  proof
    assume "\<exists>i. p = path_start w destDir @ take i (names_of (split_slash destDir))"
    then have "is_dir (w_fs w) p"
      using dirs_upto_take [OF r(5)] gd(4) env_cwd [OF gd(2)] by (auto simp: path_start_def)
    then show ?thesis by (auto simp: is_dir_content split: option.splits)
  next
    assume "\<exists>j. p = path_key w destDir @ take j r"
    moreover have "content w kd \<noteq> None"
      using dirs_upto_take [OF r(5), of "length (names_of (split_slash destDir))"] gd(4) r(4)
      by (force simp: path_key_def is_dir_content split: option.splits)
    ultimately show ?thesis using kdw by (metis append_Nil2)
  qed
  show ?thesis
  proof (cases "S_ISDIR m")
    case True
    note pf = path_free_dest [OF t g, of rel]
    have pf': "path_free w (join destDir rel)" "plain_path (join destDir rel)" "path_key w (join destDir rel) = kd @ rel"
      using pf e(2) True by auto
    obtain i where "map_of (w_fs w) (ks @ rel) = Some i" "i_mode i = m" "i_data i = d" using src by (auto simp: content_def)
    with fs_wf_dir_data [OF world_wf_fs [OF wf]] True have "d = []" by auto
    with syncDirectory_nominal [OF wf sc pf'(2,1), of "join srcDir rel" m] pf'(3) obtain w' m'
      where w': "syncDirectory w (join srcDir rel) (join destDir rel) m = (True, w')" "w_script w' = []"
        "is_dir (w_fs w') (kd @ rel)" "content w' (kd @ rel) = Some (m', d)" "perm_bits m' = perm_bits m"
        "grow {kd @ rel} (path_prefixes w (join destDir rel)) w w'" by auto
    have "S_ISDIR m'" using w'(3,4) by (simp add: is_dir_content)
    with w' True P [OF _ pn] show ?thesis
      by (intro exI [of _ w']) (auto simp: executeSyncTask_def copied_def intro!: exI [of _ "path_prefixes w (join destDir rel)"])
  next
    case False
    obtain r0 n where rn: "rel = r0 @ [n]" using e(1) by (metis append_butlast_last_id)
    have v: "valid_name n" "plain_names r0" using pn rn by (auto simp: plain_names_def)
    have "r0 = [] \<or> (\<exists>m' d'. content w0 (ks @ r0) = Some (m', d') \<and> S_ISDIR m')"
      using source_above [OF r(1) e(2), of "length r0"] rn by auto
    note pf = path_free_dest [OF t g this]
    have dw: "dir_at w srcDir ks" using r(2) gd(4,5) by (auto simp: dir_at_def)
    have rs: "resolve w (join srcDir rel) = Some (ks @ rel)"
      using src resolve_join [OF world_wf_fs [OF wf] dw] by (auto simp: content_def)
    have k: "kd @ rel = path_key w (join destDir r0) @ [n]" using pf(3) rn by simp
    have u: "\<not> w_unreadable w (ks @ rel)" "int (length d) < 2 ^ 52"
      using r(8) [OF e(2)] False env_unreadable [OF gd(2)] by auto
    have nd: "\<not> is_dir (w_fs w) (kd @ rel)"
      using good_destD(3) [OF g e] False by (auto simp: is_dir_content)
    have "progress_key (kd @ rel) = kd @ r0 @ [n @ ''.sync_progress'']" using rn by (simp add: progress_key_def butlast_append)
    with good_destD(4) [OF g is_progress_nameI] have np: "content w (progress_key (kd @ rel)) = None" by simp
    have ne: "ks @ rel \<noteq> kd @ rel" using apart [OF r(6,7)] by blast
    obtain w' m' where w': "syncFile fs sched w (join srcDir rel) (join destDir r0 @ ''/'' @ n) m = (True, w')" "w_script w' = []"
      "grow {kd @ rel, progress_key (kd @ rel)} (path_prefixes w (join destDir r0)) w w'"
      "content w' (kd @ rel) = Some (m', d)" "\<not> S_ISDIR m'" "perm_bits m' = perm_bits m" "content w' (progress_key (kd @ rel)) = None"
      using syncFile_nominal [OF wf sc strat rs src False u ne pf(2,1) v(1) k nd np] by blast
    have "content w p \<noteq> None \<or> (\<exists>j. p = kd @ take j rel \<and> take j rel \<noteq> [] \<and> j < length rel)"
      if "p \<in> path_prefixes w (join destDir r0)" for p
      using P [OF that v(2)]
    proof
      assume "\<exists>j. p = kd @ take j r0 \<and> take j r0 \<noteq> []"
      then obtain j where "p = kd @ take j r0" "take j r0 \<noteq> []" by blast
      then show ?thesis using rn by (intro disjI2 exI [of _ "min j (length r0)"]) (simp add: min_def)
    qed simp
    with w' False rn show ?thesis
      by (intro exI [of _ w']) (auto simp: executeSyncTask_def copied_def intro!: exI [of _ "path_prefixes w (join destDir r0)"])
  qed
qed

lemma good_dest_step:
  assumes t: "tree_ready w0 srcDir ks destDir kd" and g: "good_dest w0 ks kd w"
    and e: "rel \<noteq> []" "content w0 (ks @ rel) = Some (m, d)"
    and sc: "w_script w' = []" and c: "copied kd w' rel m d"
    and gr: "grow (if S_ISDIR m then {kd @ rel} else {kd @ rel, progress_key (kd @ rel)}) P w w'"
    and P: "\<forall>p\<in>P. content w p \<noteq> None \<or> (\<exists>j. p = kd @ take j rel \<and> take j rel \<noteq> [] \<and> (j < length rel \<or> S_ISDIR m))"
    and pk: "\<not> S_ISDIR m \<longrightarrow> content w' (progress_key (kd @ rel)) = None"
  shows "good_dest w0 ks kd w'"
    "rel' \<noteq> [] \<Longrightarrow> content w0 (ks @ rel') = Some (m', d') \<Longrightarrow> copied kd w rel' m' d' \<Longrightarrow> copied kd w' rel' m' d'"
    "rel' \<noteq> rel \<Longrightarrow> rel' \<noteq> [] \<Longrightarrow> content w0 (ks @ rel') = Some x \<Longrightarrow> content w (kd @ rel') = Some y \<Longrightarrow>
       content w' (kd @ rel') = Some y"
proof -
  note r = tree_readyD [OF t]
  let ?K = "if S_ISDIR m then {kd @ rel} else {kd @ rel, progress_key (kd @ rel)}"
  obtain r0 n where rn: "rel = r0 @ [n]" using e(1) by (metis append_butlast_last_id)
  have pke: "progress_key (kd @ rel) = kd @ r0 @ [n @ ''.sync_progress'']" using rn by (simp add: progress_key_def butlast_append)
  have KD: "?K \<subseteq> {kd @ rel | rel. rel \<noteq> []}" using e(1) pke by auto
  have change: "content w' p = content w p \<or> p \<in> ?K
      \<or> (\<exists>j m1. p = kd @ take j rel \<and> take j rel \<noteq> [] \<and> is_dir (w_fs w') p \<and> S_ISDIR m1
           \<and> (\<exists>d1. content w0 (ks @ take j rel) = Some (m1, d1)))" for p
  proof (cases "content w' p = content w p \<or> p \<in> ?K")
    case False
    then have "content w p = None" "p \<in> P" "is_dir (w_fs w') p" using gr by (auto simp: grow_def)
    with P obtain j where j: "p = kd @ take j rel" "take j rel \<noteq> []" "j < length rel \<or> S_ISDIR m" by blast
    have "\<exists>m1 d1. content w0 (ks @ take j rel) = Some (m1, d1) \<and> S_ISDIR m1"
      using source_above [OF r(1) e(2), of j] e(2) j(3) by (cases "j < length rel") auto
    with j \<open>is_dir (w_fs w') p\<close> show ?thesis by blast
  qed blast
  have same: "content w' p = content w p" if "p \<notin> {kd @ rel | rel. rel \<noteq> []}" for p
    using change [of p] KD that by blast
  have "grow {kd @ rel | rel. rel \<noteq> []} {} w w'"
    unfolding grow_def using growD(1-4) [OF gr] same by blast
  then have g1: "grow {kd @ rel | rel. rel \<noteq> []} {} w0 w'" using grow_trans1 [OF good_destD(2) [OF g]] by blast
  have prog: "is_progress_name (n @ ''.sync_progress'')" by (rule is_progress_nameI)
  have compat: "content w' (kd @ q) = None \<or> is_dir (w_fs w') (kd @ q) = S_ISDIR m1"
    if q: "q \<noteq> []" "content w0 (ks @ q) = Some (m1, d1)" for q m1 d1
    using change [of "kd @ q"]
  proof (elim disjE)
    assume "content w' (kd @ q) = content w (kd @ q)"
    with good_destD(3) [OF g q] show ?thesis by (simp add: is_dir_content)
  next
    assume "kd @ q \<in> ?K"
    moreover have "kd @ q \<noteq> progress_key (kd @ rel)"
      using r(9) [of r0 "n @ ''.sync_progress''"] q(2) prog pke by auto
    ultimately have "q = rel" by (auto split: if_splits)
    with c e(2) q(2) show ?thesis by (auto simp: copied_def is_dir_content)
  next
    assume "\<exists>j m1. kd @ q = kd @ take j rel \<and> take j rel \<noteq> [] \<and> is_dir (w_fs w') (kd @ q) \<and> S_ISDIR m1
           \<and> (\<exists>d1. content w0 (ks @ take j rel) = Some (m1, d1))"
    with q(2) show ?thesis by auto
  qed
  have noprog: "content w' (kd @ q @ [x]) = None" if x: "is_progress_name x" for q x
    using change [of "kd @ q @ [x]"]
  proof (elim disjE)
    assume "content w' (kd @ q @ [x]) = content w (kd @ q @ [x])"
    with good_destD(4) [OF g x] show ?thesis by simp
  next
    assume "kd @ q @ [x] \<in> ?K"
    moreover have "kd @ q @ [x] \<noteq> kd @ rel" using r(9) [of q x] e(2) x by auto
    ultimately show ?thesis using pk by (auto split: if_splits)
  next
    assume "\<exists>j m1. kd @ q @ [x] = kd @ take j rel \<and> take j rel \<noteq> [] \<and> is_dir (w_fs w') (kd @ q @ [x]) \<and> S_ISDIR m1
           \<and> (\<exists>d1. content w0 (ks @ take j rel) = Some (m1, d1))"
    with r(9) [of q x] x show ?thesis by (metis append.assoc same_append_eq)
  qed
  show "good_dest w0 ks kd w'" unfolding good_dest_def using sc g1 compat noprog by blast
  have keep: "content w' (kd @ q) = Some z"
    if "q \<noteq> rel" "content w0 (ks @ q) = Some u" "content w (kd @ q) = Some z" for q u z
  proof -
    have "kd @ q \<noteq> progress_key (kd @ rel)"
      using r(9) [of r0 "n @ ''.sync_progress''" u] that(2) prog pke by (cases u) auto
    with that(1) have "kd @ q \<notin> ?K" by auto
    with that(3) growD(6) [OF gr this] show ?thesis by simp
  qed
  show "rel' \<noteq> rel \<Longrightarrow> rel' \<noteq> [] \<Longrightarrow> content w0 (ks @ rel') = Some x \<Longrightarrow> content w (kd @ rel') = Some y \<Longrightarrow>
       content w' (kd @ rel') = Some y"
    using keep by blast
  assume q: "rel' \<noteq> []" "content w0 (ks @ rel') = Some (m', d')" and cp: "copied kd w rel' m' d'"
  show "copied kd w' rel' m' d'"
  proof (cases "rel' = rel")
    case True
    with c e(2) q(2) show ?thesis by simp
  next
    case False
    with keep q(2) cp show ?thesis by (auto simp: copied_def)
  qed
qed

definition task_of :: "string \<Rightarrow> string \<Rightarrow> string list \<Rightarrow> mode_t \<Rightarrow> SyncTask" where
  "task_of srcDir destDir rel m =
     \<lparr>tk_srcPath = join srcDir rel, tk_destPath = join destDir rel, tk_isDirectory = S_ISDIR m, tk_mode = m\<rparr>"

lemma execute_tasks_copies:
  assumes t: "tree_ready w0 srcDir ks destDir kd" and strat: "fsy_conflictStrategy fs = ''overwrite''"
  shows "good_dest w0 ks kd w \<Longrightarrow>
    (\<And>k. k \<in> set tasks \<Longrightarrow> \<exists>rel m d. rel \<noteq> [] \<and> content w0 (ks @ rel) = Some (m, d) \<and> k = task_of srcDir destDir rel m) \<Longrightarrow>
    \<exists>w'. execute_tasks fs sched w tasks = (True, w') \<and> good_dest w0 ks kd w' \<and>
      (\<forall>rel m d. rel \<noteq> [] \<and> content w0 (ks @ rel) = Some (m, d) \<longrightarrow>
         (copied kd w rel m d \<or> task_of srcDir destDir rel m \<in> set tasks \<longrightarrow> copied kd w' rel m d) \<and>
         (\<forall>y. task_of srcDir destDir rel m \<notin> set tasks \<and> content w (kd @ rel) = Some y \<longrightarrow> content w' (kd @ rel) = Some y))"
proof (induction tasks arbitrary: w)
  case Nil
  then show ?case by auto
next
  case (Cons k tasks)
  note r = tree_readyD [OF t]
  obtain rel m d where k: "rel \<noteq> []" "content w0 (ks @ rel) = Some (m, d)" "k = task_of srcDir destDir rel m"
    using Cons.prems(2) [of k] by auto
  obtain w1 P where w1: "executeSyncTask fs sched w k = (True, w1)" "w_script w1 = []" "copied kd w1 rel m d"
     "grow (if S_ISDIR m then {kd @ rel} else {kd @ rel, progress_key (kd @ rel)}) P w w1"
     "\<forall>p\<in>P. content w p \<noteq> None \<or> (\<exists>j. p = kd @ take j rel \<and> take j rel \<noteq> [] \<and> (j < length rel \<or> S_ISDIR m))"
     "\<not> S_ISDIR m \<longrightarrow> content w1 (progress_key (kd @ rel)) = None"
    using task_effect [OF t Cons.prems(1) strat k(1,2), of sched] k(3) unfolding task_of_def by blast
  note st = good_dest_step [OF t Cons.prems(1) k(1,2) w1(2-)]
  have prems: "\<exists>rel m d. rel \<noteq> [] \<and> content w0 (ks @ rel) = Some (m, d) \<and> k = task_of srcDir destDir rel m"
    if "k \<in> set tasks" for k
    using Cons.prems(2) that by simp
  obtain w2 where w2: "execute_tasks fs sched w1 tasks = (True, w2)" "good_dest w0 ks kd w2"
    and c2: "\<And>rel m d. rel \<noteq> [] \<Longrightarrow> content w0 (ks @ rel) = Some (m, d) \<Longrightarrow>
         copied kd w1 rel m d \<or> task_of srcDir destDir rel m \<in> set tasks \<Longrightarrow> copied kd w2 rel m d"
    and k2: "\<And>rel m d y. rel \<noteq> [] \<Longrightarrow> content w0 (ks @ rel) = Some (m, d) \<Longrightarrow>
         task_of srcDir destDir rel m \<notin> set tasks \<Longrightarrow> content w1 (kd @ rel) = Some y \<Longrightarrow> content w2 (kd @ rel) = Some y"
    using Cons.IH [OF st(1) prems] by blast
  have same: "rel' = rel \<longleftrightarrow> k = task_of srcDir destDir rel' m'"
    if q: "rel' \<noteq> []" "content w0 (ks @ rel') = Some (m', d')" for rel' m' d'
    using k q join_inject [OF source_names [OF r(1) q(2,1)] source_names [OF r(1) k(2,1)], of srcDir]
    by (auto simp: task_of_def)
  have "copied kd w2 rel' m' d'" if q: "rel' \<noteq> []" "content w0 (ks @ rel') = Some (m', d')"
    "copied kd w rel' m' d' \<or> task_of srcDir destDir rel' m' \<in> set (k # tasks)" for rel' m' d'
  proof (cases "rel' = rel")
    case True
    with q(2) k(2) w1(3) c2 [OF q(1,2)] show ?thesis by simp
  next
    case False
    with q(3) same [OF q(1,2)] st(2) [OF q(1,2)] c2 [OF q(1,2)] show ?thesis by auto
  qed
  moreover have "content w2 (kd @ rel') = Some y" if q: "rel' \<noteq> []" "content w0 (ks @ rel') = Some (m', d')"
    "task_of srcDir destDir rel' m' \<notin> set (k # tasks)" "content w (kd @ rel') = Some y" for rel' m' d' y
    using q(3) same [OF q(1,2)] st(3) [OF _ q(1,2,4)] k2 [OF q(1,2), of y] by (cases y) auto
  ultimately show ?case using w1(1) w2 by auto
qed

section \<open>A whole local synchronisation\<close>

text \<open>What the caller must know before a local synchronisation of \<open>srcDir\<close> (at \<open>ks\<close>) into \<open>destDir\<close>.\<close>

definition entry_ok :: "world \<Rightarrow> fpath \<Rightarrow> fpath \<Rightarrow> fpath \<times> inode \<Rightarrow> bool" where
  "entry_ok w ks kd = (\<lambda>(p, i).
     (is_prefix ks p \<longrightarrow>
        (S_ISDIR (i_mode i) \<or> \<not> w_unreadable w p \<and> int (length (i_data i)) < 2 ^ 52)
        \<and> (length ks < length p \<longrightarrow> \<not> is_progress_name (last p)
             \<and> (case map_of (w_fs w) (kd @ drop (length ks) p) of
                  None \<Rightarrow> True | Some j \<Rightarrow> S_ISDIR (i_mode j) = S_ISDIR (i_mode i))))
     \<and> (is_prefix kd p \<and> length kd < length p \<longrightarrow>
          \<not> is_progress_name (last p) \<and> (S_ISDIR (i_mode i) \<or> \<not> w_unreadable w p)))"

definition mirror_ready :: "world \<Rightarrow> string \<Rightarrow> fpath \<Rightarrow> string \<Rightarrow> nat \<Rightarrow> bool" where
  "mirror_ready w srcDir ks destDir fuel \<longleftrightarrow>
     world_wf w \<and> w_script w = [] \<and> dir_at w srcDir ks \<and> plain_path destDir \<and> path_free w destDir
     \<and> \<not> is_prefix ks (path_key w destDir) \<and> \<not> is_prefix (path_key w destDir) ks
     \<and> list_all (entry_ok w ks (path_key w destDir)) (w_fs w)
     \<and> length (path_key w destDir) < fuel \<and> list_all (\<lambda>(p, i). length p < fuel) (w_fs w)"

lemma entry_okD:
  assumes "list_all (entry_ok w ks kd) (w_fs w)" "content w p = Some (m, d)"
  shows "is_prefix ks p \<Longrightarrow> S_ISDIR m \<or> \<not> w_unreadable w p \<and> int (length d) < 2 ^ 52"
    "is_prefix ks p \<Longrightarrow> length ks < length p \<Longrightarrow> \<not> is_progress_name (last p)"
    "is_prefix ks p \<Longrightarrow> length ks < length p \<Longrightarrow> content w (kd @ drop (length ks) p) = Some (m', d') \<Longrightarrow>
       S_ISDIR m' = S_ISDIR m"
    "is_prefix kd p \<Longrightarrow> length kd < length p \<Longrightarrow> \<not> is_progress_name (last p) \<and> (S_ISDIR m \<or> \<not> w_unreadable w p)"
proof -
  obtain i where i: "map_of (w_fs w) p = Some i" "i_mode i = m" "i_data i = d" using assms(2) by (auto simp: content_def)
  then have "entry_ok w ks kd (p, i)" using assms(1) by (auto simp: list_all_iff dest: map_of_SomeD)
  then show "is_prefix ks p \<Longrightarrow> S_ISDIR m \<or> \<not> w_unreadable w p \<and> int (length d) < 2 ^ 52"
    "is_prefix ks p \<Longrightarrow> length ks < length p \<Longrightarrow> \<not> is_progress_name (last p)"
    "is_prefix ks p \<Longrightarrow> length ks < length p \<Longrightarrow> content w (kd @ drop (length ks) p) = Some (m', d') \<Longrightarrow>
       S_ISDIR m' = S_ISDIR m"
    "is_prefix kd p \<Longrightarrow> length kd < length p \<Longrightarrow> \<not> is_progress_name (last p) \<and> (S_ISDIR m \<or> \<not> w_unreadable w p)"
    using i(2,3) by (auto simp: entry_ok_def content_def)
qed

lemma dirs_upto_all: "(\<And>i. is_dir fs (k @ take i ns)) \<Longrightarrow> dirs_upto fs k ns"
proof (induction ns arbitrary: k)
  case Nil
  from Nil [of 0] show ?case by simp
next
  case (Cons n ns)
  have "is_dir fs ((k @ [n]) @ take i ns)" for i using Cons.prems [of "Suc i"] by simp
  from Cons.IH [OF this] Cons.prems [of 0] show ?case by simp
qed

lemma dir_prefixes:
  assumes "fs_wf fs" "is_dir fs (k @ ns)"
  shows "is_dir fs (k @ take i ns)"
proof (cases "i < length ns")
  case True
  obtain a where "map_of fs ((k @ take i ns) @ drop i ns) = Some a" using is_dir_dom [OF assms(2)] by auto
  from fs_wf_below [OF assms(1) this] True show ?thesis by simp
next
  case False
  with assms(2) show ?thesis by simp
qed

lemma mirror_started:
  assumes r: "mirror_ready w srcDir ks destDir fuel" and kd: "kd = path_key w destDir"
    and w1: "w_script w1 = []" "resolve w1 destDir = Some kd" "is_dir (w_fs w1) kd" and gr: "grow {} (path_prefixes w destDir) w w1"
  shows "tree_ready w1 srcDir ks destDir kd \<and> good_dest w1 ks kd w1 \<and> dir_at w1 destDir kd
     \<and> (\<forall>rel. content w1 (ks @ rel) = content w (ks @ rel)) \<and> (\<forall>rel. rel \<noteq> [] \<longrightarrow> content w1 (kd @ rel) = content w (kd @ rel))
     \<and> env_of w1 = env_of w \<and> deep_enough fuel w1 ks \<and> deep_enough fuel w1 kd"
proof -
  note rd = r [unfolded mirror_ready_def, folded kd]
  have wf: "world_wf w" and pp: "plain_path destDir"
    and ds: "dir_at w srcDir ks" and np: "\<not> is_prefix ks kd" "\<not> is_prefix kd ks"
    and ok: "list_all (entry_ok w ks kd) (w_fs w)" and fu: "length kd < fuel" "list_all (\<lambda>(p, i). length p < fuel) (w_fs w)"
    using rd by auto
  note g = growD [OF gr]
  have wf1: "world_wf w1" using g(1) [OF wf] .
  have src: "content w1 (ks @ rel) = content w (ks @ rel)" for rel
  proof -
    have "ks @ rel \<notin> path_prefixes w destDir"
    proof
      assume "ks @ rel \<in> path_prefixes w destDir"
      then obtain i where i: "ks @ rel = path_start w destDir @ take i (names_of (split_slash destDir))"
        by (auto simp: path_prefixes_def)
      have "kd = ks @ rel @ drop i (names_of (split_slash destDir))" using kd i by (metis append_assoc append_take_drop_id path_key_def)
      then show False using np(1) by (simp add: is_prefix_def)
    qed
    with g(7) show ?thesis by simp
  qed
  have dst: "content w1 (kd @ rel) = content w (kd @ rel)" if "rel \<noteq> []" for rel
  proof -
    have "kd @ rel \<notin> path_prefixes w destDir"
      using path_prefixes_length [of "kd @ rel" w destDir] that kd by auto
    with g(7) show ?thesis by simp
  qed
  have un: "w_unreadable w1 = w_unreadable w" by (rule env_unreadable [OF g(2)])
  have "is_dir (w_fs w1) (path_start w destDir @ names_of (split_slash destDir))"
    using w1(3) kd by (simp add: path_key_def)
  from dir_prefixes [OF world_wf_fs [OF wf1] this]
  have du: "dirs_upto (w_fs w1) (path_start w destDir) (names_of (split_slash destDir))" by (rule dirs_upto_all)
  have ps: "path_start w1 destDir = path_start w destDir" using env_cwd [OF g(2)] by (simp add: path_start_def)
  have ds1: "dir_at w1 srcDir ks" using ds g(4,5) by (auto simp: dir_at_def)
  have dd1: "dir_at w1 destDir kd" using w1(2,3) pp by (simp add: dir_at_def plain_path_def)
  have pre: "is_prefix k (k @ rel)" for k rel by (simp add: is_prefix_def)
  have tr: "tree_ready w1 srcDir ks destDir kd"
    unfolding tree_ready_def
    using wf1 ds1 pp kd du ps np src un entry_okD(1) [OF ok _ pre] entry_okD(2) [OF ok _ pre]
    by (auto simp: path_key_def) (metis append_is_Nil_conv last_appendR last_snoc less_add_same_cancel1 length_append length_greater_0_conv not_Cons_self2)
  have gd: "good_dest w1 ks kd w1"
    unfolding good_dest_def
  proof (intro conjI allI impI)
    fix rel m d assume q: "rel \<noteq> [] \<and> content w1 (ks @ rel) = Some (m, d)"
    show "content w1 (kd @ rel) = None \<or> is_dir (w_fs w1) (kd @ rel) = S_ISDIR m"
      using entry_okD(3) [OF ok, of "ks @ rel" m d] q src dst [of rel] pre [of ks rel]
      by (cases "content w (kd @ rel)") (auto simp: is_dir_content)
  next
    fix rel n assume q: "is_progress_name n"
    show "content w1 (kd @ rel @ [n]) = None"
      using entry_okD(4) [OF ok, of "kd @ rel @ [n]"] q dst [of "rel @ [n]"] pre [of kd "rel @ [n]"]
      by (cases "content w (kd @ rel @ [n])") auto
  qed (simp_all add: w1(1))
  have fuel: "length p < fuel" if "content w1 p \<noteq> None" for p
  proof (cases "content w p")
    case None
    then have "p \<in> path_prefixes w destDir" using that g(7) [of p] by fastforce
    then show ?thesis using path_prefixes_length fu(1) kd by fastforce
  next
    case (Some c)
    then show ?thesis using fu(2) by (auto simp: content_def list_all_iff dest!: map_of_SomeD)
  qed
  have "deep_enough fuel w1 k" for k
    unfolding deep_enough_def using fuel by (auto simp: content_None) (metis add_lessD1 add.commute length_append option.distinct(1))
  with tr gd dd1 src dst g(2) show ?thesis by blast
qed

text \<open>The hash of a whole file, as \<^verbatim>\<open>calculateMD5\<close> reports it.\<close>

definition md5_hex :: "'c md5_api \<Rightarrow> byte list \<Rightarrow> string" where
  "md5_hex M d = hex_string (MD5_Final M (MD5_Update M (MD5_Init M) d))"

lemma calculateMD5_hex:
  assumes "md5_stream M" "w_script w = []" "ifs_open w path = Some d"
  shows "calculateMD5 M w path = (md5_hex M d, w)"
  using assms md5_stream.md5_loop_all [OF assms(1,2)] by (simp add: calculateMD5_def md5_hex_def)

lemma S_ISREG_not_dir: "S_ISREG m \<Longrightarrow> \<not> S_ISDIR m"
  by (auto simp: S_ISREG_def S_ISDIR_def S_IFREG_def S_IFDIR_def)

lemma meta_of_md5:
  assumes M: "md5_stream M" and w: "world_wf w" "w_script w = []" and d: "dir_at w dir k"
    and i: "map_of (w_fs w) (k @ rel) = Some i" "S_ISREG (i_mode i)" "\<not> w_unreadable w (k @ rel)"
  shows "fm_md5 (meta_of M w (join dir rel) (k @ rel) i) = md5_hex M (i_data i)"
proof -
  have "ifs_open w (join dir rel) = Some (i_data i)"
    using resolve_join [OF world_wf_fs [OF w(1)] d i(1)] i(1,3) by (simp add: ifs_open_def data_at_def)
  from calculateMD5_hex [OF M w(2) this] i(2) show ?thesis by (simp add: meta_of_def)
qed

text \<open>\<open>mirrored\<close>: the entry has a counterpart of the same kind, for a regular file with the same size and
  the same hash.\<close>

definition mirrored :: "'c md5_api \<Rightarrow> fpath \<Rightarrow> world \<Rightarrow> string list \<Rightarrow> mode_t \<Rightarrow> byte list \<Rightarrow> bool" where
  "mirrored M kd w rel m d =
     (case content w (kd @ rel) of
        None \<Rightarrow> False
      | Some (m', d') \<Rightarrow> S_ISDIR m' = S_ISDIR m
          \<and> (S_ISREG m \<longrightarrow> length d' = length d \<and> md5_hex M d' = md5_hex M d))"

lemma copied_mirrored: "copied kd w rel m d \<Longrightarrow> mirrored M kd w rel m d"
  by (auto simp: copied_def mirrored_def)

lemma up_to_date_mirrored:
  assumes M: "md5_stream M" and w: "world_wf w" "w_script w = []"
    and d: "dir_at w srcDir ks" "dir_at w destDir kd"
    and i: "map_of (w_fs w) (ks @ rel) = Some i" and j: "map_of (w_fs w) (kd @ rel) = Some j"
    and kind: "S_ISDIR (i_mode j) = S_ISDIR (i_mode i)"
    and rd: "S_ISDIR (i_mode i) \<or> \<not> w_unreadable w (ks @ rel)" "S_ISDIR (i_mode j) \<or> \<not> w_unreadable w (kd @ rel)"
    and n: "\<not> needSync (meta_of M w (join srcDir rel) (ks @ rel) i) (meta_of M w (join destDir rel) (kd @ rel) j)"
  shows "mirrored M kd w rel (i_mode i) (i_data i)"
proof -
  have "length (i_data j) = length (i_data i) \<and> md5_hex M (i_data j) = md5_hex M (i_data i)" if reg: "S_ISREG (i_mode i)"
  proof -
    from n reg have reg': "S_ISREG (i_mode j)" by (auto simp: needSync_def meta_of_def split: if_splits)
    note nd = S_ISREG_not_dir [OF reg] S_ISREG_not_dir [OF reg']
    have "fm_md5 (meta_of M w (join srcDir rel) (ks @ rel) i) = md5_hex M (i_data i)"
      "fm_md5 (meta_of M w (join destDir rel) (kd @ rel) j) = md5_hex M (i_data j)"
      using meta_of_md5 [OF M w d(1) i reg] meta_of_md5 [OF M w d(2) j reg'] rd nd by auto
    moreover have "fm_size (meta_of M w (join srcDir rel) (ks @ rel) i) = int (length (i_data i))"
      "fm_size (meta_of M w (join destDir rel) (kd @ rel) j) = int (length (i_data j))"
      using nd by (simp_all add: meta_of_def stat_of_def)
    ultimately show ?thesis using n reg by (auto simp: needSync_def meta_of_def [of _ _ _ _ i] split: if_splits)
  qed
  with j kind show ?thesis by (simp add: mirrored_def content_def)
qed

lemma mirror_tasks:
  assumes M: "md5_stream M" and ord: "lists_entries ord" and strat: "fsy_conflictStrategy fs = ''overwrite''"
    and r: "mirror_ready w srcDir ks destDir fuel"
    and w1: "w_script w1 = []" "resolve w1 destDir = Some (path_key w destDir)" "is_dir (w_fs w1) (path_key w destDir)"
    and gr: "grow {} (path_prefixes w destDir) w w1"
  shows "\<exists>tasks. detectChanges fuel M ord w1 srcDir destDir = Some (tasks, w1) \<and>
     (\<forall>ts. set ts = set tasks \<longrightarrow> (\<exists>w'. execute_tasks fs sched w1 ts = (True, w')
       \<and> (\<forall>rel m d. rel \<noteq> [] \<and> content w (ks @ rel) = Some (m, d) \<longrightarrow> mirrored M (path_key w destDir) w' rel m d)
       \<and> (\<forall>rel. content w' (ks @ rel) = content w (ks @ rel))
       \<and> grow {path_key w destDir @ rel | rel. rel \<noteq> []} (path_prefixes w destDir) w w'))"
proof -
  let ?kd = "path_key w destDir"
  have st: "tree_ready w1 srcDir ks destDir ?kd" "good_dest w1 ks ?kd w1" "dir_at w1 destDir ?kd"
    "\<And>rel. content w1 (ks @ rel) = content w (ks @ rel)" "\<And>rel. rel \<noteq> [] \<Longrightarrow> content w1 (?kd @ rel) = content w (?kd @ rel)"
    "env_of w1 = env_of w" "deep_enough fuel w1 ks" "deep_enough fuel w1 ?kd"
    using mirror_started [OF r refl w1 gr] by blast+
  note t = tree_readyD [OF st(1)]
  obtain tasks where tk: "detectChanges fuel M ord w1 srcDir destDir = Some (tasks, w1)"
    "\<And>k. k \<in> set tasks \<longleftrightarrow> (\<exists>rel i. rel \<noteq> [] \<and> map_of (w_fs w1) (ks @ rel) = Some i \<and> k = task_for srcDir destDir rel i
        \<and> out_of_date M w1 srcDir ks destDir ?kd rel i)"
    using detectChanges_tasks [OF world_wf_fs [OF t(1)] w1(1) ord t(2) st(3,7,8)] by blast
  have tf: "task_for srcDir destDir rel i = task_of srcDir destDir rel (i_mode i)" for rel i
    by (simp add: task_for_def task_of_def)
  have "\<exists>rel m d. rel \<noteq> [] \<and> content w1 (ks @ rel) = Some (m, d) \<and> k = task_of srcDir destDir rel m" if k: "k \<in> set tasks" for k
  proof -
    from k tk(2) obtain rel i where "rel \<noteq> []" "map_of (w_fs w1) (ks @ rel) = Some i" "k = task_for srcDir destDir rel i" by blast
    then show ?thesis unfolding tf by (intro exI [of _ rel]) (auto simp: content_def)
  qed
  then have ok_tasks: "\<exists>rel m d. rel \<noteq> [] \<and> content w1 (ks @ rel) = Some (m, d) \<and> k = task_of srcDir destDir rel m" if "set ts = set tasks" "k \<in> set ts" for ts k
    using that by simp
  show ?thesis
  proof (intro exI [of _ tasks] conjI allI impI tk(1))
  fix ts assume ts: "set ts = set tasks"
  note ex = execute_tasks_copies [where tasks = ts and sched = sched, OF st(1) strat st(2) ok_tasks [OF ts]]
  obtain w' where w': "execute_tasks fs sched w1 ts = (True, w')" "good_dest w1 ks ?kd w'"
    and all: "\<forall>rel m d. rel \<noteq> [] \<and> content w1 (ks @ rel) = Some (m, d) \<longrightarrow>
         (copied ?kd w1 rel m d \<or> task_of srcDir destDir rel m \<in> set ts \<longrightarrow> copied ?kd w' rel m d) \<and>
         (\<forall>y. task_of srcDir destDir rel m \<notin> set ts \<and> content w1 (?kd @ rel) = Some y \<longrightarrow> content w' (?kd @ rel) = Some y)"
    by (rule exE [OF ex], assumption, elim conjE, rule that)
  note cp = all [rule_format, THEN conjunct1, rule_format, OF conjI disjI2]
  note kp = all [rule_format, THEN conjunct2, rule_format, OF conjI conjI]
  have ok: "list_all (entry_ok w ks ?kd) (w_fs w)" using r by (simp add: mirror_ready_def)
  have un: "w_unreadable w1 = w_unreadable w" by (rule env_unreadable [OF st(6)])
  have "mirrored M ?kd w' rel m d" if q: "rel \<noteq> []" "content w (ks @ rel) = Some (m, d)" for rel m d
  proof (cases "task_of srcDir destDir rel m \<in> set ts")
    case True
    with cp q st(4) show ?thesis by (auto intro: copied_mirrored)
  next
    case False
    have q1: "content w1 (ks @ rel) = Some (m, d)" using q(2) st(4) by simp
    then obtain i where i: "map_of (w_fs w1) (ks @ rel) = Some i" "i_mode i = m" "i_data i = d" by (auto simp: content_def)
    with False ts tk(2) [of "task_of srcDir destDir rel m"] q(1) tf [of rel i]
    have "\<not> out_of_date M w1 srcDir ks destDir ?kd rel i" by metis
    then obtain j where j: "map_of (w_fs w1) (?kd @ rel) = Some j"
      "\<not> needSync (meta_of M w1 (join srcDir rel) (ks @ rel) i) (meta_of M w1 (join destDir rel) (?kd @ rel) j)"
      by (auto simp: out_of_date_needSync split: option.splits)
    have cj: "content w1 (?kd @ rel) = Some (i_mode j, i_data j)" using j(1) by (simp add: content_def)
    with st(5) [OF q(1)] have cj0: "content w (?kd @ rel) = Some (i_mode j, i_data j)" by simp
    have "S_ISDIR (i_mode j) = S_ISDIR (i_mode i)"
      using entry_okD(3) [OF ok q(2), of "i_mode j" "i_data j"] cj0 i(2) q(1) by (simp add: is_prefix_def)
    moreover have "S_ISDIR (i_mode i) \<or> \<not> w_unreadable w1 (ks @ rel)" "S_ISDIR (i_mode j) \<or> \<not> w_unreadable w1 (?kd @ rel)"
      using entry_okD(1) [OF ok q(2)] entry_okD(4) [OF ok cj0] q(1) i(2) un by (auto simp: is_prefix_def)
    ultimately have "mirrored M ?kd w1 rel (i_mode i) (i_data i)"
      using up_to_date_mirrored [OF M t(1) w1(1) t(2) st(3) i(1) j(1)] j(2) by blast
    with kp [OF q(1) q1 False cj] cj i show ?thesis by (simp add: mirrored_def)
  qed
  moreover have "grow {?kd @ rel | rel. rel \<noteq> []} (path_prefixes w destDir) w w'"
    using grow_trans [OF gr good_destD(2) [OF w'(2)]] by simp
  ultimately show "\<exists>w'. execute_tasks fs sched w1 ts = (True, w')
       \<and> (\<forall>rel m d. rel \<noteq> [] \<and> content w (ks @ rel) = Some (m, d) \<longrightarrow> mirrored M ?kd w' rel m d)
       \<and> (\<forall>rel. content w' (ks @ rel) = content w (ks @ rel))
       \<and> grow {?kd @ rel | rel. rel \<noteq> []} (path_prefixes w destDir) w w'"
    using good_dest_source [OF st(1) w'(2)] st(4) w'(1) by (intro exI [of _ w']) auto
  qed
qed

lemma syncLocal_mirrors_lemma:
  assumes M: "md5_stream M" and ord: "lists_entries ord" and strat: "fsy_conflictStrategy fs = ''overwrite''"
    and r: "mirror_ready w srcDir ks destDir fuel"
  shows "\<exists>w'. syncLocal fuel M ord fs sched w srcDir destDir recursive = Some (True, w')
     \<and> (\<forall>rel m d. rel \<noteq> [] \<and> content w (ks @ rel) = Some (m, d) \<longrightarrow> mirrored M (path_key w destDir) w' rel m d)
     \<and> (\<forall>rel. content w' (ks @ rel) = content w (ks @ rel))
     \<and> grow {path_key w destDir @ rel | rel. rel \<noteq> []} (path_prefixes w destDir) w w'"
proof -
  let ?kd = "path_key w destDir"
  obtain w1 where w1: "createDirectory w destDir 0x1ED = (True, w1)" "w_script w1 = []"
    "resolve w1 destDir = Some ?kd" "is_dir (w_fs w1) ?kd"
    using createDirectory_total [of w destDir "0x1ED"] r unfolding mirror_ready_def by blast
  have gr: "grow {} (path_prefixes w destDir) w w1"
    using grow_createDirectory [of destDir w "0x1ED"] w1(1) r by (simp add: mirror_ready_def)
  obtain tasks where tk: "detectChanges fuel M ord w1 srcDir destDir = Some (tasks, w1)"
    "\<forall>ts. set ts = set tasks \<longrightarrow> (\<exists>w'. execute_tasks fs sched w1 ts = (True, w')
       \<and> (\<forall>rel m d. rel \<noteq> [] \<and> content w (ks @ rel) = Some (m, d) \<longrightarrow> mirrored M ?kd w' rel m d)
       \<and> (\<forall>rel. content w' (ks @ rel) = content w (ks @ rel))
       \<and> grow {?kd @ rel | rel. rel \<noteq> []} (path_prefixes w destDir) w w')"
    using mirror_tasks [OF M ord strat r w1(2-4) gr] by blast
  from tk(2) [rule_format, OF refl] w1(1) tk(1) show ?thesis by (auto simp: syncLocal_def)
qed

end
