(* ===== verification/TcpNet.thy ===== *)
theory TcpNet
  imports FileTree
begin

text \<open>
  \<^verbatim>\<open>src/network/TcpClient.cpp\<close> and \<^verbatim>\<open>src/network/TcpServer.cpp\<close>, and the loops around
  \<^verbatim>\<open>send\<close> and \<^verbatim>\<open>recv\<close> that they share with the RPC and server code.  The locales
  \<open>exact_writer\<close> and \<open>exact_reader\<close> state what such a loop promises to its callers.
\<close>

section \<open>Sending and receiving everything\<close>

text \<open>
  Send until nothing is left.  \<open>retry\<close>: an interrupted call is repeated (\<^verbatim>\<open>EINTR\<close>) instead of
  failing; \<open>zero_ok\<close>: a call that moved nothing is repeated instead of failing.
\<close>

function send_loop :: "bool \<Rightarrow> bool \<Rightarrow> int \<Rightarrow> world \<Rightarrow> byte list \<Rightarrow> bool \<times> world" where
  "send_loop retry zero_ok fd w data =
     (if data = [] then (True, w)
      else case sys_send w fd data of
        (WRet n, w1) \<Rightarrow> if n = 0 \<and> \<not> zero_ok then (False, w1)
                        else send_loop retry zero_ok fd w1 (drop n data)
      | (WIntr, w1) \<Rightarrow> if retry then send_loop retry zero_ok fd w1 data else (False, w1)
      | (WErr, w1) \<Rightarrow> (False, w1))"
  by pat_completeness auto
termination
  by (relation "measure (\<lambda>(retry, zero_ok, fd, w, data). length (w_script w) + length data)")
     (auto simp: sys_send_def next_ev_def Let_def ev_count_def split: list.splits ev.splits if_splits)

declare send_loop.simps [simp del]

text \<open>Receive exactly \<open>n\<close> bytes; \<^term>\<open>None\<close> when the peer closes or the call fails first.\<close>

function recv_loop :: "bool \<Rightarrow> int \<Rightarrow> world \<Rightarrow> nat \<Rightarrow> byte list option \<times> world" where
  "recv_loop retry fd w n =
     (if n = 0 then (Some [], w)
      else case sys_recv w fd n of
        (RData bs, w1) \<Rightarrow>
          if bs = [] then (None, w1)
          else (case recv_loop retry fd w1 (n - length bs) of
                  (None, w2) \<Rightarrow> (None, w2)
                | (Some cs, w2) \<Rightarrow> (Some (bs @ cs), w2))
      | (RIntr, w1) \<Rightarrow> if retry then recv_loop retry fd w1 n else (None, w1)
      | (RErr, w1) \<Rightarrow> (None, w1))"
  by pat_completeness auto
termination
  by (relation "measure (\<lambda>(retry, fd, w, n). length (w_script w) + n)")
     (auto simp: sys_recv_def next_ev_def Let_def read_count_def split: list.splits ev.splits if_splits)

declare recv_loop.simps [simp del]

section \<open>\<^verbatim>\<open>TcpClient\<close>\<close>

record TcpClient =
  tc_sockfd :: int
  tc_connected :: bool
  tc_timeoutMs :: int
  tc_sockopt :: "(int \<times> int) option"

definition TcpClient_new :: TcpClient where
  "TcpClient_new = \<lparr>tc_sockfd = -1, tc_connected = False, tc_timeoutMs = 5000, tc_sockopt = None\<rparr>"

text \<open>\<^verbatim>\<open>inet_pton(AF_INET, ...)\<close> accepts four decimal octets.\<close>

definition is_octet :: "string \<Rightarrow> bool" where
  "is_octet s \<longleftrightarrow> s \<noteq> [] \<and> length s \<le> 3 \<and> list_all is_digit s \<and>
     (length s > 1 \<longrightarrow> hd s \<noteq> CHR ''0'') \<and> dec_value s \<le> 255"

definition inet_pton_ok :: "string \<Rightarrow> bool" where
  "inet_pton_ok s \<longleftrightarrow> length (split_on (CHR ''.'') s) = 4 \<and> list_all is_octet (split_on (CHR ''.'') s)"

text \<open>\<^verbatim>\<open>htons(port)\<close> keeps 16 bits.\<close>

definition port16 :: "int \<Rightarrow> nat" where
  "port16 port = nat (port mod 65536)"

definition TcpClient_connect :: "world \<Rightarrow> TcpClient \<Rightarrow> string \<Rightarrow> int \<Rightarrow> bool \<times> TcpClient \<times> world" where
  "TcpClient_connect w c serverIP port =
     (let (fd, w1) = sys_socket w; c1 = c\<lparr>tc_sockfd := fd\<rparr> in
      if fd < 0 then (False, c1, w1)
      else if \<not> inet_pton_ok (cstr serverIP) then
        (False, c1\<lparr>tc_sockfd := -1\<rparr>, sys_close w1 fd)
      else
        (let (ok, w2) = sys_connect w1 fd (cstr serverIP) (port16 port) in
         if \<not> ok then (False, c1\<lparr>tc_sockfd := -1\<rparr>, sys_close w2 fd)
         else (True, c1\<lparr>tc_connected := True\<rparr>, w2)))"

definition TcpClient_disconnect :: "world \<Rightarrow> TcpClient \<Rightarrow> TcpClient \<times> world" where
  "TcpClient_disconnect w c =
     (let (c1, w1) = (if tc_sockfd c \<ge> 0 then (c\<lparr>tc_sockfd := -1\<rparr>, sys_close w (tc_sockfd c)) else (c, w))
      in (c1\<lparr>tc_connected := False\<rparr>, w1))"

definition TcpClient_send :: "world \<Rightarrow> TcpClient \<Rightarrow> byte list \<Rightarrow> bool \<times> TcpClient \<times> world" where
  "TcpClient_send w c data =
     (if \<not> tc_connected c then (False, c, w)
      else case send_loop False True (tc_sockfd c) w data of
        (True, w1) \<Rightarrow> (True, c, w1)
      | (False, w1) \<Rightarrow> (False, c\<lparr>tc_connected := False\<rparr>, w1))"

text \<open>One \<^verbatim>\<open>recv\<close>; the empty list stands for the return value 0.\<close>

definition TcpClient_receive :: "world \<Rightarrow> TcpClient \<Rightarrow> nat \<Rightarrow> byte list \<times> TcpClient \<times> world" where
  "TcpClient_receive w c sz =
     (if \<not> tc_connected c then ([], c, w)
      else case sys_recv w (tc_sockfd c) sz of
        (RData bs, w1) \<Rightarrow> if bs = [] then ([], c\<lparr>tc_connected := False\<rparr>, w1) else (bs, c, w1)
      | (_, w1) \<Rightarrow> ([], c\<lparr>tc_connected := False\<rparr>, w1))"

definition TcpClient_isConnected :: "TcpClient \<Rightarrow> bool" where
  "TcpClient_isConnected c = tc_connected c"

definition TcpClient_getSocketFd :: "TcpClient \<Rightarrow> int" where
  "TcpClient_getSocketFd c = tc_sockfd c"

definition TcpClient_setTimeout :: "TcpClient \<Rightarrow> int \<Rightarrow> TcpClient" where
  "TcpClient_setTimeout c timeout =
     c\<lparr>tc_timeoutMs := timeout, tc_sockopt := Some (c_div timeout 1000, c_mod timeout 1000 * 1000)\<rparr>"

definition HB :: "byte list" where
  "HB = ''HB'' @ [CHR 0x00]"

definition TcpClient_sendHeartbeat :: "world \<Rightarrow> TcpClient \<Rightarrow> bool \<times> TcpClient \<times> world" where
  "TcpClient_sendHeartbeat w c = TcpClient_send w c HB"

definition TcpClient_receiveHeartbeat :: "world \<Rightarrow> TcpClient \<Rightarrow> bool \<times> TcpClient \<times> world" where
  "TcpClient_receiveHeartbeat w c =
     (let (buffer, c1, w1) = TcpClient_receive w c 3
      in (length buffer = 3 \<and> cstr buffer = ''HB'', c1, w1))"

section \<open>\<^verbatim>\<open>TcpServer\<close>\<close>

record TcpServer =
  ts_serverSock :: int
  ts_running :: bool

definition TcpServer_new :: TcpServer where
  "TcpServer_new = \<lparr>ts_serverSock = -1, ts_running = False\<rparr>"

definition TcpServer_start :: "world \<Rightarrow> TcpServer \<Rightarrow> int \<Rightarrow> bool \<times> TcpServer \<times> world" where
  "TcpServer_start w s port =
     (let (fd, w1) = sys_socket w; s1 = s\<lparr>ts_serverSock := fd\<rparr>; s0 = s\<lparr>ts_serverSock := -1\<rparr> in
      if fd < 0 then (False, s1, w1)
      else let (opt_ok, w2) = sys_plain w1 in
      if \<not> opt_ok then (False, s0, sys_close w2 fd)
      else let (bind_ok, w3) = sys_plain w2 in
      if \<not> bind_ok then (False, s0, sys_close w3 fd)
      else let (listen_ok, w4) = sys_plain w3 in
      if \<not> listen_ok then (False, s0, sys_close w4 fd)
      else (True, s1\<lparr>ts_running := True\<rparr>, w4))"

definition TcpServer_stop :: "world \<Rightarrow> TcpServer \<Rightarrow> TcpServer \<times> world" where
  "TcpServer_stop w s =
     (let (s1, w1) = (if ts_serverSock s \<ge> 0
                      then (s\<lparr>ts_serverSock := -1\<rparr>, sys_close w (ts_serverSock s)) else (s, w))
      in (s1\<lparr>ts_running := False\<rparr>, w1))"

definition TcpServer_accept :: "world \<Rightarrow> TcpServer \<Rightarrow> int \<times> world" where
  "TcpServer_accept w s = (if \<not> ts_running s then (-1, w) else sys_accept w)"

definition TcpServer_send :: "world \<Rightarrow> int \<Rightarrow> byte list \<Rightarrow> bool \<times> world" where
  "TcpServer_send w clientSock data = send_loop False True clientSock w data"

definition TcpServer_receive :: "world \<Rightarrow> int \<Rightarrow> nat \<Rightarrow> byte list \<times> world" where
  "TcpServer_receive w clientSock sz =
     (case sys_recv w clientSock sz of (RData bs, w1) \<Rightarrow> (bs, w1) | (_, w1) \<Rightarrow> ([], w1))"

definition TcpServer_closeClient :: "world \<Rightarrow> int \<Rightarrow> world" where
  "TcpServer_closeClient w clientSock = (if clientSock \<ge> 0 then sys_close w clientSock else w)"

definition TcpServer_isRunning :: "TcpServer \<Rightarrow> bool" where
  "TcpServer_isRunning s = ts_running s"

definition TcpServer_getServerSocket :: "TcpServer \<Rightarrow> int" where
  "TcpServer_getServerSocket s = ts_serverSock s"

definition TcpServer_sendHeartbeat :: "world \<Rightarrow> int \<Rightarrow> bool \<times> world" where
  "TcpServer_sendHeartbeat w clientSock = TcpServer_send w clientSock HB"

definition TcpServer_receiveHeartbeat :: "world \<Rightarrow> int \<Rightarrow> bool \<times> world" where
  "TcpServer_receiveHeartbeat w clientSock =
     (let (buffer, w1) = TcpServer_receive w clientSock 3
      in (length buffer = 3 \<and> cstr buffer = ''HB'', w1))"

section \<open>Contracts\<close>

text \<open>\<open>sent fd bs w w'\<close>: exactly \<open>bs\<close> went out on \<open>fd\<close>.  \<open>got fd bs w w'\<close>: exactly \<open>bs\<close> was taken
  from the input of \<open>fd\<close>.  Nothing else changed but the kernel's script.\<close>

definition sent :: "int \<Rightarrow> byte list \<Rightarrow> world \<Rightarrow> world \<Rightarrow> bool" where
  "sent fd bs w w' \<longleftrightarrow> (\<exists>s. w' = w\<lparr>w_script := s, w_out := (w_out w)(fd := w_out w fd @ bs)\<rparr>)"

definition got :: "int \<Rightarrow> byte list \<Rightarrow> world \<Rightarrow> world \<Rightarrow> bool" where
  "got fd bs w w' \<longleftrightarrow>
     (\<exists>s r. w_in w fd = bs @ r \<and> w' = w\<lparr>w_script := s, w_in := (w_in w)(fd := r)\<rparr>)"

lemma sent_nil [simp]: "sent fd [] w (w\<lparr>w_script := s\<rparr>)" "sent fd [] w w"
  by (auto simp: sent_def intro: exI [of _ "w_script w"])

lemma sent_trans: "sent fd a w w1 \<Longrightarrow> sent fd b w1 w2 \<Longrightarrow> sent fd (a @ b) w w2"
  by (auto simp: sent_def)

lemma got_nil [simp]: "got fd [] w (w\<lparr>w_script := s\<rparr>)" "got fd [] w w"
  by (auto simp: got_def intro: exI [of _ "w_script w"])

lemma got_trans: "got fd a w w1 \<Longrightarrow> got fd b w1 w2 \<Longrightarrow> got fd (a @ b) w w2"
  by (auto simp: got_def)

lemma sys_send_sent:
  "sys_send w fd bs = (WRet n, w') \<Longrightarrow> n \<le> length bs \<and> sent fd (take n bs) w w'"
  "sys_send w fd bs = (WIntr, w') \<Longrightarrow> sent fd [] w w'"
  "sys_send w fd bs = (WErr, w') \<Longrightarrow> sent fd [] w w'"
  by (auto simp: sys_send_def next_ev_eq Let_def ev_count_def sent_def split: ev.splits)

lemma got_take:
  "got fd (take c (w_in w fd)) w (w\<lparr>w_script := s, w_in := (w_in w)(fd := drop c (w_in w fd))\<rparr>)"
  unfolding got_def by (intro exI [of _ s] exI [of _ "drop c (w_in w fd)"]) simp

lemma sys_recv_got:
  "sys_recv w fd n = (RData bs, w') \<Longrightarrow> length bs \<le> n \<and> got fd bs w w'"
  "sys_recv w fd n = (RIntr, w') \<Longrightarrow> got fd [] w w'"
  "sys_recv w fd n = (RErr, w') \<Longrightarrow> got fd [] w w'"
  by (auto simp: sys_recv_def next_ev_eq Let_def read_count_def got_take split: ev.splits)

lemma send_loop_sent:
  "send_loop r z fd w bs = (ok, w') \<Longrightarrow>
     \<exists>n\<le>length bs. sent fd (take n bs) w w' \<and> (ok \<longrightarrow> n = length bs)"
proof (induction r z fd w bs arbitrary: ok w' rule: send_loop.induct)
  case (1 r z fd w bs)
  show ?case
  proof (cases "bs = []")
    case True
    with "1.prems" show ?thesis by (simp add: send_loop.simps)
  next
    case ne: False
    obtain x w1 where x: "sys_send w fd bs = (x, w1)" by fastforce
    show ?thesis
    proof (cases x)
      case (WRet n)
      note s = sys_send_sent(1) [OF x [unfolded WRet]]
      show ?thesis
      proof (cases "n = 0 \<and> \<not> z")
        case True
        with "1.prems" x WRet ne s show ?thesis by (subst (asm) send_loop.simps) auto
      next
        case False
        with "1.prems" x WRet ne have "send_loop r z fd w1 (drop n bs) = (ok, w')"
          by (subst (asm) send_loop.simps) auto
        from "1.IH"(1) [OF ne x [symmetric, unfolded WRet] refl False this]
        obtain m where m: "m \<le> length bs - n" "sent fd (take m (drop n bs)) w1 w'" "ok \<longrightarrow> m = length bs - n"
          by auto
        from s m have "sent fd (take (n + m) bs) w w'"
          by (auto simp: take_add intro: sent_trans)
        with m s show ?thesis by (intro exI [of _ "n + m"]) auto
      qed
    next
      case WIntr
      note s = sys_send_sent(2) [OF x [unfolded WIntr]]
      show ?thesis
      proof (cases r)
        case True
        with "1.prems" x WIntr ne have "send_loop r z fd w1 bs = (ok, w')"
          by (subst (asm) send_loop.simps) auto
        from "1.IH"(2) [OF ne x [symmetric, unfolded WIntr] refl True this]
        show ?thesis using sent_trans [OF s] by auto
      next
        case False
        with "1.prems" x WIntr ne s show ?thesis by (subst (asm) send_loop.simps) auto
      qed
    next
      case WErr
      with "1.prems" x ne sys_send_sent(3) [of w fd bs w1] show ?thesis
        by (subst (asm) send_loop.simps) auto
    qed
  qed
qed

lemma send_loop_nominal:
  "w_script w = [] \<Longrightarrow>
     send_loop r z fd w bs = (True, w\<lparr>w_out := (w_out w)(fd := w_out w fd @ bs)\<rparr>)"
  by (cases "bs = []")
     (subst send_loop.simps, simp add: sys_send_def next_ev_nominal ev_count_def send_loop.simps)+

lemma recv_loop_got:
  "recv_loop r fd w n = (res, w') \<Longrightarrow>
     (case res of Some bs \<Rightarrow> length bs = n \<and> got fd bs w w' | None \<Rightarrow> \<exists>bs. length bs < n \<and> got fd bs w w')"
proof (induction r fd w n arbitrary: res w' rule: recv_loop.induct)
  case (1 r fd w n)
  show ?case
  proof (cases "n = 0")
    case True
    with "1.prems" show ?thesis by (auto simp: recv_loop.simps)
  next
    case ne: False
    obtain x w1 where x: "sys_recv w fd n = (x, w1)" by fastforce
    show ?thesis
    proof (cases x)
      case (RData bs)
      note s = sys_recv_got(1) [OF x [unfolded RData]]
      show ?thesis
      proof (cases "bs = []")
        case True
        with "1.prems" x RData ne s show ?thesis
          by (subst (asm) recv_loop.simps) (auto intro: exI [of _ "[]"])
      next
        case False
        obtain res1 w2 where r1: "recv_loop r fd w1 (n - length bs) = (res1, w2)" by fastforce
        with "1.prems" x RData ne False have eq: "w' = w2" "res = map_option ((@) bs) res1"
          by (auto simp: recv_loop.simps [of r fd w n] split: option.splits)
        from "1.IH"(1) [OF ne x [symmetric, unfolded RData] refl False r1]
        have ih: "case res1 of Some cs \<Rightarrow> length cs = n - length bs \<and> got fd cs w1 w2
            | None \<Rightarrow> \<exists>cs. length cs < n - length bs \<and> got fd cs w1 w2" .
        show ?thesis
        proof (cases res1)
          case None
          with ih obtain cs where "length cs < n - length bs" "got fd cs w1 w2" by auto
          with s eq None got_trans [of fd bs w w1 cs w2] show ?thesis
            by (auto intro!: exI [of _ "bs @ cs"])
        next
          case (Some cs)
          with ih s eq got_trans [of fd bs w w1 cs w2] show ?thesis by auto
        qed
      qed
    next
      case RIntr
      note s = sys_recv_got(2) [OF x [unfolded RIntr]]
      show ?thesis
      proof (cases r)
        case True
        with "1.prems" x RIntr ne have "recv_loop r fd w1 n = (res, w')"
          by (subst (asm) recv_loop.simps) auto
        from "1.IH"(2) [OF ne x [symmetric, unfolded RIntr] refl True this]
        show ?thesis using got_trans [OF s] by (auto split: option.splits)
      next
        case False
        with "1.prems" x RIntr ne s show ?thesis
          by (subst (asm) recv_loop.simps) (auto intro: exI [of _ "[]"])
      qed
    next
      case RErr
      with "1.prems" x ne sys_recv_got(3) [of w fd n w1] show ?thesis
        by (subst (asm) recv_loop.simps) (auto intro: exI [of _ "[]"])
    qed
  qed
qed

lemma recv_loop_nominal:
  assumes "w_script w = []" "w_in w fd = bs @ r" "length bs = n"
  shows "recv_loop retry fd w n = (Some bs, w\<lparr>w_in := (w_in w)(fd := r)\<rparr>)"
proof (cases "n = 0")
  case True
  have "(w_in w)(fd := r) = w_in w" using True assms by auto
  with True assms show ?thesis by (simp add: recv_loop.simps)
next
  case False
  with assms show ?thesis
    by (subst recv_loop.simps)
       (auto simp: sys_recv_def next_ev_nominal read_count_def recv_loop.simps)
qed

lemma recv_loop_short:
  assumes "length (w_in w fd) < n"
  shows "fst (recv_loop retry fd w n) = None"
proof -
  obtain res w' where r: "recv_loop retry fd w n = (res, w')" by fastforce
  have "res \<noteq> Some bs" for bs
    using recv_loop_got [OF r] assms by (auto simp: got_def split: option.splits)
  with r show ?thesis by (cases res) auto
qed

locale exact_writer =
  fixes wr :: "int \<Rightarrow> world \<Rightarrow> byte list \<Rightarrow> bool \<times> world"
  assumes wr_sent: "wr fd w bs = (ok, w') \<Longrightarrow>
      \<exists>n\<le>length bs. sent fd (take n bs) w w' \<and> (ok \<longrightarrow> n = length bs)"
    and wr_nominal: "w_script w = [] \<Longrightarrow>
      wr fd w bs = (True, w\<lparr>w_out := (w_out w)(fd := w_out w fd @ bs)\<rparr>)"
begin

lemma wr_ok: "wr fd w bs = (True, w') \<Longrightarrow> sent fd bs w w'"
  using wr_sent by fastforce

lemma wr_three:
  assumes "wr fd w a = (True, w1)" "wr fd w1 b = (True, w2)" "wr fd w2 c = (True, w3)"
  shows "sent fd (a @ b @ c) w w3"
  using assms wr_ok sent_trans by blast

lemma wr_frame:
  assumes "wr fd w bs = (ok, w')"
  shows "w_fs w' = w_fs w" "env_of w' = env_of w" "w_in w' = w_in w" "w_open w' = w_open w"
    "fd' \<noteq> fd \<Longrightarrow> w_out w' fd' = w_out w fd'"
  using wr_sent [OF assms] by (auto simp: sent_def env_of_def)

end

locale exact_reader =
  fixes rd :: "int \<Rightarrow> world \<Rightarrow> nat \<Rightarrow> byte list option \<times> world"
  assumes rd_got: "rd fd w n = (res, w') \<Longrightarrow>
      (case res of Some bs \<Rightarrow> length bs = n \<and> got fd bs w w' | None \<Rightarrow> \<exists>bs. length bs < n \<and> got fd bs w w')"
    and rd_nominal: "w_script w = [] \<Longrightarrow> w_in w fd = bs @ r \<Longrightarrow> length bs = n \<Longrightarrow> int n < 2 ^ 63 \<Longrightarrow>
      rd fd w n = (Some bs, w\<lparr>w_in := (w_in w)(fd := r)\<rparr>)"
begin

lemma rd_short: "length (w_in w fd) < n \<Longrightarrow> \<exists>w'. rd fd w n = (None, w')"
  using rd_got [of fd w n "fst (rd fd w n)" "snd (rd fd w n)"]
  by (cases "rd fd w n"; cases "fst (rd fd w n)") (auto simp: got_def)

lemma rd_frame:
  assumes "rd fd w n = (res, w')"
  shows "w_fs w' = w_fs w" "env_of w' = env_of w" "w_out w' = w_out w" "w_open w' = w_open w"
    "fd' \<noteq> fd \<Longrightarrow> w_in w' fd' = w_in w fd'"
  using rd_got [OF assms] by (auto simp: got_def env_of_def split: option.splits)

text \<open>What is read is what is next on the stream, whatever the kernel does.\<close>

lemma rd_prefix: "rd fd w n = (Some bs, w') \<Longrightarrow> bs = take n (w_in w fd) \<and> w_in w' fd = drop n (w_in w fd)"
  using rd_got [of fd w n "Some bs" w'] by (auto simp: got_def)

end

interpretation tcp_server: exact_writer "\<lambda>fd w bs. TcpServer_send w fd bs"
  by unfold_locales (auto simp: TcpServer_send_def send_loop_nominal dest: send_loop_sent)

end
