(* ===== verification/Samples.thy ===== *)
theory Samples
  imports Mirror TcpNet
begin

text \<open>
  Concrete worlds on which the theorems are instantiated: a small tree \<^verbatim>\<open>/s\<close> with two files, a
  directory and a longer file, seen by a kernel with a given script of events.
\<close>

definition sample_dir :: inode where
  "sample_dir = \<lparr>i_mode = 0x41ED, i_mtime = 1, i_ctime = 1, i_data = []\<rparr>"

definition sample_file :: "byte list \<Rightarrow> inode" where
  "sample_file d = \<lparr>i_mode = 0x81A4, i_mtime = 1, i_ctime = 1, i_data = d\<rparr>"

definition sample_fs :: "byte list \<Rightarrow> filesys" where
  "sample_fs big = [([], sample_dir), ([''s''], sample_dir), ([''s'', ''a''], sample_file ''hi''),
     ([''s'', ''d''], sample_dir), ([''s'', ''d'', ''b''], sample_file big)]"

definition sample_world :: "byte list \<Rightarrow> ev list \<Rightarrow> world" where
  "sample_world big script =
     \<lparr>w_fs = sample_fs big, w_cwd = [], w_clock = 7, w_umask = 0x12, w_unreadable = (\<lambda>_. False),
      w_dsize = (\<lambda>_. 4096), w_statvfs = (\<lambda>_. (1000, 4096, 4096)), w_peer = (\<lambda>_ _. None), w_pending = [],
      w_open = [], w_nextfd = 3, w_in = (\<lambda>_. []), w_out = (\<lambda>_. []), w_slept = 0, w_script = script\<rparr>"

lemma sample_md5: "md5_stream (md5_of (\<lambda>x. x))"
  by unfold_locales (simp_all add: md5_of_def)

lemma sample_order: "lists_entries rev"
  unfolding lists_entries_def by (metis distinct_rev rev_map set_rev)

lemma sample_script: "sample_world big script = (sample_world big [])\<lparr>w_script := script\<rparr>"
  by (simp add: sample_world_def)

lemma sample_mirror_ready: "mirror_ready (sample_world ''yo'' []) ''/s'' [''s''] ''/t'' 5"
  by code_simp

lemma ifs_open_script [simp]: "ifs_open (w\<lparr>w_script := s\<rparr>) p = ifs_open w p"
  by (cases "resolve w p") (simp_all add: ifs_open_def)

lemma transfer_ready_script: "transfer_ready (w\<lparr>w_script := s\<rparr>) src dest k d = transfer_ready w src dest k d"
  by (simp add: transfer_ready_def)

lemma async_ready_script: "async_ready (w\<lparr>w_script := s\<rparr>) src dest sk k d = async_ready w src dest sk k d"
  by (simp add: async_ready_def transfer_ready_script)

lemma sample_transfer_ready: "transfer_ready (sample_world ''yo'' sc) ''/s/a'' ''/t'' [''t''] ''hi''"
  unfolding sample_script [of _ sc] transfer_ready_script by code_simp

lemma sample_async_ready: "async_ready (sample_world ''yo'' sc) ''/s/a'' ''/s/z'' [''s'', ''a''] [''s'', ''z''] ''hi''"
  unfolding sample_script [of _ sc] async_ready_script by code_simp

subsection \<open>A transfer that is interrupted\<close>

lemmas sample_defs = sample_fs_def sample_dir_def sample_file_def is_dir_def S_ISDIR_def S_IFMT_def S_IFDIR_def

lemma sample_big_resolve: "resolve (sample_world big sc) ''/s/d/b'' = Some [''s'', ''d'', ''b'']" 
  "resolve (sample_world big sc) ''/t'' = Some [''t'']"
  by (simp_all add: resolve_def cstr_def path_start_def sample_world_def sample_defs)

lemma sample_big_wf: "world_wf (sample_world big sc)"
  by (simp add: world_wf_def fs_wf_def valid_name_def sample_world_def sample_defs)

lemma sample_big_ready: "transfer_ready (sample_world big sc) ''/s/d/b'' ''/t'' [''t''] big"
  using sample_big_wf sample_big_resolve
  by (simp add: transfer_ready_def ifs_open_def data_at_def progress_key_def sample_world_def sample_defs)

lemma sample_world_simps [simp]: "w_script (sample_world big sc) = sc" "w_fs (sample_world big sc) = sample_fs big"
  "w_unreadable (sample_world big sc) k = False" "w_slept (sample_world big sc) = 0"
  by (simp_all add: sample_world_def)

lemma sample_interrupted:
  assumes len: "length d = 8192"
  obtains w1 where "transferFile fs (sample_world d (Nominal # replicate 5 Nominal @ [Fail])) ''/s/d/b'' ''/t'' 0
    = (False, w1)"
proof -
  let ?w = "sample_world d (Nominal # replicate 5 Nominal @ [Fail])"
  note r = sample_big_ready [of d "Nominal # replicate 5 Nominal @ [Fail]"]
  note rd = transfer_readyD [OF r]
  obtain h v where o: "of_open ?w ''/t'' False = (h, v)" by fastforce
  then have hv: "h = Some [''t'']" "w_script v = replicate 5 Nominal @ [Fail]"
    using sample_big_resolve [of d "Nominal # replicate 5 Nominal @ [Fail]"]
    by (auto simp: of_open_def sys_open_w_def next_ev_eq ev1_def Let_def sample_fs_def split: if_splits)
  note st = transferFile_start [OF r, of 0, simplified, OF o]
  note fs = file_stepD [OF st(2) rd(1)]
  have nd: "\<not> is_dir (w_fs v) (progress_key [''t''])" "\<not> is_dir (w_fs v) [''t'']" using fs(2) rd by simp_all
  have pk: "resolve v (getProgressFilePath ''/t'') = Some (progress_key [''t''])" using fs(3) rd(9) by simp
  obtain w' where w': "transfer_loop fs ''/t'' [''t''] 8192 v \<lparr>is_rest = d, is_good = True\<rparr> 0 =
       transfer_loop fs ''/t'' [''t''] 8192 w' \<lparr>is_rest = drop 4096 d, is_good = True\<rparr> 4096"
    "file_step {[''t''], progress_key [''t'']} v w'" "w_script w' = [Nominal, Fail]"
    using transfer_loop_block [OF fs(1) pk _ nd, where s = "\<lparr>is_rest = d, is_good = True\<rparr>" and a = "[]" and fs = fs and tot = 8192 and tr = 0] st(5) [OF hv(1)] hv(2) len
    by (auto simp: calm_def list_all_iff)
  note fs' = file_stepD [OF w'(2) fs(1)]
  from transfer_loop_write_fault [OF fs'(1), where dest = "''/t''" and pk = "progress_key [''t'']" and s = "\<lparr>is_rest = drop 4096 d, is_good = True\<rparr>"
      and dk = "[''t'']" and fs = fs and tot = 8192 and tr = 4096]
  have "\<exists>x. transfer_loop fs ''/t'' [''t''] 8192 w' \<lparr>is_rest = drop 4096 d, is_good = True\<rparr> 4096 = (False, x)"
    using fs' pk nd w'(3) len by auto
  with st(4) [OF hv(1)] w'(1) len that show ?thesis by auto
qed

end
