(* ===== verification/Backup.thy ===== *)
theory Backup
  imports Mirror
begin

text \<open>
  The strategy \<^verbatim>\<open>rename\<close>: what \<^verbatim>\<open>rename\<close> does to a regular file, and a file task that keeps the old
  destination under a name with the suffix \<^verbatim>\<open>.bak\<close>.
\<close>

section \<open>Renaming a file\<close>

lemma resolve_mkdir_child:
  assumes "dir_at w dir k" "valid_name n"
  shows "resolve_mkdir w (dir @ ''/'' @ n) = Some (k @ [n])"
proof -
  have "split_slash (dir @ ''/'' @ n) = split_slash dir @ [n]"
    using assms(2) by (simp add: split_slash_append split_slash_plain valid_name_def)
  then have "strip_slashes (split_slash (dir @ ''/'' @ n)) = split_slash (dir @ ''/'' @ n)"
    using assms(2) by (simp add: strip_slashes_def valid_name_def)
  moreover have "cstr (dir @ ''/'' @ n) = dir @ ''/'' @ n"
    using assms by (auto simp: cstr_id dir_at_def valid_name_def)
  ultimately have "resolve_mkdir w (dir @ ''/'' @ n) = resolve w (dir @ ''/'' @ n)"
    by (simp add: resolve_mkdir_def resolve_def)
  with resolve_child [OF assms] show ?thesis by simp
qed

definition moved :: "fpath \<Rightarrow> fpath \<Rightarrow> filesys \<Rightarrow> filesys" where
  "moved k k' fs = map (\<lambda>(p, i). (rebase k k' p, i)) (AList.delete k' fs)"

text \<open>Nothing lies below a file, so that only the entry itself moves.\<close>

lemma rebase_file:
  assumes "fs_wf fs" "\<not> is_dir fs k" "map_of fs p = Some i"
  shows "rebase k k' p = (if p = k then k' else p)"
proof (cases "is_prefix k p")
  case True
  then have p: "p = k @ drop (length k) p" by (metis append_take_drop_id is_prefix_def)
  with fs_wf_below [OF assms(1), of k "drop (length k) p" i] assms have "drop (length k) p = []" by metis
  with p show ?thesis by (simp add: rebase_def is_prefix_def)
next
  case False
  then show ?thesis by (auto simp: rebase_def is_prefix_def)
qed

lemma map_of_moved_keys:
  assumes "k \<noteq> k'" "k' \<notin> fst ` set xs"
  shows "map_of (map (\<lambda>(p, i). (if p = k then k' else p, i)) xs) x = (if x = k' then map_of xs k else if x = k then None else map_of xs x)"
  using assms
proof (induction xs)
  case (Cons a xs)
  obtain p i where a: "a = (p, i)" by fastforce
  with Cons show ?case by (cases "x = k'"; cases "x = k"; cases "p = k"; auto)
qed simp

lemma moved_eq:
  assumes wf: "fs_wf fs" and k: "\<not> is_dir fs k"
  shows "moved k k' fs = map (\<lambda>(p, i). (if p = k then k' else p, i)) (AList.delete k' fs)"
proof -
  have "map_of fs p \<noteq> None" if "(p, i) \<in> set (AList.delete k' fs)" for p i
    using that weak_map_of_SomeI [of p i fs] by (auto simp: AList.delete_eq)
  then show ?thesis using rebase_file [OF wf k] by (fastforce simp: moved_def)
qed

lemma map_of_moved:
  assumes wf: "fs_wf fs" and k: "\<not> is_dir fs k" "k \<noteq> k'"
  shows "map_of (moved k k' fs) x = (if x = k' then map_of fs k else if x = k then None else map_of fs x)"
  unfolding moved_eq [OF wf k(1)]
  using map_of_moved_keys [OF k(2), of "AList.delete k' fs" x] k(2) by (simp add: delete_conv' AList.delete_keys flip: set_map)

lemma is_dir_moved:
  assumes "fs_wf fs" "\<not> is_dir fs k" "k \<noteq> k'" "\<not> is_dir fs k'"
  shows "is_dir (moved k k' fs) = is_dir fs"
  using assms map_of_moved [OF assms(1-3)] by (auto simp: fun_eq_iff is_dir_def)

lemma fs_wf_moved:
  assumes wf: "fs_wf fs" and k: "\<not> is_dir fs k" "k \<noteq> k'" "\<not> is_dir fs k'" and slot: "good_slot fs k'"
  shows "fs_wf (moved k k' fs)"
proof -
  let ?h = "\<lambda>p. if p = k then k' else p"
  have d: "distinct (map fst (AList.delete k' fs))" using wf by (simp add: fs_wf_iff distinct_delete)
  have eq: "map fst (moved k k' fs) = map ?h (map fst (AList.delete k' fs))"
    unfolding moved_eq [OF wf k(1)] by (simp add: case_prod_beta comp_def)
  have inj: "inj_on ?h (set (map fst (AList.delete k' fs)))"
    by (rule inj_onI) (auto simp: AList.delete_keys split: if_splits)
  have "distinct (map fst (moved k k' fs))"
    unfolding eq by (subst distinct_map) (rule conjI [OF d inj])
  moreover have "good_slot (moved k k' fs) = good_slot fs" by (simp add: fun_eq_iff good_slot_def is_dir_moved [OF wf k])
  ultimately show ?thesis
    using wf slot is_dir_moved [OF wf k] map_of_moved [OF wf k(1,2)] unfolding fs_wf_iff by (auto split: if_splits)
qed

lemma rename_file:
  assumes wf: "world_wf w" and s: "w_script w = []"
    and r: "resolve_mkdir w p = Some k" "resolve_mkdir w q = Some k'"
    and c: "content w k = Some (m, d)" "\<not> S_ISDIR m" "k \<noteq> k'" "\<not> is_dir (w_fs w) k'"
  shows "\<exists>w'. sys_rename w p q = (True, w') \<and> w_script w' = [] \<and> file_step {k, k'} w w'
     \<and> content w' k' = Some (m, d) \<and> content w' k = None"
proof -
  let ?f = "touch (w_clock w) (butlast k') (touch (w_clock w) (butlast k) (moved k k' (w_fs w)))"
  note fw = world_wf_fs [OF wf]
  have nd: "\<not> is_dir (w_fs w) k" using c(1,2) by (simp add: is_dir_content)
  obtain i where i: "map_of (w_fs w) k = Some i" using c(1) by (auto simp: content_def)
  have root: "is_dir (w_fs w) []" using fw by (simp add: fs_wf_iff)
  have np: "\<not> is_prefix k k'"
  proof
    assume "is_prefix k k'"
    then have e: "k' = k @ drop (length k) k'" by (metis append_take_drop_id is_prefix_def)
    with c(3) obtain x xs where x: "drop (length k) k' = xs @ [x]" by (metis append_Nil2 rev_exhaust)
    with e have kx: "k' = k @ xs @ [x]" by simp
    have "is_dir (w_fs w) (k @ xs)"
      using resolve_mkdir_slot [OF wf r(2)] unfolding kx by (auto simp: good_slot_def butlast_append)
    then show False using fs_wf_below [OF fw, of k xs] nd is_dir_dom [of "w_fs w" "k @ xs"] by (cases "xs = []") auto
  qed
  have e: "entries (w_fs w) k' = []" using entries_file [OF fw c(4)] .
  have eq: "sys_rename w p q = (True, w\<lparr>w_fs := ?f\<rparr>)"
    using s r i c(3) np nd c(4) root e
    by (auto simp: sys_rename_def next_ev_nominal moved_def Let_def)
  note m = is_dir_moved [OF fw nd c(3,4)] map_of_moved [OF fw nd c(3)] fs_wf_moved [OF fw nd c(3,4) resolve_mkdir_slot [OF wf r(2)]]
  have cm: "content (w\<lparr>w_fs := ?f\<rparr>) x = (if x = k' then content w k else if x = k then None else content w x)" for x
    using c(3) by (simp add: content_touch) (simp add: content_def m(2))
  have "fs_step {k, k'} w (w\<lparr>w_script := w_script w, w_fs := ?f\<rparr>)"
    by (rule fs_step_fs) (use wf m cm in \<open>auto simp: world_wf_def\<close>)
  then have "file_step {k, k'} w (w\<lparr>w_fs := ?f\<rparr>)" using m(1) by (simp add: file_step_def)
  with eq cm c s show ?thesis by auto
qed

section \<open>A file task under the strategy \<^verbatim>\<open>rename\<close>\<close>

lemma dirs_exist:
  assumes wf: "fs_wf (w_fs w)" and d: "is_dir (w_fs w) (path_key w q)" and p: "p \<in> path_prefixes w q"
  shows "is_dir (w_fs w) p"
proof -
  obtain i where i: "p = path_start w q @ take i (names_of (split_slash q))" using p by (auto simp: path_prefixes_def)
  then have k: "path_key w q = p @ drop i (names_of (split_slash q))" by (simp add: path_key_def)
  with d fs_wf_below [OF wf, of p "drop i (names_of (split_slash q))"] is_dir_dom [OF d] show ?thesis
    by (cases "drop i (names_of (split_slash q)) = []") auto
qed

lemma valid_bak: "valid_name n \<Longrightarrow> valid_name (n @ ''.bak'')"
  by (auto simp: valid_name_def append_eq_Cons_conv)

lemma syncFile_rename:
  assumes wf: "world_wf w" and sc: "w_script w = []" and strat: "fsy_conflictStrategy fs = ''rename''"
    and src: "resolve w src = Some sk" "content w sk = Some (m, d)" "\<not> S_ISDIR m" "\<not> w_unreadable w sk"
      "int (length d) < 2 ^ 52" "sk \<noteq> k" "sk \<noteq> kb"
    and q: "plain_path q" "path_free w q" "valid_name n" and k: "k = path_key w q @ [n]" and kb: "kb = path_key w q @ [n @ ''.bak'']"
    and old: "content w k = Some (mo, before)" "\<not> S_ISDIR mo" "\<not> is_dir (w_fs w) kb" "content w (progress_key k) = None"
  shows "\<exists>w' m'. syncFile fs sched w src (q @ ''/'' @ n) mode = (True, w') \<and> w_script w' = []
     \<and> content w' kb = Some (mo, before) \<and> content w' k = Some (m', d) \<and> perm_bits m' = perm_bits mode
     \<and> (\<forall>p. p \<notin> {k, kb} \<longrightarrow> content w' p = content w p)"
proof -
  let ?dest = "q @ ''/'' @ n" and ?pk = "progress_key k"
  note fw = world_wf_fs [OF wf]
  obtain w1 where w1: "createDirectory w q 0x1ED = (True, w1)" "w_script w1 = []"
    "resolve w1 q = Some (path_key w q)" "is_dir (w_fs w1) (path_key w q)"
    using createDirectory_total [OF sc wf q(1,2), of "0x1ED"] by blast
  have g1: "grow {} (path_prefixes w q) w w1" using grow_createDirectory [OF q(1), of w "0x1ED"] w1(1) by simp
  note g = growD [OF g1]
  obtain ik where "map_of (w_fs w) k = Some ik" using old(1) by (auto simp: content_def)
  then have "is_dir (w_fs w) (path_key w q)" using fs_wf_good_slot [OF fw] k by (fastforce simp: good_slot_def)
  from dirs_exist [OF fw this] have c1: "content w1 p = content w p" for p
    using g1 by (fastforce simp: grow_def is_dir_content)
  have nul: "CHR 0x00 \<notin> set ?dest" "CHR 0x00 \<notin> set q" using q(1,3) by (auto simp: plain_path_def valid_name_def)
  have at: "dir_at w1 q (path_key w q)" using w1(3,4) nul(2) by (simp add: dir_at_def)
  have kk: "k \<noteq> kb" "?pk \<noteq> kb" "?pk \<noteq> k" "k \<noteq> []" using k kb by (simp_all add: progress_key_def)
  have ren: "\<exists>w2. sys_rename w1 ?dest (?dest @ ''.bak'') = (True, w2) \<and> w_script w2 = [] \<and> file_step {k, kb} w1 w2
     \<and> content w2 kb = Some (mo, before) \<and> content w2 k = None"
    using old kk(1) resolve_mkdir_child [OF at q(3)] resolve_mkdir_child [OF at valid_bak [OF q(3)]] c1
    by (intro rename_file [OF g(1) [OF wf] w1(2)]) (simp_all add: k kb is_dir_content)
  then obtain w2 where w2: "sys_rename w1 ?dest (?dest @ ''.bak'') = (True, w2)" "w_script w2 = []" "file_step {k, kb} w1 w2"
    "content w2 kb = Some (mo, before)" "content w2 k = None" by blast
  note f = file_stepD [OF w2(3) g(1) [OF wf]]
  have c2: "content w2 p = content w p" if "p \<notin> {k, kb}" for p using f(6) [OF that] c1 by simp
  have skp: "sk \<noteq> ?pk" using src(2) old(4) by auto
  have un: "w_unreadable w2 = w_unreadable w" using env_unreadable [OF f(4)] env_unreadable [OF g(2)] by simp
  have rd: "resolve w2 ?dest = Some k" using f(3) resolve_child [OF at q(3)] k by simp
  have nd: "\<not> is_dir (w_fs w2) k" "\<not> is_dir (w_fs w2) ?pk" using w2(5) c2 [of ?pk] kk old(4) by (simp_all add: is_dir_content)
  have r: "copy_ready w2 src sk ?dest k m d"
    unfolding copy_ready_def using f(1,3) w2(2) g(5) [OF src(1)] c2 [of sk] src skp rd nul(1) nd un by simp
  have lp: "loadProgress w2 ?dest = (\<lparr>sp_filePath = ?dest, sp_offset = 0, sp_totalSize = 0\<rparr>, w2)"
    using loadProgress_absent transfer_readyD(9) [OF copy_readyD(2) [OF r]] c2 [of ?pk] kk old(4) by simp
  obtain w3 m3 where w3: "syncFile_copy fs sched w2 src ?dest mode = (True, w3)" "w_script w3 = []"
    "file_step {k, ?pk} w2 w3" "content w3 k = Some (m3, d)" "perm_bits m3 = perm_bits mode" "content w3 ?pk = None"
    using syncFile_copy_nominal [OF r, of fs sched mode] by blast
  have "fileExists w src" using src(1,2) by (auto simp: fileExists_iff)
  moreover have "fileExists w1 ?dest" using resolve_child [OF at q(3)] k c1 old(1) by (auto simp: fileExists_iff)
  moreover have "handleConflict fs w1 src ?dest = (True, w2)" using strat w2(1) by (simp add: handleConflict_def)
  moreover have "find_last_of (CHR ''/'') ?dest = Some (length q)"
    using q(3) by (intro find_last_of_slash) (simp add: valid_name_def)
  ultimately have "syncFile fs sched w src ?dest mode = (True, w3)"
    using w1(1) lp w3(1) by (simp add: syncFile_def syncFile_resume_def)
  moreover have "content w3 p = content w p" if "p \<notin> {k, kb}" for p
    using file_stepD(6) [OF w3(3) f(1), of p] c2 [OF that] that w3(6) old(4) by (cases "p = ?pk") auto
  moreover have "content w3 kb = Some (mo, before)" using file_stepD(6) [OF w3(3) f(1), of kb] w2(4) kk by auto
  ultimately show ?thesis using w3(2,4,5) by blast
qed

end
