(* ===== verification/LocalProperties.thy ===== *)
theory LocalProperties
  imports Samples Backup
begin

text \<open>
  The properties of the local half of the program: directory creation, hashing, progress files,
  the sequential and the parallel copy, change detection, conflicts.
\<close>

section \<open>Copying one file\<close>

text \<open>C6: Whatever the interleaving of the chunk threads, and whatever faults, interruptions and short
  transfers the kernel delivers, the parallel copy touches only the destination and its progress
  file, and when it reports success the destination is byte for byte the source.\<close>

theorem parallel_copy_safe:
  assumes "async_ready w src dest sk k d"
    and "transferLargeFileAsync fs sched w src dest 0 = (ok, w')"
  shows "file_step {k, progress_key k} w w' \<and> (ok \<longrightarrow> data_at w' k = Some d)"
  using transferLargeFileAsync_facts [OF assms] by blast

theorem parallel_copy_safe_witness:
  "let (ok, w') = transferLargeFileAsync FileSync_new [0, 0, 0] (sample_world ''yo'' [Nominal, Nominal, Intr, Short 1])
     ''/s/a'' ''/s/z'' 0
   in file_step {[''s'', ''z''], progress_key [''s'', ''z'']} (sample_world ''yo'' [Nominal, Nominal, Intr, Short 1]) w'
     \<and> (ok \<longrightarrow> data_at w' [''s'', ''z''] = Some ''hi'')"
  using parallel_copy_safe [OF sample_async_ready, where fs = FileSync_new and sched = "[0, 0, 0]"]
  by (auto split: prod.splits)

text \<open>C17: When the kernel delivers no fault and there is room on the disk, the parallel copy succeeds under
  every interleaving, with the exact content, and removes its progress file.\<close>

theorem parallel_copy_completes:
  assumes "async_ready w src dest sk k d" "FileSync_checkDiskSpace w dest (int (length d))" "w_script w = []"
  shows "\<exists>w'. transferLargeFileAsync fs sched w src dest 0 = (True, w') \<and> data_at w' k = Some d
     \<and> content w' (progress_key k) = None \<and> w_script w' = []"
  by (rule transferLargeFileAsync_nominal [OF assms])

theorem parallel_copy_completes_witness:
  "\<exists>w'. transferLargeFileAsync FileSync_new [0, 0] (sample_world ''yo'' []) ''/s/a'' ''/s/z'' 0 = (True, w')
     \<and> data_at w' [''s'', ''z''] = Some ''hi''"
proof -
  have "FileSync_checkDiskSpace (sample_world ''yo'' []) ''/s/z'' (int (length ''hi''))"
    by (simp add: FileSync_checkDiskSpace_def find_last_of_def sys_statvfs_def resolve_def cstr_def path_start_def
        mul_to_off_t_def to_signed_def sample_world_def sample_defs)
  from parallel_copy_completes [OF sample_async_ready this, where fs = FileSync_new and sched = "[0, 0]"]
  show ?thesis by (auto simp: sample_world_def)
qed

text \<open>C30: A chunk thread left alone, step by step, does what the body of the lambda does in one go:
  \<^verbatim>\<open>transferChunk\<close>, then the shared counters, the progress file and the pause.\<close>

theorem chunk_thread_is_lambda:
  "run_chunk j \<lparr>ch_offset = lo, ch_size = n, ch_pc = PStart\<rparr> g =
     (let (b, g1) = chunk_lambda j lo n g in (\<lparr>ch_offset = lo, ch_size = n, ch_pc = PDone b\<rparr>, g1))"
  using run_chunk_lambda [of "\<lparr>ch_offset = lo, ch_size = n, ch_pc = PStart\<rparr>" j g] by simp

text \<open>C36: The chunks cover the file without overlap: every byte position lies in exactly one of them, and none
  exceeds the thread's buffer or the end of the file.\<close>

theorem chunks_partition:
  assumes "int n < 2 ^ 52" "i < n"
  shows "\<exists>!c. c \<in> set (make_chunks (int n) 0) \<and> ch_offset c \<le> i \<and> i < ch_offset c + ch_size c
     \<and> ch_size c \<le> nat ASYNC_CHUNK_SIZE \<and> ch_offset c + ch_size c \<le> n"
proof -
  from make_chunks_cover [OF assms] obtain c where c: "c \<in> set (make_chunks (int n) 0)" "ch_offset c \<le> i" "i < ch_offset c + ch_size c"
    by blast
  have "c' = c" if c': "c' \<in> set (make_chunks (int n) 0)" "ch_offset c' \<le> i" "i < ch_offset c' + ch_size c'" for c'
    using make_chunks_disjoint c c' by blast
  with c make_chunks_start [OF c(1) assms(1)] show ?thesis by blast
qed

theorem chunks_partition_witness:
  "\<exists>!c. c \<in> set (make_chunks 3 0) \<and> ch_offset c \<le> 2 \<and> 2 < ch_offset c + ch_size c
     \<and> ch_size c \<le> nat ASYNC_CHUNK_SIZE \<and> ch_offset c + ch_size c \<le> 3"
  using chunks_partition [of 3 2] by simp

text \<open>A sequential transfer from \<open>offset\<close> without faults appends the rest of the source to what a positive
  offset leaves of the destination, removes the progress file, and pauses once per full block.\<close>

theorem transferFile_copies:
  assumes "transfer_ready w src dest k d" "w_script w = []"
  shows "\<exists>w'. transferFile fs w src dest off = (True, w')
     \<and> data_at w' k = Some ((if off > 0 then old_bytes w k else []) @ drop (nat off) d)
     \<and> content w' (progress_key k) = None
     \<and> w_slept w' = w_slept w + (length d - nat off) div 4096 * pause_of fs"
  using transferFile_nominal [OF assms] by blast

theorem transferFile_copies_witness:
  "\<exists>w'. transferFile FileSync_new (sample_world ''yo'' []) ''/s/a'' ''/t'' 0 = (True, w') \<and> data_at w' [''t''] = Some ''hi''"
  using transferFile_copies [OF sample_transfer_ready, where fs = FileSync_new and off = 0] by (auto simp: sample_world_def)

text \<open>C21: Whatever the kernel does and wherever the copy starts, a sequential transfer touches only its
  destination and the progress file beside it, and makes no directory come or go.\<close>

theorem transferFile_footprint:
  assumes "transfer_ready w src dest k d"
  shows "file_step {k, progress_key k} w (snd (transferFile fs w src dest off))"
  by (rule transferFile_step [OF assms])

theorem transferFile_footprint_witness:
  "file_step {[''t''], progress_key [''t'']} (sample_world ''yo'' [Nominal, Nominal, Fail])
     (snd (transferFile FileSync_new (sample_world ''yo'' [Nominal, Nominal, Fail]) ''/s/a'' ''/t'' 0))"
  by (rule transferFile_footprint [OF sample_transfer_ready])



text \<open>C22: A file task without faults succeeds under the default strategy: missing parents are created, the
  destination gets the content and the permission bits of the task, no progress file stays behind, and
  nothing else changes.\<close>

theorem syncFile_copies:
  assumes "world_wf w" "w_script w = []" "fsy_conflictStrategy fs = ''overwrite''"
    and "resolve w src = Some sk" "content w sk = Some (m, d)" "\<not> S_ISDIR m" "\<not> w_unreadable w sk"
      "int (length d) < 2 ^ 52" "sk \<noteq> k"
    and "plain_path q" "path_free w q" "valid_name n" "k = path_key w q @ [n]"
    and "\<not> is_dir (w_fs w) k" "content w (progress_key k) = None"
  shows "\<exists>w' m'. syncFile fs sched w src (q @ ''/'' @ n) mode = (True, w')
     \<and> content w' k = Some (m', d) \<and> \<not> S_ISDIR m' \<and> perm_bits m' = perm_bits mode
     \<and> content w' (progress_key k) = None \<and> grow {k, progress_key k} (path_prefixes w q) w w'"
  using syncFile_nominal [OF assms] by blast

theorem syncFile_copies_witness:
  "\<exists>w' m'. syncFile FileSync_new [] (sample_world ''yo'' []) ''/s/a'' ''/t/u'' 0x1A4 = (True, w')
     \<and> content w' [''t'', ''u''] = Some (m', ''hi'') \<and> perm_bits m' = perm_bits 0x1A4"
proof -
  let ?w = "sample_world ''yo'' []"
  have strat: "fsy_conflictStrategy FileSync_new = ''overwrite''" by (simp add: FileSync_new_def)
  have f: "resolve ?w ''/s/a'' = Some [''s'', ''a'']" "content ?w [''s'', ''a''] = Some (0x81A4, ''hi'')"
    "\<not> S_ISDIR 0x81A4" "\<not> w_unreadable ?w [''s'', ''a'']" "int (length ''hi'') < 2 ^ 52" "[''s'', ''a''] \<noteq> [''t'', ''u'']"
    "plain_path ''/t''" "path_free ?w ''/t''" "valid_name ''u''" "[''t'', ''u''] = path_key ?w ''/t'' @ [''u'']"
    "\<not> is_dir (w_fs ?w) [''t'', ''u'']" "content ?w (progress_key [''t'', ''u'']) = None" by code_simp+
  have "''/t'' @ ''/'' @ ''u'' = ''/t/u''" by simp
  with syncFile_copies [OF sample_big_wf _ strat f, of "[]" "0x1A4"] show ?thesis
    by (simp only: sample_world_simps) blast
qed

text \<open>C39: Under the strategy \<^verbatim>\<open>skip\<close> a file task whose destination exists changes no file, and reports
  failure; only missing parent directories may have been added.\<close>

theorem skip_keeps_destination:
  assumes "fsy_conflictStrategy fs = ''skip''" "fileExists w dest"
  shows "fst (syncFile fs sched w src dest mode) = False \<and> dirs_added w (snd (syncFile fs sched w src dest mode))"
  by (rule syncFile_skip [OF assms])

theorem skip_keeps_destination_witness:
  "fst (syncFile (setConflictStrategy FileSync_new ''skip'') [] (sample_world ''yo'' []) ''/s/a'' ''/s/d/b'' 0x1A4) = False"
proof -
  have "fsy_conflictStrategy (setConflictStrategy FileSync_new ''skip'') = ''skip''" "fileExists (sample_world ''yo'' []) ''/s/d/b''"
    by code_simp+
  from skip_keeps_destination [OF this] show ?thesis by blast
qed

text \<open>C23: Under the strategy \<^verbatim>\<open>rename\<close> a file task without faults succeeds: the old destination is
  kept, content and mode, under its name with the suffix \<^verbatim>\<open>.bak\<close>, the destination gets the new content and
  permission bits, and nothing else in the file system changes.\<close>

theorem rename_keeps_backup:
  assumes "world_wf w" "w_script w = []" "fsy_conflictStrategy fs = ''rename''"
    and "resolve w src = Some sk" "content w sk = Some (m, d)" "\<not> S_ISDIR m" "\<not> w_unreadable w sk"
      "int (length d) < 2 ^ 52" "sk \<noteq> k" "sk \<noteq> kb"
    and "plain_path q" "path_free w q" "valid_name n" "k = path_key w q @ [n]" "kb = path_key w q @ [n @ ''.bak'']"
    and "content w k = Some (mo, before)" "\<not> S_ISDIR mo" "\<not> is_dir (w_fs w) kb" "content w (progress_key k) = None"
  shows "\<exists>w' m'. syncFile fs sched w src (q @ ''/'' @ n) mode = (True, w')
     \<and> content w' kb = Some (mo, before) \<and> content w' k = Some (m', d) \<and> perm_bits m' = perm_bits mode
     \<and> (\<forall>p. p \<notin> {k, kb} \<longrightarrow> content w' p = content w p)"
  using syncFile_rename [OF assms] by blast

theorem rename_keeps_backup_witness:
  "\<exists>w' m'. syncFile (setConflictStrategy FileSync_new ''rename'') [] (sample_world ''yo'' []) ''/s/a'' ''/s/d/b'' 0x1A4 = (True, w')
     \<and> content w' [''s'', ''d'', ''b.bak''] = Some (0x81A4, ''yo'') \<and> content w' [''s'', ''d'', ''b''] = Some (m', ''hi'')"
proof -
  let ?w = "sample_world ''yo'' []"
  have f: "fsy_conflictStrategy (setConflictStrategy FileSync_new ''rename'') = ''rename''"
    "resolve ?w ''/s/a'' = Some [''s'', ''a'']" "content ?w [''s'', ''a''] = Some (0x81A4, ''hi'')"
    "\<not> S_ISDIR 0x81A4" "\<not> w_unreadable ?w [''s'', ''a'']" "int (length ''hi'') < 2 ^ 52"
    "[''s'', ''a''] \<noteq> [''s'', ''d'', ''b'']" "[''s'', ''a''] \<noteq> [''s'', ''d'', ''b.bak'']"
    "plain_path ''/s/d''" "path_free ?w ''/s/d''" "valid_name ''b''" "[''s'', ''d'', ''b''] = path_key ?w ''/s/d'' @ [''b'']"
    "[''s'', ''d'', ''b.bak''] = path_key ?w ''/s/d'' @ [''b'' @ ''.bak'']"
    "content ?w [''s'', ''d'', ''b''] = Some (0x81A4, ''yo'')" "\<not> S_ISDIR 0x81A4"
    "\<not> is_dir (w_fs ?w) [''s'', ''d'', ''b.bak'']" "content ?w (progress_key [''s'', ''d'', ''b'']) = None" by code_simp+
  have "''/s/d'' @ ''/'' @ ''b'' = ''/s/d/b''" by simp
  with rename_keeps_backup [OF sample_big_wf _ f, of "[]" "0x1A4"] show ?thesis
    by (simp only: sample_world_simps) blast
qed

section \<open>Speed limit\<close>

text \<open>The pause after a block of 4096 bytes is computed in whole milliseconds, so the limit takes effect
  exactly up to 4096000 bytes per second; every larger limit is no limit at all.\<close>

theorem speed_limit_effective:
  assumes "0 < limit"
  shows "throttle (setSpeedLimit fs limit) w = w \<longleftrightarrow> 4096000 < limit"
proof -
  have "sleep_ms n w = w \<longleftrightarrow> n = 0" for n
    by (cases w) (simp add: sleep_ms_def)
  with assms show ?thesis by (simp add: throttle_def setSpeedLimit_def div_eq_0_iff)
qed

theorem speed_limit_effective_witness:
  "throttle (setSpeedLimit FileSync_new 10485760) (sample_world [] []) = sample_world [] []"
  using speed_limit_effective [of 10485760 FileSync_new "sample_world [] []"] by simp

section \<open>Detecting changes\<close>

text \<open>C13: Comparing two directories that exist terminates with enough fuel and yields exactly the right tasks:
  one for each entry of the source tree, at every depth, that is missing from the destination or differs from it
  in kind, size, modification time or MD5, and none besides; nothing is changed.\<close>

theorem detectChanges_exact:
  assumes "fs_wf (w_fs w)" "w_script w = []" "lists_entries ord"
    and "dir_at w srcDir ks" "dir_at w destDir kd" "deep_enough fuel w ks" "deep_enough fuel w kd"
  shows "\<exists>tasks. detectChanges fuel M ord w srcDir destDir = Some (tasks, w) \<and>
    (\<forall>t. t \<in> set tasks \<longleftrightarrow>
      (\<exists>rel i. rel \<noteq> [] \<and> map_of (w_fs w) (ks @ rel) = Some i \<and> t = task_for srcDir destDir rel i
        \<and> out_of_date M w srcDir ks destDir kd rel i))"
  by (rule detectChanges_tasks [OF assms])

theorem detectChanges_exact_witness:
  "\<exists>tasks. detectChanges 5 (md5_of (\<lambda>x. x)) rev (sample_world ''yo'' []) ''/s'' ''/s/d'' = Some (tasks, sample_world ''yo'' [])
     \<and> task_for ''/s'' ''/s/d'' [''a''] (sample_file ''hi'') \<in> set tasks"
proof -
  let ?w = "sample_world ''yo'' []"
  have wf: "fs_wf (w_fs ?w)" using sample_big_wf by (simp add: world_wf_def)
  have d: "dir_at ?w ''/s'' [''s'']" "dir_at ?w ''/s/d'' [''s'', ''d'']" by code_simp+
  have l: "length p < 5" if "map_of (w_fs ?w) p \<noteq> None" for p
    using that by (auto simp: sample_fs_def split: if_splits)
  have e: "deep_enough 5 ?w k" for k
    unfolding deep_enough_def using l [of "k @ _"] by fastforce
  obtain tasks where t: "detectChanges 5 (md5_of (\<lambda>x. x)) rev ?w ''/s'' ''/s/d'' = Some (tasks, ?w)"
    "\<And>t. t \<in> set tasks \<longleftrightarrow> (\<exists>rel i. rel \<noteq> [] \<and> map_of (w_fs ?w) ([''s''] @ rel) = Some i \<and> t = task_for ''/s'' ''/s/d'' rel i
        \<and> out_of_date (md5_of (\<lambda>x. x)) ?w ''/s'' [''s''] ''/s/d'' [''s'', ''d''] rel i)"
    using detectChanges_exact [OF wf _ sample_order d e e, where M = "md5_of (\<lambda>x. x)"] by (auto simp only: sample_world_simps)
  have "task_for ''/s'' ''/s/d'' [''a''] (sample_file ''hi'') \<in> set tasks"
    unfolding t(2) by (intro exI [of _ "[''a'']"] exI [of _ "sample_file ''hi''"]) (simp add: out_of_date_def sample_fs_def)
  with t(1) show ?thesis by blast
qed

section \<open>Directories\<close>

text \<open>Without faults, creating a directory path succeeds and makes every missing parent, as long as no
  plain file is in the way.\<close>

theorem createDirectory_makes_path:
  assumes "w_script w = []" "world_wf w" "plain_path path" "path_free w path"
  shows "\<exists>w'. createDirectory w path m = (True, w')
     \<and> resolve w' path = Some (path_key w path) \<and> is_dir (w_fs w') (path_key w path)"
  using createDirectory_total [OF assms] by blast

theorem createDirectory_makes_path_witness:
  "\<exists>w'. createDirectory (sample_world [] []) ''/t/u//v/'' 0x1ED = (True, w') \<and> is_dir (w_fs w') [''t'', ''u'', ''v'']"
proof -
  have f: "plain_path ''/t/u//v/''" "path_free (sample_world [] []) ''/t/u//v/''"
    "path_key (sample_world [] []) ''/t/u//v/'' = [''t'', ''u'', ''v'']" by code_simp+
  from createDirectory_makes_path [OF _ sample_big_wf f(1,2), of "0x1ED"] show ?thesis unfolding f(3) by auto
qed

section \<open>Progress files\<close>



section \<open>Hashes\<close>

text \<open>C37: Reading block by block, \<^verbatim>\<open>calculateMD5\<close> hashes the whole file, for any length, given an MD5 library
  whose updates are cumulative.\<close>

theorem calculateMD5_whole:
  assumes "md5_stream M" "w_script w = []" "ifs_open w path = Some d"
  shows "calculateMD5 M w path = (hex_string (MD5_Final M (MD5_Update M (MD5_Init M) d)), w)"
  using calculateMD5_hex [OF assms] by (simp add: md5_hex_def)

theorem calculateMD5_whole_witness:
  "calculateMD5 (md5_of (\<lambda>x. x)) (sample_world ''yo'' []) ''/s/a'' = (hex_string ''hi'', sample_world ''yo'' [])"
proof -
  have "ifs_open (sample_world ''yo'' []) ''/s/a'' = Some ''hi''" by code_simp
  from calculateMD5_whole [OF sample_md5 _ this] show ?thesis by (simp add: md5_of_def)
qed

text \<open>\<^verbatim>\<open>calculatePartialMD5\<close> hashes the requested bytes when the file has them, but when the file ends
  earlier it drops the last, incomplete block of 4096 instead of hashing what is there.\<close>

theorem partial_MD5_drops_tail:
  assumes "md5_stream M" "w_script w = []" "ifs_open w path = Some d" "0 \<le> off"
  shows "calculatePartialMD5 M w path off n =
     (let rest = drop (nat off) d in
      (hex_string (MD5_Final M (MD5_Update M (MD5_Init M)
        (if n \<le> length rest then take n rest else take (length rest div 4096 * 4096) rest))), w))"
  using assms md5_stream.partial_md5_loop_enough [OF assms(1,2), of n "drop (nat off) d"]
    md5_stream.partial_md5_loop_short [OF assms(1,2), of "drop (nat off) d" n]
  by (simp add: calculatePartialMD5_def Let_def)

theorem partial_MD5_drops_tail_witness:
  "calculatePartialMD5 (md5_of (\<lambda>x. x)) (sample_world ''yo'' []) ''/s/a'' 0 10 = (hex_string [], sample_world ''yo'' [])"
proof -
  have "ifs_open (sample_world ''yo'' []) ''/s/a'' = Some ''hi''" by code_simp
  from partial_MD5_drops_tail [OF sample_md5 _ this, of 0 10] show ?thesis by (simp add: md5_of_def)
qed

end
