(* ===== verification/AsyncIO.thy ===== *)
theory AsyncIO
  imports FileTransfer
begin

text \<open>
  \<^verbatim>\<open>src/thread/AsyncIOHandler.cpp\<close> and the one function that uses it,
  \<^verbatim>\<open>FileSync::sendFileViaAsyncIO\<close>.  The handler keeps the descriptors it asked epoll to watch, the
  callbacks and the buffers still to be written; its thread is a reaction to readiness events, which
  the kernel chooses.  A callback is a name, and what it does is a function passed to the thread.  A read
  or write that the kernel refuses stands for \<^verbatim>\<open>EAGAIN\<close> as well.
\<close>

section \<open>The handler\<close>

datatype interest = EPOLLIN | EPOLLOUT

record 'cb AsyncIOHandler =
  ah_epollFd :: int
  ah_running :: bool
  ah_interest :: "int \<rightharpoonup> interest"
  ah_readCallbacks :: "int \<rightharpoonup> 'cb"
  ah_writeCallbacks :: "int \<rightharpoonup> 'cb"
  ah_writeBuffers :: "int \<rightharpoonup> byte list"

definition AsyncIOHandler_new :: "int \<Rightarrow> 'cb AsyncIOHandler" where
  "AsyncIOHandler_new epollFd = \<lparr>ah_epollFd = epollFd, ah_running = False, ah_interest = (\<lambda>_. None),
     ah_readCallbacks = (\<lambda>_. None), ah_writeCallbacks = (\<lambda>_. None), ah_writeBuffers = (\<lambda>_. None)\<rparr>"

definition AsyncIOHandler_start :: "'cb AsyncIOHandler \<Rightarrow> 'cb AsyncIOHandler" where
  "AsyncIOHandler_start h = (if \<not> ah_running h \<and> ah_epollFd h \<ge> 0 then h\<lparr>ah_running := True\<rparr> else h)"

definition AsyncIOHandler_stop :: "'cb AsyncIOHandler \<Rightarrow> 'cb AsyncIOHandler" where
  "AsyncIOHandler_stop h = (if ah_running h then h\<lparr>ah_running := False\<rparr> else h)"

definition AsyncIOHandler_isRunning :: "'cb AsyncIOHandler \<Rightarrow> bool" where
  "AsyncIOHandler_isRunning h = ah_running h"

text \<open>\<^verbatim>\<open>epoll_ctl(..., EPOLL_CTL_ADD, ...)\<close> fails for a descriptor that is already watched.\<close>

definition epoll_add :: "world \<Rightarrow> 'cb AsyncIOHandler \<Rightarrow> int \<Rightarrow> bool \<times> world" where
  "epoll_add w h fd = (let (e, w1) = next_ev w in (e \<noteq> Fail \<and> ah_interest h fd = None, w1))"

definition registerRead :: "world \<Rightarrow> 'cb AsyncIOHandler \<Rightarrow> int \<Rightarrow> 'cb \<Rightarrow> 'cb AsyncIOHandler \<times> world" where
  "registerRead w h fd callback =
     (let (ok, w1) = epoll_add w h fd in
      if \<not> ok then (h, w1)
      else (h\<lparr>ah_interest := (ah_interest h)(fd \<mapsto> EPOLLIN),
              ah_readCallbacks := (ah_readCallbacks h)(fd \<mapsto> callback)\<rparr>, w1))"

definition registerWrite ::
    "world \<Rightarrow> 'cb AsyncIOHandler \<Rightarrow> int \<Rightarrow> byte list \<Rightarrow> 'cb \<Rightarrow> 'cb AsyncIOHandler \<times> world" where
  "registerWrite w h fd data callback =
     (let (ok, w1) = epoll_add w h fd in
      if \<not> ok then (h, w1)
      else (h\<lparr>ah_interest := (ah_interest h)(fd \<mapsto> EPOLLOUT),
              ah_writeCallbacks := (ah_writeCallbacks h)(fd \<mapsto> callback),
              ah_writeBuffers := (ah_writeBuffers h)(fd \<mapsto> data)\<rparr>, w1))"

definition AsyncIOHandler_remove :: "'cb AsyncIOHandler \<Rightarrow> int \<Rightarrow> 'cb AsyncIOHandler" where
  "AsyncIOHandler_remove h fd =
     h\<lparr>ah_interest := (ah_interest h)(fd := None), ah_readCallbacks := (ah_readCallbacks h)(fd := None),
       ah_writeCallbacks := (ah_writeCallbacks h)(fd := None), ah_writeBuffers := (ah_writeBuffers h)(fd := None)\<rparr>"

section \<open>The I/O thread\<close>

text \<open>The state the thread works on: what the callbacks share, the handler and the world.  \<open>onRead\<close> and
  \<open>onWrite\<close> run a callback.\<close>

type_synonym ('s, 'cb) io = "'s \<times> 'cb AsyncIOHandler \<times> world"
type_synonym ('s, 'cb) on_read = "'cb \<Rightarrow> int \<Rightarrow> byte list \<Rightarrow> ('s, 'cb) io \<Rightarrow> ('s, 'cb) io"
type_synonym ('s, 'cb) on_write = "'cb \<Rightarrow> int \<Rightarrow> ('s, 'cb) io \<Rightarrow> ('s, 'cb) io"

text \<open>Reading until nothing is left.  The callback may do anything to the world, so the number of rounds is
  bounded by \<open>fuel\<close>; one more than the bytes and kernel events there are is always enough when the callbacks
  leave the stream alone.\<close>

fun drain :: "nat \<Rightarrow> ('s, 'cb) on_read \<Rightarrow> int \<Rightarrow> ('s, 'cb) io \<Rightarrow> ('s, 'cb) io option" where
  "drain 0 onRead fd st = None"
| "drain (Suc fuel) onRead fd (s, h, w) =
     (case sys_recv w fd 4096 of
        (RData bs, w1) \<Rightarrow>
          if bs = [] then Some (s, AsyncIOHandler_remove h fd, w1)
          else drain fuel onRead fd
                 (case ah_readCallbacks h fd of None \<Rightarrow> (s, h, w1) | Some cb \<Rightarrow> onRead cb fd bs (s, h, w1))
      | (_, w1) \<Rightarrow> Some (s, h, w1))"

definition flush :: "('s, 'cb) on_write \<Rightarrow> int \<Rightarrow> ('s, 'cb) io \<Rightarrow> ('s, 'cb) io" where
  "flush onWrite fd st =
     (let (s, h, w) = st in
      case (ah_writeBuffers h fd, ah_writeCallbacks h fd) of
        (Some data, Some cb) \<Rightarrow>
          (case sys_send w fd data of
             (WRet n, w1) \<Rightarrow>
               if n = 0 then (s, h, w1)
               else if n = length data then
                 (let (s1, h1, w2) = onWrite cb fd (s, h, w1) in (s1, AsyncIOHandler_remove h1 fd, w2))
               else (s, h\<lparr>ah_writeBuffers := (ah_writeBuffers h)(fd \<mapsto> drop n data)\<rparr>, w1)
           | (_, w1) \<Rightarrow> (s, h, w1))
      | _ \<Rightarrow> (s, h, w))"

record io_event =
  ie_fd :: int
  ie_in :: bool
  ie_out :: bool

definition io_event_step ::
    "nat \<Rightarrow> ('s, 'cb) on_read \<Rightarrow> ('s, 'cb) on_write \<Rightarrow> io_event \<Rightarrow> ('s, 'cb) io \<Rightarrow> ('s, 'cb) io option" where
  "io_event_step fuel onRead onWrite e st =
     (case (if ie_in e then drain fuel onRead (ie_fd e) st else Some st) of
        None \<Rightarrow> None
      | Some st1 \<Rightarrow> Some (if ie_out e then flush onWrite (ie_fd e) st1 else st1))"

text \<open>What \<^verbatim>\<open>epoll_wait\<close> returns to the thread: an error, or the ready descriptors (none after the timeout of a
  second).  The thread looks at \<^verbatim>\<open>running\<close> before every wait; the list is what it gets until it is observed.\<close>

datatype io_wait = IoFailed | IoReady "io_event list"

fun io_events ::
    "nat \<Rightarrow> ('s, 'cb) on_read \<Rightarrow> ('s, 'cb) on_write \<Rightarrow> io_event list \<Rightarrow> ('s, 'cb) io \<Rightarrow> ('s, 'cb) io option" where
  "io_events fuel onRead onWrite [] st = Some st"
| "io_events fuel onRead onWrite (e # es) st =
     (case io_event_step fuel onRead onWrite e st of None \<Rightarrow> None
      | Some st1 \<Rightarrow> io_events fuel onRead onWrite es st1)"

fun ioThread ::
    "nat \<Rightarrow> ('s, 'cb) on_read \<Rightarrow> ('s, 'cb) on_write \<Rightarrow> io_wait list \<Rightarrow> ('s, 'cb) io \<Rightarrow> ('s, 'cb) io option" where
  "ioThread fuel onRead onWrite [] st = Some st"
| "ioThread fuel onRead onWrite (x # xs) (s, h, w) =
     (if \<not> ah_running h then Some (s, h, w)
      else case x of
        IoFailed \<Rightarrow> ioThread fuel onRead onWrite xs (s, h, w)
      | IoReady events \<Rightarrow>
          (case io_events fuel onRead onWrite events (s, h, w) of None \<Rightarrow> None
           | Some st \<Rightarrow> ioThread fuel onRead onWrite xs st))"

text \<open>The destructor.\<close>

definition AsyncIOHandler_delete :: "world \<Rightarrow> 'cb AsyncIOHandler \<Rightarrow> 'cb AsyncIOHandler \<times> world" where
  "AsyncIOHandler_delete w h =
     (let h1 = AsyncIOHandler_stop h in (h1, if ah_epollFd h1 \<ge> 0 then sys_close w (ah_epollFd h1) else w))"

section \<open>Sending a file through the handler\<close>

datatype send_callback = FirstWritten | SecondWritten

record send_state =
  se_srcFile :: ifstream
  se_transferDone :: bool

definition on_written :: "(send_state, send_callback) on_write" where
  "on_written cb fd st =
     (let (s, h, w) = st in
      case cb of
        FirstWritten \<Rightarrow>
          if \<not> is_good (se_srcFile s) then (s\<lparr>se_transferDone := True\<rparr>, h, w)
          else
            (let (nextBuffer, srcFile, w1) = ifs_read w (se_srcFile s) 8192; s1 = s\<lparr>se_srcFile := srcFile\<rparr> in
             if length nextBuffer > 0 then (let (h1, w2) = registerWrite w1 h fd nextBuffer SecondWritten in (s1, h1, w2))
             else (s1\<lparr>se_transferDone := True\<rparr>, h, w1))
      | SecondWritten \<Rightarrow> (s\<lparr>se_transferDone := True\<rparr>, h, w))"

text \<open>Waiting on the condition variable while the I/O thread handles the events of \<open>evs\<close>: \<^term>\<open>None\<close> when it
  is still waiting after the last of them.  No read callback is ever registered here.\<close>

fun await_transfer :: "nat \<Rightarrow> io_event list \<Rightarrow> (send_state, send_callback) io \<Rightarrow> (send_state, send_callback) io option" where
  "await_transfer fuel evs (s, h, w) =
     (if se_transferDone s then Some (s, h, w)
      else case evs of
        [] \<Rightarrow> None
      | e # es \<Rightarrow>
          (case io_event_step fuel (\<lambda>cb fd bs st. st) on_written e (s, h, w) of
             None \<Rightarrow> None
           | Some st \<Rightarrow> await_transfer fuel es st))"

definition sendFileViaAsyncIO ::
    "nat \<Rightarrow> io_event list \<Rightarrow> send_callback AsyncIOHandler option \<Rightarrow> world \<Rightarrow> string \<Rightarrow> int \<Rightarrow>
     (bool \<times> send_callback AsyncIOHandler option \<times> world) option" where
  "sendFileViaAsyncIO fuel evs handler w srcPath sockfd =
     (case handler of
        None \<Rightarrow> Some (False, handler, w)
      | Some h \<Rightarrow>
          if \<not> AsyncIOHandler_isRunning h \<or> getFileStat w srcPath = None then Some (False, handler, w)
          else case ifs_open w srcPath of
            None \<Rightarrow> Some (False, handler, w)
          | Some d \<Rightarrow>
              (let (buffer, srcFile, w1) = ifs_read w \<lparr>is_rest = d, is_good = True\<rparr> 8192 in
               if length buffer > 0 then
                 (let (h1, w2) = registerWrite w1 h sockfd buffer FirstWritten in
                  map_option (\<lambda>(s, h2, w3). (True, Some h2, w3))
                    (await_transfer fuel evs (\<lparr>se_srcFile = srcFile, se_transferDone = False\<rparr>, h1, w2)))
               else Some (True, handler, w1)))"

section \<open>What a write event does\<close>

text \<open>Nothing is written twice and nothing is left out: after a write event the bytes sent and the bytes still
  buffered make up the old buffer, or all of it was sent, the callback ran and the descriptor was removed.\<close>

lemma flush_progress:
  assumes "ah_writeBuffers h fd = Some data" "ah_writeCallbacks h fd = Some cb" "flush onWrite fd (s, h, w) = (s', h', w')"
  shows "(\<exists>n w1. n < max 1 (length data) \<and> w_out w1 = (w_out w)(fd := w_out w fd @ take n data) \<and> w_in w1 = w_in w
           \<and> s' = s \<and> w' = w1 \<and> ah_writeBuffers h' = (ah_writeBuffers h)(fd \<mapsto> drop n data) \<and> ah_writeCallbacks h' fd = Some cb)
     \<or> (\<exists>w1 s1 h1. w_out w1 = (w_out w)(fd := w_out w fd @ data) \<and> onWrite cb fd (s, h, w1) = (s1, h1, w')
           \<and> s' = s1 \<and> h' = AsyncIOHandler_remove h1 fd)"
proof -
  obtain r w1 where r: "sys_send w fd data = (r, w1)" by fastforce
  show ?thesis
  proof (cases "\<exists>n. r = WRet n \<and> n = length data \<and> n \<noteq> 0")
    case True
    obtain s1 h1 w2 where c: "onWrite cb fd (s, h, w1) = (s1, h1, w2)" by (metis prod_cases3)
    from True r have "w_out w1 = (w_out w)(fd := w_out w fd @ data)"
      by (auto simp: sys_send_def next_ev_eq Let_def split: ev.splits)
    with True r c assms show ?thesis by (intro disjI2) (auto simp: flush_def Let_def)
  next
    case False
    define n where "n = (case r of WRet n \<Rightarrow> n | _ \<Rightarrow> 0)"
    have o: "w_out w1 = (w_out w)(fd := w_out w fd @ take n data)" "w_in w1 = w_in w" "n < max 1 (length data)"
      using r False by (auto simp: n_def sys_send_def next_ev_eq Let_def ev_count_def split: ev.splits)
    have "(s', h', w') = (if r = WRet n \<and> n \<noteq> 0 then (s, h\<lparr>ah_writeBuffers := (ah_writeBuffers h)(fd \<mapsto> drop n data)\<rparr>, w1) else (s, h, w1))"
      using assms r False by (cases r) (auto simp: flush_def Let_def n_def)
    with o assms(1,2) show ?thesis
      by (intro disjI1 exI [of _ n] exI [of _ w1]) (auto simp: n_def split: if_splits wres.splits)
  qed
qed

section \<open>Files of more than one buffer\<close>

text \<open>What stays true while \<open>sendFileViaAsyncIO\<close> waits: the transfer is not done, and the only callback left, if
  any, is the first one, for a descriptor that is still watched.\<close>

definition stuck :: "int \<Rightarrow> (send_state, send_callback) io \<Rightarrow> bool" where
  "stuck sock st = (case st of (s, h, w) \<Rightarrow>
     \<not> se_transferDone s \<and> list_all (\<lambda>e. e \<noteq> Fail) (w_script w) \<and> (\<forall>fd. fd \<noteq> sock \<longrightarrow> ah_writeCallbacks h fd = None) \<and>
     (ah_writeCallbacks h sock = None \<or>
      ah_writeCallbacks h sock = Some FirstWritten \<and> ah_interest h sock \<noteq> None
        \<and> is_good (se_srcFile s) \<and> is_rest (se_srcFile s) \<noteq> []))"

lemma nofail_next:
  assumes "list_all (\<lambda>e. e \<noteq> Fail) (w_script w)"
  shows "list_all (\<lambda>e. e \<noteq> Fail) (tl (w_script w))" "ev1 w \<noteq> Fail"
  using assms by (cases "w_script w"; auto simp: ev1_def)+

lemma stuck_drain: "stuck sock st \<Longrightarrow> drain fuel (\<lambda>cb fd bs st. st) fd st = Some st' \<Longrightarrow> stuck sock st'"
proof (induction fuel "\<lambda>(cb :: send_callback) (fd :: int) (bs :: byte list) (st :: (send_state, send_callback) io). st" fd st
    rule: drain.induct)
  case (2 fuel fd s h w)
  obtain r w1 where r: "sys_recv w fd 4096 = (r, w1)" by fastforce
  have sc: "w_script w1 = tl (w_script w)"
    using r by (auto simp: sys_recv_def next_ev_eq Let_def split: ev.splits)
  have st1: "stuck sock (s, h, w1)" "stuck sock (s, AsyncIOHandler_remove h fd, w1)"
    using "2.prems"(1) nofail_next sc by (auto simp: stuck_def AsyncIOHandler_remove_def)
  show ?case
  proof (cases r)
    case (RData bs)
    with "2.hyps" [OF r [symmetric] RData] "2.prems" r st1 show ?thesis
      by (cases "bs = []") (auto split: option.splits)
  qed (use "2.prems" r st1 in auto)
qed simp

lemma stuck_flush: "stuck sock st \<Longrightarrow> stuck sock (flush on_written fd st)"
proof -
  assume st: "stuck sock st"
  obtain s h w where eq: "st = (s, h, w)" by (metis prod_cases3)
  show ?thesis
  proof (cases "ah_writeBuffers h fd = None \<or> ah_writeCallbacks h fd = None")
    case True
    then show ?thesis using st eq by (auto simp: flush_def split: option.splits)
  next
    case False
    then obtain data where d: "ah_writeBuffers h fd = Some data" by auto
    have fd: "fd = sock" using False st eq by (cases "fd = sock") (auto simp: stuck_def)
    have f: "fd = sock" "ah_writeCallbacks h sock = Some FirstWritten" "ah_interest h sock \<noteq> None"
      "is_good (se_srcFile s)" "is_rest (se_srcFile s) \<noteq> []" "list_all (\<lambda>e. e \<noteq> Fail) (w_script w)"
      using False st eq fd by (auto simp: stuck_def)
    obtain r w1 where r: "sys_send w fd data = (r, w1)" by fastforce
    have w1: "w_script w1 = tl (w_script w)"
      using r by (auto simp: sys_send_def next_ev_eq Let_def split: ev.splits)
    have nf: "list_all (\<lambda>e. e \<noteq> Fail) (w_script w1)" using nofail_next(1) [OF f(6)] w1 by simp
    have nf2: "list_all (\<lambda>e. e \<noteq> Fail) (tl (tl (w_script w1)))"
      using nofail_next(1) [OF nf] by (cases "tl (w_script w1)") auto
    show ?thesis
      using st eq d f r nf nofail_next [OF nf] nf2
      by (cases r) (auto simp: flush_def stuck_def on_written_def registerWrite_def epoll_add_def next_ev_eq ifs_read_def
          AsyncIOHandler_remove_def Let_def dest: nofail_next)
  qed
qed

lemma stuck_await: "stuck sock (s, h, w) \<Longrightarrow> await_transfer fuel evs (s, h, w) = None"
proof (induction evs arbitrary: s h w)
  case Nil
  then show ?case by (simp add: stuck_def)
next
  case (Cons e es)
  show ?case
  proof (cases "io_event_step fuel (\<lambda>cb fd bs st. st) on_written e (s, h, w)")
    case None
    with Cons.prems show ?thesis by (simp add: stuck_def)
  next
    case (Some st)
    obtain s1 h1 w1 where st: "st = (s1, h1, w1)" by (metis prod_cases3)
    have "stuck sock st"
      using Some Cons.prems stuck_drain [of sock "(s, h, w)" fuel "ie_fd e"] stuck_flush [of sock]
      by (auto simp: io_event_step_def split: option.splits if_splits)
    with Cons.IH [of s1 h1 w1] Some Cons.prems st show ?thesis by (simp add: stuck_def)
  qed
qed

lemma async_send_waits_forever:
  assumes h: "AsyncIOHandler_isRunning h" "ah_interest h sock = None" "ah_writeCallbacks h = (\<lambda>_. None)"
    and f: "getFileStat w src \<noteq> None" "ifs_open w src = Some d" "8192 < length d"
    and nf: "list_all (\<lambda>e. e \<noteq> Fail) (w_script w)"
  shows "sendFileViaAsyncIO fuel evs (Some h) w src sock = None"
proof -
  let ?w1 = "w\<lparr>w_script := tl (w_script w)\<rparr>"
  let ?s = "\<lparr>se_srcFile = \<lparr>is_rest = drop 8192 d, is_good = True\<rparr>, se_transferDone = False\<rparr>"
  have r: "ifs_read w \<lparr>is_rest = d, is_good = True\<rparr> 8192 = (take 8192 d, \<lparr>is_rest = drop 8192 d, is_good = True\<rparr>, ?w1)"
    using nofail_next(2) [OF nf] f(3) by (simp add: ifs_read_def next_ev_eq)
  have nf1: "list_all (\<lambda>e. e \<noteq> Fail) (w_script ?w1)" using nofail_next(1) [OF nf] by simp
  obtain h1 w2 where h1: "registerWrite ?w1 h sock (take 8192 d) FirstWritten = (h1, w2)" by fastforce
  then have "stuck sock (?s, h1, w2)"
    using h(2,3) f(3) nofail_next [OF nf1] by (auto simp: stuck_def registerWrite_def epoll_add_def next_ev_eq)
  from stuck_await [OF this] show ?thesis
    using h f r h1 by (auto simp: sendFileViaAsyncIO_def Let_def)
qed

text \<open>A file that fits into one buffer is sent with the first write event.\<close>

lemma async_send_one_buffer:
  assumes h: "AsyncIOHandler_isRunning h" "ah_interest h sock = None"
    and f: "getFileStat w src \<noteq> None" "ifs_open w src = Some d" "d \<noteq> []" "length d \<le> 8192" and s: "w_script w = []"
    and e: "ie_fd e = sock" "\<not> ie_in e" "ie_out e"
  shows "\<exists>h'. sendFileViaAsyncIO fuel (e # evs) (Some h) w src sock =
      Some (True, Some h', w\<lparr>w_out := (w_out w)(sock := w_out w sock @ d)\<rparr>) \<and> ah_interest h' sock = None"
proof -
  let ?s = "\<lparr>se_srcFile = \<lparr>is_rest = drop 8192 d, is_good = (8192 \<le> length d)\<rparr>, se_transferDone = False\<rparr>"
  let ?h = "h\<lparr>ah_interest := (ah_interest h)(sock \<mapsto> EPOLLOUT), ah_writeCallbacks := (ah_writeCallbacks h)(sock \<mapsto> FirstWritten),
      ah_writeBuffers := (ah_writeBuffers h)(sock \<mapsto> d)\<rparr>"
  let ?w = "w\<lparr>w_out := (w_out w)(sock := w_out w sock @ d)\<rparr>"
  obtain s1 where s1: "flush on_written sock (?s, ?h, w) = (s1, AsyncIOHandler_remove ?h sock, ?w)" "se_transferDone s1"
    using f(3,4) s
    by (cases "length d = 8192")
       (auto simp: flush_def sys_send_def next_ev_nominal ev_count_def on_written_def ifs_read_def Let_def)
  then have "await_transfer fuel (e # evs) (?s, ?h, w) = Some (s1, AsyncIOHandler_remove ?h sock, ?w)"
    using e by (simp add: io_event_step_def)
  then show ?thesis
    using h f s by (auto simp: sendFileViaAsyncIO_def Let_def ifs_read_def next_ev_nominal registerWrite_def epoll_add_def
        AsyncIOHandler_remove_def)
qed

end
