(* ===== verification/Rpc.thy ===== *)
theory Rpc
  imports LocalSync TcpNet
begin

text \<open>
  \<^verbatim>\<open>src/rpc/RpcServer.cpp\<close> and \<^verbatim>\<open>src/rpc/RpcClient.cpp\<close>: the framing of requests and responses
  (type, length, payload), the request loop of the server, its two operations and the client's
  calls.  The messages are those of \<^verbatim>\<open>sync_service.proto\<close>; their encoding is generated code over
  the protobuf runtime and is the parameter \<open>pb\<close> (\<^verbatim>\<open>SerializeToString\<close>, \<^verbatim>\<open>ParseFromString\<close>).
  The depth of a recursive listing is bounded by a fuel argument.
\<close>

section \<open>Messages\<close>

definition RPC_LIST_FILES :: int where "RPC_LIST_FILES = 1"
definition RPC_GET_FILE_META :: int where "RPC_GET_FILE_META = 2"

record ListFilesRequest =
  lf_directory :: string
  lf_recursive :: bool

record GetFileMetaRequest =
  gm_file_path :: string

datatype request_payload = NoRequest | ListFilesOf ListFilesRequest | GetFileMetaOf GetFileMetaRequest

record RpcRequest =
  rq_type :: int
  rq_payload :: request_payload

record FileEntry =
  fe_name :: string
  fe_path :: string
  fe_is_directory :: bool
  fe_size :: int
  fe_mtime :: int
  fe_mode :: mode_t

record ListFilesResponse =
  lr_files :: "FileEntry list"
  lr_directory :: string
  lr_total_count :: int

record FileMeta =
  me_name :: string
  me_path :: string
  me_size :: int
  me_mtime :: int
  me_ctime :: int
  me_mode :: mode_t
  me_md5 :: string
  me_is_directory :: bool
  me_exists :: bool

record GetFileMetaResponse =
  gr_meta :: FileMeta
  gr_success :: bool
  gr_error :: string

datatype response_payload = NoResponse | ListFilesResult ListFilesResponse | GetFileMetaResult GetFileMetaResponse

record RpcResponse =
  rp_type :: int
  rp_success :: bool
  rp_error :: string
  rp_payload :: response_payload

text \<open>A message that was never set reads as its default.\<close>

definition request_list_files :: "RpcRequest \<Rightarrow> ListFilesRequest" where
  "request_list_files r = (case rq_payload r of ListFilesOf q \<Rightarrow> q | _ \<Rightarrow> \<lparr>lf_directory = [], lf_recursive = False\<rparr>)"

definition request_get_file_meta :: "RpcRequest \<Rightarrow> GetFileMetaRequest" where
  "request_get_file_meta r = (case rq_payload r of GetFileMetaOf q \<Rightarrow> q | _ \<Rightarrow> \<lparr>gm_file_path = []\<rparr>)"

definition empty_meta :: FileMeta where
  "empty_meta = \<lparr>me_name = [], me_path = [], me_size = 0, me_mtime = 0, me_ctime = 0, me_mode = 0, me_md5 = [],
     me_is_directory = False, me_exists = False\<rparr>"

record protobuf =
  pb_ser_request :: "RpcRequest \<Rightarrow> byte list option"
  pb_parse_request :: "byte list \<Rightarrow> RpcRequest option"
  pb_ser_response :: "RpcResponse \<Rightarrow> byte list option"
  pb_parse_response :: "byte list \<Rightarrow> RpcResponse option"

definition enc_u32 :: "nat \<Rightarrow> byte list" where
  "enc_u32 n = le_bytes 4 n"

definition u32_of_type :: "int \<Rightarrow> nat" where
  "u32_of_type t = of_signed 32 t"

section \<open>\<^verbatim>\<open>RpcServer\<close>\<close>

record RpcServer =
  rs_baseDirectory :: string

definition with_slash :: "string \<Rightarrow> string" where
  "with_slash s = (if s \<noteq> [] \<and> last s \<noteq> CHR ''/'' then s @ ''/'' else s)"

definition RpcServer_setBaseDirectory :: "RpcServer \<Rightarrow> string \<Rightarrow> RpcServer" where
  "RpcServer_setBaseDirectory s baseDir = s\<lparr>rs_baseDirectory := with_slash baseDir\<rparr>"

definition RpcServer_sendAll :: "int \<Rightarrow> world \<Rightarrow> byte list \<Rightarrow> bool \<times> world" where
  "RpcServer_sendAll sock w data = send_loop True False sock w data"

definition RpcServer_recvAll :: "int \<Rightarrow> world \<Rightarrow> nat \<Rightarrow> byte list option \<times> world" where
  "RpcServer_recvAll sock w sz = recv_loop True sock w sz"

text \<open>The type word is read and ignored; the type of the parsed message counts.\<close>

definition RpcServer_receiveRequest :: "protobuf \<Rightarrow> int \<Rightarrow> world \<Rightarrow> RpcRequest option \<times> world" where
  "RpcServer_receiveRequest pb sock w =
     (case RpcServer_recvAll sock w 4 of
        (None, w1) \<Rightarrow> (None, w1)
      | (Some _, w1) \<Rightarrow>
          (case RpcServer_recvAll sock w1 4 of
             (None, w2) \<Rightarrow> (None, w2)
           | (Some l, w2) \<Rightarrow>
               if le_nat l = 0 then (None, w2)
               else (case RpcServer_recvAll sock w2 (le_nat l) of
                       (None, w3) \<Rightarrow> (None, w3)
                     | (Some payload, w3) \<Rightarrow> (pb_parse_request pb payload, w3))))"

definition RpcServer_sendResponse :: "protobuf \<Rightarrow> int \<Rightarrow> world \<Rightarrow> RpcResponse \<Rightarrow> bool \<times> world" where
  "RpcServer_sendResponse pb sock w response =
     (case pb_ser_response pb response of
        None \<Rightarrow> (False, w)
      | Some serialized \<Rightarrow>
          (let payloadLen = length serialized mod 2 ^ 32;
               (ok1, w1) = RpcServer_sendAll sock w (enc_u32 (u32_of_type (rp_type response)))
           in if \<not> ok1 then (False, w1)
              else
                (let (ok2, w2) = RpcServer_sendAll sock w1 (enc_u32 payloadLen)
                 in if \<not> ok2 then (False, w2) else RpcServer_sendAll sock w2 (take payloadLen serialized))))"

text \<open>The entries of one directory, in the order of \<^verbatim>\<open>readdir\<close>; \<open>rec\<close> is the recursive call.\<close>

fun rpc_list_entries ::
    "(string \<Rightarrow> ListFilesResponse \<Rightarrow> ListFilesResponse option) \<Rightarrow> world \<Rightarrow> string \<Rightarrow> string \<Rightarrow> bool \<Rightarrow> string list \<Rightarrow>
     ListFilesResponse \<Rightarrow> ListFilesResponse option" where
  "rpc_list_entries rec w base fullRel recursive [] response = Some response"
| "rpc_list_entries rec w base fullRel recursive (name # names) response =
     (if name = ''.'' \<or> name = ''..'' then rpc_list_entries rec w base fullRel recursive names response
      else
        (let entryRel = fullRel @ name in
         case sys_stat w (base @ entryRel) of
           None \<Rightarrow> rpc_list_entries rec w base fullRel recursive names response
         | Some st \<Rightarrow>
             (let entry = \<lparr>fe_name = name, fe_path = entryRel, fe_is_directory = S_ISDIR (st_mode st),
                           fe_size = st_size st, fe_mtime = st_mtime st, fe_mode = st_mode st\<rparr>;
                  response1 = response\<lparr>lr_files := lr_files response @ [entry],
                                       lr_total_count := to_int32 (lr_total_count response + 1)\<rparr>
              in if recursive \<and> S_ISDIR (st_mode st) then
                   (case rec entryRel response1 of
                      None \<Rightarrow> None
                    | Some response2 \<Rightarrow> rpc_list_entries rec w base fullRel recursive names response2)
                 else rpc_list_entries rec w base fullRel recursive names response1)))"

primrec RpcServer_listDirectory ::
    "nat \<Rightarrow> world \<Rightarrow> string \<Rightarrow> string \<Rightarrow> bool \<Rightarrow> ListFilesResponse \<Rightarrow> ListFilesResponse option" where
  "RpcServer_listDirectory 0 w base relDir recursive response = None"
| "RpcServer_listDirectory (Suc n) w base relDir recursive response =
     (let fullRel = with_slash relDir in
      case sys_opendir w (base @ fullRel) of
        None \<Rightarrow> Some response
      | Some names \<Rightarrow>
          rpc_list_entries (\<lambda>d r. RpcServer_listDirectory n w base d recursive r) w base fullRel recursive names response)"

text \<open>\<^verbatim>\<open>None\<close>: not enough fuel.  \<^verbatim>\<open>Some None\<close>: the call returns false.\<close>

definition handleListFiles :: "nat \<Rightarrow> RpcServer \<Rightarrow> world \<Rightarrow> ListFilesRequest \<Rightarrow> ListFilesResponse option option" where
  "handleListFiles fuel s w request =
     (case sys_stat w (rs_baseDirectory s @ lf_directory request) of
        None \<Rightarrow> Some None
      | Some st \<Rightarrow>
          if \<not> S_ISDIR (st_mode st) then Some None
          else map_option Some (RpcServer_listDirectory fuel w (rs_baseDirectory s) (lf_directory request)
                 (lf_recursive request) \<lparr>lr_files = [], lr_directory = lf_directory request, lr_total_count = 0\<rparr>))"

definition RpcServer_calculateFileMD5 :: "'c md5_api \<Rightarrow> world \<Rightarrow> string \<Rightarrow> string \<times> world" where
  "RpcServer_calculateFileMD5 M w filePath =
     (case ifs_open w filePath of
        None \<Rightarrow> ([], w)
      | Some d \<Rightarrow>
          (let (ctx, w1) = md5_loop M w \<lparr>is_rest = d, is_good = True\<rparr> (MD5_Init M)
           in (hex_string (MD5_Final M ctx), w1)))"

definition handleGetFileMeta :: "'c md5_api \<Rightarrow> RpcServer \<Rightarrow> world \<Rightarrow> GetFileMetaRequest \<Rightarrow> GetFileMetaResponse \<times> world" where
  "handleGetFileMeta M s w request =
     (let fullPath = rs_baseDirectory s @ gm_file_path request in
      case sys_stat w fullPath of
        None \<Rightarrow> (\<lparr>gr_meta = empty_meta\<lparr>me_exists := False\<rparr>, gr_success = True, gr_error = []\<rparr>, w)
      | Some st \<Rightarrow>
          (let name = (case find_last_of (CHR ''/'') (gm_file_path request) of
                         Some slashPos \<Rightarrow> drop (slashPos + 1) (gm_file_path request)
                       | None \<Rightarrow> gm_file_path request);
               (md5, w1) = (if \<not> S_ISDIR (st_mode st) then RpcServer_calculateFileMD5 M w fullPath else ([], w))
           in (\<lparr>gr_meta = \<lparr>me_name = name, me_path = gm_file_path request, me_size = st_size st, me_mtime = st_mtime st,
                  me_ctime = st_ctime st, me_mode = st_mode st, me_md5 = md5, me_is_directory = S_ISDIR (st_mode st),
                  me_exists = True\<rparr>, gr_success = True, gr_error = []\<rparr>, w1)))"

text \<open>The response to one request.\<close>

definition rpc_answer :: "nat \<Rightarrow> 'c md5_api \<Rightarrow> RpcServer \<Rightarrow> world \<Rightarrow> RpcRequest \<Rightarrow> (RpcResponse \<times> world) option" where
  "rpc_answer fuel M s w request =
     (if rq_type request = RPC_LIST_FILES then
        (case handleListFiles fuel s w (request_list_files request) of
           None \<Rightarrow> None
         | Some None \<Rightarrow>
             Some (\<lparr>rp_type = rq_type request, rp_success = False, rp_error = ''processing failed'', rp_payload = NoResponse\<rparr>, w)
         | Some (Some resp) \<Rightarrow>
             Some (\<lparr>rp_type = rq_type request, rp_success = True, rp_error = [], rp_payload = ListFilesResult resp\<rparr>, w))
      else if rq_type request = RPC_GET_FILE_META then
        (let (resp, w1) = handleGetFileMeta M s w (request_get_file_meta request)
         in Some (\<lparr>rp_type = rq_type request, rp_success = True, rp_error = [], rp_payload = GetFileMetaResult resp\<rparr>, w1))
      else Some (\<lparr>rp_type = rq_type request, rp_success = False, rp_error = ''unknown RPC type'', rp_payload = NoResponse\<rparr>, w))"

section \<open>The request loop\<close>

interpretation rpc_server_reader: exact_reader RpcServer_recvAll
  by unfold_locales (auto simp: RpcServer_recvAll_def recv_loop_nominal dest: recv_loop_got)

interpretation rpc_server_writer: exact_writer RpcServer_sendAll
  by unfold_locales (auto simp: RpcServer_sendAll_def send_loop_nominal dest: send_loop_sent)

text \<open>Hashing consumes events of the kernel and nothing else.\<close>

lemma md5_loop_frame: "\<exists>sc. snd (md5_loop M w f ctx) = w\<lparr>w_script := sc\<rparr>"
proof (induction M w f ctx rule: md5_loop.induct)
  case (1 M w f ctx)
  obtain buffer f1 w1 where r: "ifs_read w f 4096 = (buffer, f1, w1)" by (metis prod_cases3)
  have w1: "\<exists>sc. w1 = w\<lparr>w_script := sc\<rparr>"
    using r by (auto simp: ifs_read_def next_ev_eq Let_def split: if_splits intro: exI [of _ "w_script w"])
  show ?case
  proof (cases "is_good f1")
    case True
    from "1.IH" [OF r [symmetric] refl refl True] w1 r True show ?thesis by (subst md5_loop.simps) auto
  next
    case False
    with w1 r show ?thesis by (subst md5_loop.simps) auto
  qed
qed

lemma rpc_answer_frame:
  assumes "rpc_answer fuel M s w r = Some (resp, w')"
  shows "\<exists>sc. w' = w\<lparr>w_script := sc\<rparr>"
proof -
  have id: "\<exists>sc. w = w\<lparr>w_script := sc\<rparr>" by (intro exI [of _ "w_script w"]) simp
  have "\<exists>sc. snd (RpcServer_calculateFileMD5 M w p) = w\<lparr>w_script := sc\<rparr>" for p
    using md5_loop_frame [of M w] id by (auto simp: RpcServer_calculateFileMD5_def split: option.splits prod.splits) (metis snd_conv)
  then have "\<exists>sc. snd (handleGetFileMeta M s w q) = w\<lparr>w_script := sc\<rparr>" for q
    using id by (auto simp: handleGetFileMeta_def Let_def split: option.splits prod.splits) (metis snd_conv)+
  then show ?thesis
    using assms id by (auto simp: rpc_answer_def split: if_splits option.splits prod.splits) (metis snd_conv)
qed

lemma receiveRequest_consumes:
  assumes "RpcServer_receiveRequest pb sock w = (Some r, w')"
  shows "length (w_in w' sock) + 9 \<le> length (w_in w sock)"
proof -
  obtain t w1 l w2 p w3 where rs: "RpcServer_recvAll sock w 4 = (Some t, w1)" "RpcServer_recvAll sock w1 4 = (Some l, w2)"
    "le_nat l \<noteq> 0" "RpcServer_recvAll sock w2 (le_nat l) = (Some p, w3)" "w' = w3"
    using assms by (auto simp: RpcServer_receiveRequest_def split: option.splits prod.splits if_splits)
  have "length (w_in a sock) = n + length (w_in b sock)" if "RpcServer_recvAll sock a n = (Some x, b)" for a b n x
    using rpc_server_reader.rd_got [OF that] by (auto simp: got_def)
  from this [OF rs(1)] this [OF rs(2)] this [OF rs(4)] rs(3,5) show ?thesis by simp
qed

lemma sendResponse_in:
  assumes "RpcServer_sendResponse pb sock w r = (ok, w')"
  shows "w_in w' = w_in w"
proof -
  have "w_in b = w_in a" if "RpcServer_sendAll sock a x = (k, b)" for a b x k
    using rpc_server_writer.wr_frame(3) [OF that] .
  with assms show ?thesis
    by (auto simp: RpcServer_sendResponse_def Let_def split: option.splits prod.splits if_splits)
qed

text \<open>\<^verbatim>\<open>None\<close>: a recursive listing ran out of fuel.\<close>

function rpc_loop ::
    "nat \<Rightarrow> protobuf \<Rightarrow> 'c md5_api \<Rightarrow> RpcServer \<Rightarrow> int \<Rightarrow> bool \<Rightarrow> world \<Rightarrow> (bool \<times> world) option" where
  "rpc_loop fuel pb M s clientSock firstRequest w =
     (case RpcServer_receiveRequest pb clientSock w of
        (None, w1) \<Rightarrow> Some (firstRequest, sys_close w1 clientSock)
      | (Some request, w1) \<Rightarrow>
          (case rpc_answer fuel M s w1 request of
             None \<Rightarrow> None
           | Some (response, w2) \<Rightarrow>
               (case RpcServer_sendResponse pb clientSock w2 response of
                  (False, w3) \<Rightarrow> Some (False, sys_close w3 clientSock)
                | (True, w3) \<Rightarrow> rpc_loop fuel pb M s clientSock False w3)))"
  by pat_completeness auto
termination
proof (relation "measure (\<lambda>(fuel, pb, M, s, clientSock, firstRequest, w). length (w_in w clientSock))", goal_cases)
  case (2 fuel pb M s clientSock firstRequest w a w1 r b resp w2 c w3)
  from rpc_answer_frame [of fuel M s w1 r resp w2] 2 have "w_in w2 = w_in w1" by auto
  moreover from sendResponse_in [of pb clientSock w2 resp c w3] 2 have "w_in w3 = w_in w2" by auto
  ultimately show ?case using receiveRequest_consumes [of pb clientSock w r w1] 2 by simp
qed simp

declare rpc_loop.simps [simp del]

definition handleRpcClient ::
    "nat \<Rightarrow> protobuf \<Rightarrow> 'c md5_api \<Rightarrow> RpcServer \<Rightarrow> int \<Rightarrow> world \<Rightarrow> (bool \<times> world) option" where
  "handleRpcClient fuel pb M s clientSock w = rpc_loop fuel pb M s clientSock True w"

section \<open>\<^verbatim>\<open>RpcClient\<close>\<close>

record RpcClient =
  rc_sockFd :: int
  rc_connected :: bool

definition RpcClient_new :: RpcClient where
  "RpcClient_new = \<lparr>rc_sockFd = -1, rc_connected = False\<rparr>"

definition RpcClient_sendAll :: "int \<Rightarrow> world \<Rightarrow> byte list \<Rightarrow> bool \<times> world" where
  "RpcClient_sendAll sock w data = send_loop False False sock w data"

definition RpcClient_recvAll :: "int \<Rightarrow> world \<Rightarrow> nat \<Rightarrow> byte list option \<times> world" where
  "RpcClient_recvAll sock w sz = recv_loop False sock w sz"

definition RpcClient_disconnect :: "world \<Rightarrow> RpcClient \<Rightarrow> RpcClient \<times> world" where
  "RpcClient_disconnect w c =
     (let (c1, w1) = (if rc_sockFd c \<ge> 0 then (c\<lparr>rc_sockFd := -1\<rparr>, sys_close w (rc_sockFd c)) else (c, w))
      in (c1\<lparr>rc_connected := False\<rparr>, w1))"

definition RpcClient_isConnected :: "RpcClient \<Rightarrow> bool" where
  "RpcClient_isConnected c = rc_connected c"

definition RpcClient_connect :: "world \<Rightarrow> RpcClient \<Rightarrow> string \<Rightarrow> int \<Rightarrow> bool \<times> RpcClient \<times> world" where
  "RpcClient_connect w c host port =
     (let (fd, w1) = sys_socket w; c1 = c\<lparr>rc_sockFd := fd\<rparr> in
      if fd < 0 then (False, c1, w1)
      else if \<not> inet_pton_ok (cstr host) then (False, c1\<lparr>rc_sockFd := -1\<rparr>, sys_close w1 fd)
      else
        (let (ok, w2) = sys_connect w1 fd (cstr host) (port16 port) in
         if \<not> ok then (False, c1\<lparr>rc_sockFd := -1\<rparr>, sys_close w2 fd)
         else
           (let (sent, w3) = RpcClient_sendAll fd w2 [CHR 0x01] in
            if \<not> sent then (let (c2, w4) = RpcClient_disconnect w3 c1 in (False, c2, w4))
            else (True, c1\<lparr>rc_connected := True\<rparr>, w3))))"

definition RpcClient_sendRequest ::
    "protobuf \<Rightarrow> world \<Rightarrow> RpcClient \<Rightarrow> byte list \<Rightarrow> int \<Rightarrow> RpcResponse option \<times> world" where
  "RpcClient_sendRequest pb w c request rpcType =
     (if \<not> rc_connected c then (None, w)
      else
        (let fd = rc_sockFd c; payloadLen = length request mod 2 ^ 32;
             (ok1, w1) = RpcClient_sendAll fd w (enc_u32 (u32_of_type rpcType)) in
         if \<not> ok1 then (None, w1)
         else let (ok2, w2) = RpcClient_sendAll fd w1 (enc_u32 payloadLen) in
         if \<not> ok2 then (None, w2)
         else let (ok3, w3) = RpcClient_sendAll fd w2 (take payloadLen request) in
         if \<not> ok3 then (None, w3)
         else case RpcClient_recvAll fd w3 4 of
           (None, w4) \<Rightarrow> (None, w4)
         | (Some _, w4) \<Rightarrow>
             (case RpcClient_recvAll fd w4 4 of
                (None, w5) \<Rightarrow> (None, w5)
              | (Some l, w5) \<Rightarrow>
                  if le_nat l = 0 then (None, w5)
                  else (case RpcClient_recvAll fd w5 (le_nat l) of
                          (None, w6) \<Rightarrow> (None, w6)
                        | (Some respData, w6) \<Rightarrow> (pb_parse_response pb respData, w6)))))"

definition RpcClient_listFiles ::
    "protobuf \<Rightarrow> world \<Rightarrow> RpcClient \<Rightarrow> string \<Rightarrow> bool \<Rightarrow> ListFilesResponse option \<times> world" where
  "RpcClient_listFiles pb w c directory recursive =
     (let rpcRequest = \<lparr>rq_type = RPC_LIST_FILES,
            rq_payload = ListFilesOf \<lparr>lf_directory = directory, lf_recursive = recursive\<rparr>\<rparr> in
      case pb_ser_request pb rpcRequest of
        None \<Rightarrow> (None, w)
      | Some serialized \<Rightarrow>
          (case RpcClient_sendRequest pb w c serialized RPC_LIST_FILES of
             (None, w1) \<Rightarrow> (None, w1)
           | (Some rpcResponse, w1) \<Rightarrow>
               (case rp_payload rpcResponse of
                  ListFilesResult resp \<Rightarrow> if rp_success rpcResponse then (Some resp, w1) else (None, w1)
                | _ \<Rightarrow> (None, w1))))"

definition RpcClient_getFileMeta ::
    "protobuf \<Rightarrow> world \<Rightarrow> RpcClient \<Rightarrow> string \<Rightarrow> GetFileMetaResponse option \<times> world" where
  "RpcClient_getFileMeta pb w c filePath =
     (let rpcRequest = \<lparr>rq_type = RPC_GET_FILE_META, rq_payload = GetFileMetaOf \<lparr>gm_file_path = filePath\<rparr>\<rparr> in
      case pb_ser_request pb rpcRequest of
        None \<Rightarrow> (None, w)
      | Some serialized \<Rightarrow>
          (case RpcClient_sendRequest pb w c serialized RPC_GET_FILE_META of
             (None, w1) \<Rightarrow> (None, w1)
           | (Some rpcResponse, w1) \<Rightarrow>
               (case rp_payload rpcResponse of
                  GetFileMetaResult resp \<Rightarrow> if rp_success rpcResponse then (Some resp, w1) else (None, w1)
                | _ \<Rightarrow> (None, w1))))"

interpretation rpc_client_reader: exact_reader RpcClient_recvAll
  by unfold_locales (auto simp: RpcClient_recvAll_def recv_loop_nominal dest: recv_loop_got)

interpretation rpc_client_writer: exact_writer RpcClient_sendAll
  by unfold_locales (auto simp: RpcClient_sendAll_def send_loop_nominal dest: send_loop_sent)

section \<open>Frames\<close>

definition rpc_frame :: "int \<Rightarrow> byte list \<Rightarrow> byte list" where
  "rpc_frame t payload = enc_u32 (u32_of_type t) @ enc_u32 (length payload) @ payload"

definition frame_ok :: "byte list \<Rightarrow> bool" where
  "frame_ok payload \<longleftrightarrow> payload \<noteq> [] \<and> int (length payload) < 2 ^ 32"

lemma frame_ok_nat: "frame_ok p \<Longrightarrow> length p < 2 ^ 32"
  by (simp add: frame_ok_def)

lemma enc_u32_props [simp]: "length (enc_u32 n) = 4" "le_nat (enc_u32 n) = n mod 2 ^ 32"
  by (simp_all add: enc_u32_def le_nat_le_bytes)

lemma receiveRequest_frame:
  assumes "w_script w = []" "w_in w sock = rpc_frame t p @ r" "frame_ok p"
  shows "RpcServer_receiveRequest pb sock w = (pb_parse_request pb p, w\<lparr>w_in := (w_in w)(sock := r)\<rparr>)"
proof -
  let ?w1 = "w\<lparr>w_in := (w_in w)(sock := enc_u32 (length p) @ p @ r)\<rparr>"
  let ?w2 = "w\<lparr>w_in := (w_in w)(sock := p @ r)\<rparr>"
  have "RpcServer_recvAll sock w 4 = (Some (enc_u32 (u32_of_type t)), ?w1)"
    using assms by (intro rpc_server_reader.rd_nominal) (simp_all add: rpc_frame_def)
  moreover have "RpcServer_recvAll sock ?w1 4 = (Some (enc_u32 (length p)), ?w2)"
    using assms rpc_server_reader.rd_nominal [of ?w1 sock "enc_u32 (length p)" "p @ r" 4] by simp
  moreover have "RpcServer_recvAll sock ?w2 (length p) = (Some p, w\<lparr>w_in := (w_in w)(sock := r)\<rparr>)"
    using assms frame_ok_nat [OF assms(3)] rpc_server_reader.rd_nominal [of ?w2 sock p r "length p"] by simp
  ultimately show ?thesis
    using assms(3) frame_ok_nat [OF assms(3)] by (simp add: RpcServer_receiveRequest_def frame_ok_def)
qed

lemma sendResponse_frame:
  assumes "w_script w = []" "pb_ser_response pb resp = Some p" "frame_ok p"
  shows "RpcServer_sendResponse pb sock w resp =
    (True, w\<lparr>w_out := (w_out w)(sock := w_out w sock @ rpc_frame (rp_type resp) p)\<rparr>)"
  using assms frame_ok_nat [OF assms(3)]
  by (simp add: RpcServer_sendResponse_def rpc_server_writer.wr_nominal rpc_frame_def)

lemma sendRequest_frame:
  assumes s: "w_script w = []" and c: "rc_connected c" and q: "frame_ok q"
    and i: "w_in w (rc_sockFd c) = rpc_frame t p @ r" "frame_ok p"
  shows "RpcClient_sendRequest pb w c q rpcType =
    (pb_parse_response pb p,
     w\<lparr>w_out := (w_out w)(rc_sockFd c := w_out w (rc_sockFd c) @ rpc_frame rpcType q),
       w_in := (w_in w)(rc_sockFd c := r)\<rparr>)"
proof -
  let ?fd = "rc_sockFd c"
  let ?w3 = "w\<lparr>w_out := (w_out w)(?fd := w_out w ?fd @ rpc_frame rpcType q)\<rparr>"
  let ?w4 = "?w3\<lparr>w_in := (w_in w)(?fd := enc_u32 (length p) @ p @ r)\<rparr>"
  let ?w5 = "?w3\<lparr>w_in := (w_in w)(?fd := p @ r)\<rparr>"
  have "RpcClient_recvAll ?fd ?w3 4 = (Some (enc_u32 (u32_of_type t)), ?w4)"
    using s i rpc_client_reader.rd_nominal [of ?w3 ?fd "enc_u32 (u32_of_type t)" "enc_u32 (length p) @ p @ r" 4]
    by (simp add: rpc_frame_def)
  moreover have "RpcClient_recvAll ?fd ?w4 4 = (Some (enc_u32 (length p)), ?w5)"
    using s rpc_client_reader.rd_nominal [of ?w4 ?fd "enc_u32 (length p)" "p @ r" 4] by simp
  moreover have "RpcClient_recvAll ?fd ?w5 (length p) = (Some p, ?w3\<lparr>w_in := (w_in w)(?fd := r)\<rparr>)"
    using s frame_ok_nat [OF i(2)] rpc_client_reader.rd_nominal [of ?w5 ?fd p r "length p"] by simp
  ultimately show ?thesis
    using s c i(2) frame_ok_nat [OF q] frame_ok_nat [OF i(2)]
    by (simp add: RpcClient_sendRequest_def rpc_client_writer.wr_nominal rpc_frame_def frame_ok_def Let_def)
qed

section \<open>A session\<close>

text \<open>The answers depend on the file system only.\<close>

lemma answer_cong_stat: "sys_stat (w\<lparr>w_in := a, w_out := b\<rparr>) p = sys_stat w p"
  "sys_opendir (w\<lparr>w_in := a, w_out := b\<rparr>) p = sys_opendir w p"
  "ifs_open (w\<lparr>w_in := a, w_out := b\<rparr>) p = ifs_open w p"
proof -
  have r: "resolve (w\<lparr>w_in := a, w_out := b\<rparr>) p = resolve w p" by (simp add: resolve_def path_start_def Let_def)
  have "stat_of (w\<lparr>w_in := a, w_out := b\<rparr>) k i = stat_of w k i" for k i by (simp add: stat_of_def)
  then show "sys_stat (w\<lparr>w_in := a, w_out := b\<rparr>) p = sys_stat w p"
    by (cases "resolve w p"; cases "map_of (w_fs w) (the (resolve w p))") (simp_all add: sys_stat_def r)
  show "sys_opendir (w\<lparr>w_in := a, w_out := b\<rparr>) p = sys_opendir w p"
    by (cases "resolve w p") (simp_all add: sys_opendir_def r)
  show "ifs_open (w\<lparr>w_in := a, w_out := b\<rparr>) p = ifs_open w p"
    by (cases "resolve w p") (simp_all add: ifs_open_def r data_at_def)
qed

lemma list_entries_cong:
  "rpc_list_entries rec (w\<lparr>w_in := a, w_out := b\<rparr>) base fr rc ns resp = rpc_list_entries rec w base fr rc ns resp"
  by (induction rec w base fr rc ns resp rule: rpc_list_entries.induct)
     (simp_all add: answer_cong_stat Let_def split: option.splits)

lemma listDirectory_cong:
  "RpcServer_listDirectory n (w\<lparr>w_in := a, w_out := b\<rparr>) base d rc resp = RpcServer_listDirectory n w base d rc resp"
proof (induction n arbitrary: d resp)
  case (Suc n)
  have "(\<lambda>d r. RpcServer_listDirectory n (w\<lparr>w_in := a, w_out := b\<rparr>) base d rc r) =
      (\<lambda>d r. RpcServer_listDirectory n w base d rc r)"
    by (intro ext) (rule Suc.IH)
  then show ?case
    by (cases "sys_opendir w (base @ with_slash d)") (simp_all add: answer_cong_stat list_entries_cong Let_def)
qed simp

lemma md5_loop_cong:
  "w_script w = [] \<Longrightarrow> w_script w' = [] \<Longrightarrow> fst (md5_loop M w f ctx) = fst (md5_loop M w' f ctx)"
proof (induction M w f ctx rule: md5_loop.induct)
  case (1 M w f ctx)
  show ?case
  proof (cases "is_good f \<and> 4096 \<le> length (is_rest f)")
    case True
    with 1 show ?thesis
      by (subst (1 2) md5_loop.simps) (auto simp: ifs_read_def next_ev_nominal)
  next
    case False
    with "1.prems" show ?thesis
      by (subst (1 2) md5_loop.simps) (auto simp: ifs_read_def next_ev_nominal Let_def)
  qed
qed

lemma rpc_md5_nominal:
  assumes "w_script w = []"
  shows "RpcServer_calculateFileMD5 M w p = (fst (RpcServer_calculateFileMD5 M w p), w)"
    "fst (RpcServer_calculateFileMD5 M (w\<lparr>w_in := a, w_out := b\<rparr>) p) = fst (RpcServer_calculateFileMD5 M w p)"
  using md5_loop_nominal [OF assms, of M] md5_loop_cong [of w "w\<lparr>w_in := a, w_out := b\<rparr>" M] assms
  by (auto simp: RpcServer_calculateFileMD5_def answer_cong_stat split: option.splits prod.splits) (metis fst_conv snd_conv)+

lemma rpc_answer_nominal:
  assumes s: "w_script w = []" and a: "rpc_answer fuel M srv w r = Some (resp, w')"
  shows "w' = w" "rpc_answer fuel M srv (w\<lparr>w_in := a, w_out := b\<rparr>) r = Some (resp, w\<lparr>w_in := a, w_out := b\<rparr>)"
proof -
  let ?v = "w\<lparr>w_in := a, w_out := b\<rparr>"
  have lf: "handleListFiles fuel srv ?v q = handleListFiles fuel srv w q" for q
    by (cases "sys_stat w (rs_baseDirectory srv @ lf_directory q)")
       (simp_all add: handleListFiles_def answer_cong_stat listDirectory_cong)
  have v: "w_script ?v = []" using s by simp
  have gm: "snd (handleGetFileMeta M srv w q) = w" "handleGetFileMeta M srv ?v q = (fst (handleGetFileMeta M srv w q), ?v)" for q
  proof -
    let ?p = "rs_baseDirectory srv @ gm_file_path q"
    obtain x where x: "RpcServer_calculateFileMD5 M w ?p = (x, w)"
      using rpc_md5_nominal(1) [OF s, of M ?p] by (rule that)
    have fx: "fst (RpcServer_calculateFileMD5 M ?v ?p) = x"
      using rpc_md5_nominal(2) [OF s, where M = M and a = a and b = b and p = ?p] x by simp
    note y = rpc_md5_nominal(1) [OF v, of M ?p, unfolded fx]
    show "snd (handleGetFileMeta M srv w q) = w" "handleGetFileMeta M srv ?v q = (fst (handleGetFileMeta M srv w q), ?v)"
      by (cases "sys_stat w ?p"; simp add: handleGetFileMeta_def answer_cong_stat Let_def x y)+
  qed
  show "w' = w" using a gm(1) by (auto simp: rpc_answer_def split: if_splits option.splits prod.splits) (metis snd_conv)
  show "rpc_answer fuel M srv ?v r = Some (resp, ?v)"
    using a \<open>w' = w\<close> lf gm(2) by (auto simp: rpc_answer_def split: if_splits option.splits prod.splits)
qed

text \<open>One exchange: type and payload received, response, payload sent.\<close>

type_synonym exchange = "int \<times> byte list \<times> RpcResponse \<times> byte list"

definition in_frame :: "exchange \<Rightarrow> byte list" where
  "in_frame = (\<lambda>(t, p, resp, q). rpc_frame t p)"

definition out_frame :: "exchange \<Rightarrow> byte list" where
  "out_frame = (\<lambda>(t, p, resp, q). rpc_frame (rp_type resp) q)"

definition exchange_ok ::
    "nat \<Rightarrow> protobuf \<Rightarrow> 'c md5_api \<Rightarrow> RpcServer \<Rightarrow> world \<Rightarrow> exchange \<Rightarrow> bool" where
  "exchange_ok fuel pb M srv w = (\<lambda>(t, p, resp, q).
     frame_ok p \<and> frame_ok q \<and> pb_ser_response pb resp = Some q
     \<and> (case pb_parse_request pb p of None \<Rightarrow> False | Some r \<Rightarrow>
          (case rpc_answer fuel M srv w r of None \<Rightarrow> False | Some (x, _) \<Rightarrow> x = resp)))"

lemma exchange_okD:
  assumes "exchange_ok fuel pb M srv w (t, p, resp, q)" "w_script w = []"
  obtains r where "frame_ok p" "frame_ok q" "pb_ser_response pb resp = Some q" "pb_parse_request pb p = Some r"
    "rpc_answer fuel M srv w r = Some (resp, w)"
proof -
  from assms(1) obtain r w' where r: "frame_ok p" "frame_ok q" "pb_ser_response pb resp = Some q"
    "pb_parse_request pb p = Some r" "rpc_answer fuel M srv w r = Some (resp, w')"
    by (auto simp: exchange_ok_def split: option.splits prod.splits)
  from rpc_answer_nominal(1) [OF assms(2) r(5)] r that show ?thesis by simp
qed

lemma rpc_loop_session:
  assumes "w_script w = []" "list_all (exchange_ok fuel pb M srv w) xs"
    and "w_in v sock = concat (map in_frame xs)"
    and "v = w\<lparr>w_in := a, w_out := b\<rparr>"
  shows "rpc_loop fuel pb M srv sock first v = Some (first \<and> xs = [],
     sys_close (v\<lparr>w_in := (w_in v)(sock := []),
       w_out := (w_out v)(sock := w_out v sock @ concat (map out_frame xs))\<rparr>) sock)"
  using assms(2-)
proof (induction xs arbitrary: v a b first)
  case Nil
  have id: "(w_in v)(sock := []) = w_in v" using Nil(2) by auto
  have sv: "w_script v = []" "w_in v sock = []" using Nil assms(1) by simp_all
  have "RpcServer_recvAll sock v 4 = (None, v)"
    unfolding RpcServer_recvAll_def using sv id
    by (subst recv_loop.simps) (simp add: sys_recv_def next_ev_nominal read_count_def)
  then show ?case
    using id by (subst rpc_loop.simps) (simp add: RpcServer_receiveRequest_def)
next
  case (Cons x xs)
  obtain t p resp q where x: "x = (t, p, resp, q)" by (metis prod_cases4)
  obtain r where r: "frame_ok p" "frame_ok q" "pb_ser_response pb resp = Some q" "pb_parse_request pb p = Some r"
    "rpc_answer fuel M srv w r = Some (resp, w)"
    using Cons.prems(1) x assms(1) by (auto elim: exchange_okD)
  let ?rest = "concat (map in_frame xs)"
  let ?v1 = "v\<lparr>w_in := (w_in v)(sock := ?rest)\<rparr>"
  let ?v3 = "?v1\<lparr>w_out := (w_out v)(sock := w_out v sock @ rpc_frame (rp_type resp) q)\<rparr>"
  have sv: "w_script v = []" using Cons.prems(3) assms(1) by simp
  have "RpcServer_receiveRequest pb sock v = (Some r, ?v1)"
    using receiveRequest_frame [OF sv _ r(1), of sock t ?rest pb] Cons.prems(2) x r(4) by (simp add: in_frame_def)
  moreover have "?v1 = w\<lparr>w_in := a(sock := ?rest), w_out := b\<rparr>"
    using Cons.prems(3) by (cases w) simp
  then have "rpc_answer fuel M srv ?v1 r = Some (resp, ?v1)"
    using rpc_answer_nominal(2) [OF assms(1) r(5), where a = "a(sock := ?rest)" and b = b] by (simp only:)
  moreover have "RpcServer_sendResponse pb sock ?v1 resp = (True, ?v3)"
    using sendResponse_frame [OF _ r(3,2), of ?v1 sock] sv by simp
  ultimately have eq: "rpc_loop fuel pb M srv sock first v = rpc_loop fuel pb M srv sock False ?v3"
    by (subst rpc_loop.simps) simp
  have "rpc_loop fuel pb M srv sock False ?v3 = Some (False \<and> xs = [],
     sys_close (?v3\<lparr>w_in := (w_in ?v3)(sock := []),
       w_out := (w_out ?v3)(sock := w_out ?v3 sock @ concat (map out_frame xs))\<rparr>) sock)"
    using Cons.prems
    by (intro Cons.IH [where a = "a(sock := ?rest)" and b = "b(sock := b sock @ rpc_frame (rp_type resp) q)"]) (simp_all add: fun_upd_def)
  moreover have "?v3\<lparr>w_in := (w_in ?v3)(sock := []), w_out := (w_out ?v3)(sock := w_out ?v3 sock @ concat (map out_frame xs))\<rparr>
      = v\<lparr>w_in := (w_in v)(sock := []), w_out := (w_out v)(sock := w_out v sock @ concat (map out_frame (x # xs)))\<rparr>"
    using x by (cases v) (simp add: out_frame_def)
  ultimately show ?case using eq by (simp only: list.distinct simp_thms)
qed

end
