(* ===== verification/SyncServer.thy ===== *)
theory SyncServer
  imports Rpc
begin

text \<open>
  \<^verbatim>\<open>src/server/SyncServer.cpp\<close>: the server side of the sync protocol.  A client is handled by one task
  of the thread pool; the model handles one client at a time.  \<open>maxvec\<close> is the largest
  \<^verbatim>\<open>std::vector<char>\<close> the allocator grants (at most \<^verbatim>\<open>max_size()\<close>, that is \<open>2 ^ 63 - 1\<close>); asking for more
  throws.  An exception leaves \<^verbatim>\<open>handleClient\<close> and is caught by the pool's worker.
\<close>

section \<open>Receiving exactly\<close>

lemma sys_recv_script:
  "sys_recv w fd n = (r, w1) \<Longrightarrow>
     length (w_script w1) \<le> length (w_script w) \<and> (r = RIntr \<longrightarrow> length (w_script w1) < length (w_script w))"
  by (auto simp: sys_recv_def next_ev_def Let_def split: list.splits ev.splits)

text \<open>\<^verbatim>\<open>robustRead\<close>: the bytes read before the end of the stream, at most \<open>count\<close>; \<^term>\<open>None\<close> stands for -1.
  The loop compares against \<open>count\<close> converted to \<^verbatim>\<open>ssize_t\<close>.\<close>

function robustRead :: "int \<Rightarrow> world \<Rightarrow> nat \<Rightarrow> byte list \<Rightarrow> byte list option \<times> world" where
  "robustRead fd w count buf =
     (if int (length buf) < to_signed 64 count then
        (case sys_recv w fd (count - length buf) of
           (RData bs, w1) \<Rightarrow> if bs = [] then (Some buf, w1) else robustRead fd w1 count (buf @ bs)
         | (RIntr, w1) \<Rightarrow> robustRead fd w1 count buf
         | (RErr, w1) \<Rightarrow> (None, w1))
      else (Some buf, w))"
  by pat_completeness auto
termination
proof (relation "measure (\<lambda>(fd, w, count, buf). length (w_script w) + (count - length buf))", goal_cases)
  case (2 fd w count buf r w1 bs)
  then have "bs \<noteq> []" "length buf < count" "length (w_script w1) \<le> length (w_script w)"
    using sys_recv_script [of w fd "count - length buf" r w1] by (auto simp: to_signed_def split: if_splits)
  then show ?case by (auto simp: neq_Nil_conv)
next
  case (3 fd w count buf r w1)
  then show ?case using sys_recv_script [of w fd "count - length buf" r w1] by auto
qed simp

declare robustRead.simps [simp del]

lemma robustRead_got:
  "robustRead fd w count buf = (res, w') \<Longrightarrow> length buf \<le> count \<Longrightarrow>
     (case res of Some bs \<Rightarrow> \<exists>cs. bs = buf @ cs \<and> length bs \<le> count \<and> got fd cs w w'
      | None \<Rightarrow> \<exists>cs. got fd cs w w' \<and> length buf + length cs < count)"
proof (induction fd w count buf arbitrary: res w' rule: robustRead.induct)
  case (1 fd w count buf)
  show ?case
  proof (cases "int (length buf) < to_signed 64 count")
    case False
    with "1.prems" show ?thesis by (subst (asm) robustRead.simps) auto
  next
    case lt: True
    then have c: "length buf < count" by (auto simp: to_signed_def split: if_splits)
    obtain x w1 where x: "sys_recv w fd (count - length buf) = (x, w1)" by fastforce
    show ?thesis
    proof (cases x)
      case (RData bs)
      note g = sys_recv_got(1) [OF x [unfolded RData]]
      show ?thesis
      proof (cases "bs = []")
        case True
        with "1.prems" x RData lt g show ?thesis by (subst (asm) robustRead.simps) auto
      next
        case False
        with "1.prems" x RData lt have r: "robustRead fd w1 count (buf @ bs) = (res, w')"
          by (subst (asm) robustRead.simps) auto
        from g c have "length (buf @ bs) \<le> count" by auto
        note ih = "1.IH"(1) [OF lt x [symmetric, unfolded RData] refl False r this]
        show ?thesis
        proof (cases res)
          case None
          with ih obtain cs where "got fd cs w1 w'" "length buf + length (bs @ cs) < count" by auto
          with got_trans [of fd bs w w1 cs w'] g None show ?thesis by (auto intro: exI [of _ "bs @ cs"])
        next
          case (Some b)
          with ih obtain cs where "b = buf @ bs @ cs" "length b \<le> count" "got fd cs w1 w'" by auto
          with got_trans [of fd bs w w1 cs w'] g Some show ?thesis by auto
        qed
      qed
    next
      case RIntr
      with "1.prems" x lt have r: "robustRead fd w1 count buf = (res, w')"
        by (subst (asm) robustRead.simps) auto
      from "1.IH"(2) [OF lt x [symmetric, unfolded RIntr] refl r "1.prems"(2)] sys_recv_got(2) [OF x [unfolded RIntr]]
      show ?thesis using got_trans [of fd "[]"] by (cases res) fastforce+
    next
      case RErr
      with "1.prems" x lt c sys_recv_got(3) [of w fd "count - length buf" w1] show ?thesis
        by (subst (asm) robustRead.simps) (auto intro: exI [of _ "[]"])
    qed
  qed
qed

lemma robustRead_nominal:
  assumes "w_script w = []" "w_in w fd = bs @ r" "length buf + length bs = count" "int count < 2 ^ 63"
  shows "robustRead fd w count buf = (Some (buf @ bs), w\<lparr>w_in := (w_in w)(fd := r)\<rparr>)"
proof (cases "bs = []")
  case True
  then have "(w_in w)(fd := r) = w_in w" using assms by auto
  with True assms show ?thesis by (subst robustRead.simps) (simp add: to_signed_def)
next
  case False
  with assms have "sys_recv w fd (count - length buf) = (RData bs, w\<lparr>w_in := (w_in w)(fd := r)\<rparr>)"
    by (auto simp: sys_recv_def next_ev_nominal read_count_def)
  moreover have "robustRead fd v count (buf @ bs) = (Some (buf @ bs), v)" for v
    using assms(3) by (subst robustRead.simps) (simp add: to_signed_def)
  moreover have "length buf < count" using assms(3) False by (cases bs) auto
  ultimately show ?thesis using assms False by (subst robustRead.simps) (simp add: to_signed_def)
qed

function receiveBytes_loop :: "int \<Rightarrow> world \<Rightarrow> nat \<Rightarrow> byte list \<Rightarrow> byte list option \<times> world" where
  "receiveBytes_loop clientSock w sz buf =
     (if length buf < sz then
        (case robustRead clientSock w (sz - length buf) [] of
           (None, w1) \<Rightarrow> (None, w1)
         | (Some bs, w1) \<Rightarrow> if bs = [] then (None, w1) else receiveBytes_loop clientSock w1 sz (buf @ bs))
      else (Some buf, w))"
  by pat_completeness auto
termination
  by (relation "measure (\<lambda>(fd, w, sz, buf). sz - length buf)") (auto simp: neq_Nil_conv)

declare receiveBytes_loop.simps [simp del]

definition receiveBytes :: "int \<Rightarrow> world \<Rightarrow> nat \<Rightarrow> byte list option \<times> world" where
  "receiveBytes clientSock w sz = receiveBytes_loop clientSock w sz []"

definition receiveInt :: "int \<Rightarrow> world \<Rightarrow> int option \<times> world" where
  "receiveInt clientSock w = map_prod (map_option dec_int) id (receiveBytes clientSock w 4)"

definition receiveSizeT :: "int \<Rightarrow> world \<Rightarrow> nat option \<times> world" where
  "receiveSizeT clientSock w = map_prod (map_option dec_size_t) id (receiveBytes clientSock w 8)"

definition receiveOffT :: "int \<Rightarrow> world \<Rightarrow> off_t option \<times> world" where
  "receiveOffT clientSock w = map_prod (map_option dec_off_t) id (receiveBytes clientSock w 8)"

definition receiveModeT :: "int \<Rightarrow> world \<Rightarrow> mode_t option \<times> world" where
  "receiveModeT clientSock w = map_prod (map_option dec_mode_t) id (receiveBytes clientSock w 4)"

lemma receiveBytes_loop_got:
  "receiveBytes_loop fd w sz buf = (res, w') \<Longrightarrow> length buf \<le> sz \<Longrightarrow>
     (case res of Some bs \<Rightarrow> \<exists>cs. bs = buf @ cs \<and> length bs = sz \<and> got fd cs w w'
      | None \<Rightarrow> \<exists>cs. got fd cs w w' \<and> length buf + length cs < sz)"
proof (induction fd w sz buf arbitrary: res w' rule: receiveBytes_loop.induct)
  case (1 fd w sz buf)
  show ?case
  proof (cases "length buf < sz")
    case False
    with "1.prems" show ?thesis by (subst (asm) receiveBytes_loop.simps) auto
  next
    case lt: True
    obtain x w1 where x: "robustRead fd w (sz - length buf) [] = (x, w1)" by fastforce
    note g = robustRead_got [OF x]
    show ?thesis
    proof (cases x)
      case None
      with g lt obtain cs where "got fd cs w w1" "length buf + length cs < sz" by fastforce
      with "1.prems" x lt None show ?thesis by (subst (asm) receiveBytes_loop.simps) auto
    next
      case (Some bs)
      with g have gb: "got fd bs w w1" "length (buf @ bs) \<le> sz" using lt by auto
      show ?thesis
      proof (cases "bs = []")
        case True
        with "1.prems" x lt Some gb show ?thesis by (subst (asm) receiveBytes_loop.simps) auto
      next
        case False
        with "1.prems" x lt Some have r: "receiveBytes_loop fd w1 sz (buf @ bs) = (res, w')"
          by (subst (asm) receiveBytes_loop.simps) auto
        note ih = "1.IH" [OF lt x [symmetric] Some False r gb(2)]
        show ?thesis
        proof (cases res)
          case None
          with ih obtain cs where "got fd cs w1 w'" "length buf + length (bs @ cs) < sz" by auto
          with got_trans [OF gb(1), of cs w'] None show ?thesis by (auto intro: exI [of _ "bs @ cs"])
        next
          case (Some b)
          with ih obtain cs where "b = buf @ bs @ cs" "length b = sz" "got fd cs w1 w'" by auto
          with got_trans [OF gb(1), of cs w'] Some show ?thesis by auto
        qed
      qed
    qed
  qed
qed

interpretation server_reader: exact_reader receiveBytes
proof unfold_locales
  fix fd w n res w'
  assume "receiveBytes fd w n = (res, w')"
  from receiveBytes_loop_got [OF this [unfolded receiveBytes_def]]
  show "case res of Some bs \<Rightarrow> length bs = n \<and> got fd bs w w' | None \<Rightarrow> \<exists>bs. length bs < n \<and> got fd bs w w'"
    by (cases res) auto
next
  fix w :: world and fd :: int and bs r :: "byte list" and n :: nat
  assume a: "w_script w = []" "w_in w fd = bs @ r" "length bs = n" "int n < 2 ^ 63"
  have "receiveBytes_loop fd v n bs = (Some bs, v)" for v using a by (subst receiveBytes_loop.simps) simp
  moreover have "(w_in w)(fd := r) = w_in w" if "bs = []" using a that by auto
  ultimately show "receiveBytes fd w n = (Some bs, w\<lparr>w_in := (w_in w)(fd := r)\<rparr>)"
    using a robustRead_nominal [OF a(1,2), of "[]" n]
    by (cases "bs = []"; simp add: receiveBytes_def; subst receiveBytes_loop.simps; auto)
qed

section \<open>Tasks on the wire\<close>

text \<open>The field \<^verbatim>\<open>resumeOffset\<close> of the source's struct is never read or written.\<close>

record ServerSyncTask =
  ss_destPath :: string
  ss_srcPath :: string
  ss_isDirectory :: bool
  ss_mode :: mode_t
  ss_fileSize :: off_t

text \<open>A step of the conversation: it goes on with a value, the function returns false, or an exception is
  thrown.\<close>

datatype 'a received = Got 'a | Lost | Threw

definition of_opt :: "'a option \<times> world \<Rightarrow> 'a received \<times> world" where
  "of_opt r = (case r of (None, w) \<Rightarrow> (Lost, w) | (Some x, w) \<Rightarrow> (Got x, w))"

definition then_rcv :: "'a received \<times> world \<Rightarrow> ('a \<Rightarrow> world \<Rightarrow> 'b received \<times> world) \<Rightarrow> 'b received \<times> world" where
  "then_rcv r f = (case r of (Got x, w) \<Rightarrow> f x w | (Lost, w) \<Rightarrow> (Lost, w) | (Threw, w) \<Rightarrow> (Threw, w))"

text \<open>A length, a vector of one byte more, the bytes, and the string up to the first NUL.\<close>

definition receive_path :: "nat \<Rightarrow> int \<Rightarrow> world \<Rightarrow> string received \<times> world" where
  "receive_path maxvec clientSock w =
     then_rcv (of_opt (receiveSizeT clientSock w)) (\<lambda>pathLen w1.
       if pathLen > 0 then
         (if (pathLen + 1) mod 2 ^ 64 > maxvec then (Threw, w1)
          else then_rcv (of_opt (receiveBytes clientSock w1 pathLen)) (\<lambda>buffer w2. (Got (cstr buffer), w2)))
       else (Got [], w1))"

definition receive_task :: "nat \<Rightarrow> int \<Rightarrow> world \<Rightarrow> ServerSyncTask received \<times> world" where
  "receive_task maxvec clientSock w =
     then_rcv (of_opt (receiveInt clientSock w)) (\<lambda>taskType w1.
     then_rcv (receive_path maxvec clientSock w1) (\<lambda>srcPath w2.
     then_rcv (receive_path maxvec clientSock w2) (\<lambda>destPath w3.
     then_rcv (of_opt (receiveModeT clientSock w3)) (\<lambda>mode w4.
     then_rcv (if taskType = 1 then (Got 0, w4) else of_opt (receiveOffT clientSock w4)) (\<lambda>fileSize w5.
       (Got \<lparr>ss_destPath = destPath, ss_srcPath = srcPath, ss_isDirectory = (taskType = 1), ss_mode = mode,
             ss_fileSize = fileSize\<rparr>, w5))))))"

primrec receive_tasks :: "nat \<Rightarrow> nat \<Rightarrow> int \<Rightarrow> world \<Rightarrow> ServerSyncTask list received \<times> world" where
  "receive_tasks 0 maxvec clientSock w = (Got [], w)"
| "receive_tasks (Suc n) maxvec clientSock w =
     then_rcv (receive_task maxvec clientSock w) (\<lambda>task w1.
     then_rcv (receive_tasks n maxvec clientSock w1) (\<lambda>tasks w2. (Got (task # tasks), w2)))"

text \<open>The loop runs while \<open>i < taskCount\<close>, so not at all for a negative count.\<close>

definition receiveTaskMetadata :: "nat \<Rightarrow> int \<Rightarrow> world \<Rightarrow> int \<Rightarrow> ServerSyncTask list received \<times> world" where
  "receiveTaskMetadata maxvec clientSock w taskCount = receive_tasks (nat taskCount) maxvec clientSock w"

section \<open>File data\<close>

function write_all :: "fpath \<Rightarrow> world \<Rightarrow> byte list \<Rightarrow> bool \<times> world" where
  "write_all destFd w data =
     (if data = [] then (True, w)
      else case sys_write w destFd data of
        (WRet written, w1) \<Rightarrow> write_all destFd w1 (drop written data)
      | (WIntr, w1) \<Rightarrow> write_all destFd w1 data
      | (WErr, w1) \<Rightarrow> (False, w1))"
  by pat_completeness auto
termination
  by (relation "measure (\<lambda>(k, w, data). length (w_script w) + length data)")
     (auto simp: sys_write_def next_ev_def Let_def ev_count_def split: list.splits ev.splits if_splits)

declare write_all.simps [simp del]

function receive_data_loop :: "int \<Rightarrow> fpath \<Rightarrow> world \<Rightarrow> off_t \<Rightarrow> off_t \<Rightarrow> bool \<times> world" where
  "receive_data_loop clientSock destFd w fileSize received =
     (if received < fileSize then
        (case robustRead clientSock w (min 65536 (nat (fileSize - received))) [] of
           (None, w1) \<Rightarrow> (False, w1)
         | (Some buffer, w1) \<Rightarrow>
             if buffer = [] then (False, w1)
             else (case write_all destFd w1 buffer of
                     (False, w2) \<Rightarrow> (False, w2)
                   | (True, w2) \<Rightarrow> receive_data_loop clientSock destFd w2 fileSize (received + int (length buffer))))
      else (True, w))"
  by pat_completeness auto
termination
  by (relation "measure (\<lambda>(s, k, w, fileSize, received). nat (fileSize - received))") (auto simp: neq_Nil_conv)

declare receive_data_loop.simps [simp del]

definition receiveFileData :: "string \<Rightarrow> int \<Rightarrow> world \<Rightarrow> ServerSyncTask \<Rightarrow> off_t \<Rightarrow> bool \<times> world" where
  "receiveFileData baseDirectory clientSock w task resumeOffset =
     (let fullDestPath = baseDirectory @ ss_destPath task in
      case sys_open_w w fullDestPath 0x1A4 True (\<not> resumeOffset > 0) of
        (None, w1) \<Rightarrow> (False, w1)
      | (Some destFd, w1) \<Rightarrow>
          if resumeOffset > 0 \<and> int (length (old_bytes w1 destFd)) \<noteq> resumeOffset then
            (case sys_open_w w1 fullDestPath 0x1A4 True True of
               (None, w2) \<Rightarrow> (False, w2)
             | (Some destFd2, w2) \<Rightarrow> receive_data_loop clientSock destFd2 w2 (ss_fileSize task) 0)
          else receive_data_loop clientSock destFd w1 (ss_fileSize task) resumeOffset)"

definition sendAck :: "int \<Rightarrow> world \<Rightarrow> bool \<Rightarrow> bool \<times> world" where
  "sendAck clientSock w success = TcpServer_send w clientSock (if success then ''ACK'' else ''NAK'')"

section \<open>Handling a client\<close>

record SyncServer =
  sv_tcpServer :: TcpServer
  sv_threads :: nat
  sv_rpcServer :: RpcServer
  sv_baseDirectory :: string
  sv_running :: bool
  sv_processedTasks :: nat

definition SyncServer_new :: SyncServer where
  "SyncServer_new = \<lparr>sv_tcpServer = TcpServer_new, sv_threads = 0, sv_rpcServer = \<lparr>rs_baseDirectory = []\<rparr>,
     sv_baseDirectory = [], sv_running = False, sv_processedTasks = 0\<rparr>"

text \<open>One task of the sync mode; the mode of a received file is set without looking at the result.\<close>

definition handle_task :: "string \<Rightarrow> int \<Rightarrow> world \<Rightarrow> ServerSyncTask \<Rightarrow> bool \<times> world" where
  "handle_task baseDirectory clientSock w task =
     (let fullDestPath = baseDirectory @ ss_destPath task in
      case receiveOffT clientSock w of
        (None, w1) \<Rightarrow> (False, w1)
      | (Some resumeOffset, w1) \<Rightarrow>
          if ss_isDirectory task then createDirectory w1 fullDestPath (ss_mode task)
          else
            (let (ok, w2) = (case find_last_of (CHR ''/'') fullDestPath of
                               None \<Rightarrow> (True, w1)
                             | Some lastSlash \<Rightarrow> createDirectory w1 (take lastSlash fullDestPath) 0x1ED)
             in if \<not> ok then (False, w2)
                else (case receiveFileData baseDirectory clientSock w2 task resumeOffset of
                        (False, w3) \<Rightarrow> (False, w3)
                      | (True, w3) \<Rightarrow> (True, snd (setFileMode w3 fullDestPath (ss_mode task))))))"

text \<open>All tasks in order, up to the first that fails; the number is how many were completed.\<close>

fun handle_tasks :: "string \<Rightarrow> int \<Rightarrow> world \<Rightarrow> ServerSyncTask list \<Rightarrow> bool \<times> nat \<times> world" where
  "handle_tasks baseDirectory clientSock w [] = (True, 0, w)"
| "handle_tasks baseDirectory clientSock w (task # tasks) =
     (case handle_task baseDirectory clientSock w task of
        (False, w1) \<Rightarrow> (False, 0, w1)
      | (True, w1) \<Rightarrow> (let (ok, n, w2) = handle_tasks baseDirectory clientSock w1 tasks in (ok, Suc n, w2)))"

definition nak_and_close :: "int \<Rightarrow> world \<Rightarrow> world" where
  "nak_and_close clientSock w = TcpServer_closeClient (snd (sendAck clientSock w False)) clientSock"

text \<open>The sync mode, after the mode byte.\<close>

definition handle_sync :: "nat \<Rightarrow> SyncServer \<Rightarrow> int \<Rightarrow> world \<Rightarrow> bool received \<times> SyncServer \<times> world" where
  "handle_sync maxvec s clientSock w =
     (case receiveInt clientSock w of
        (None, w1) \<Rightarrow> (Got False, s, nak_and_close clientSock w1)
      | (Some taskCount, w1) \<Rightarrow>
          (case receiveTaskMetadata maxvec clientSock w1 taskCount of
             (Threw, w2) \<Rightarrow> (Threw, s, w2)
           | (Lost, w2) \<Rightarrow> (Got False, s, nak_and_close clientSock w2)
           | (Got tasks, w2) \<Rightarrow>
               (let (ok, n, w3) = handle_tasks (sv_baseDirectory s) clientSock w2 tasks;
                    s1 = s\<lparr>sv_processedTasks := sv_processedTasks s + n\<rparr>
                in if \<not> ok then (Got False, s1, nak_and_close clientSock w3)
                   else (Got True, s1, TcpServer_closeClient (snd (sendAck clientSock w3 True)) clientSock))))"

text \<open>\<^term>\<open>None\<close>: a recursive listing of the RPC mode ran out of fuel.\<close>

definition handleClient ::
    "nat \<Rightarrow> protobuf \<Rightarrow> 'c md5_api \<Rightarrow> nat \<Rightarrow> SyncServer \<Rightarrow> int \<Rightarrow> world \<Rightarrow> (bool received \<times> SyncServer \<times> world) option" where
  "handleClient fuel pb M maxvec s clientSock w =
     (case receiveBytes clientSock w 1 of
        (None, w1) \<Rightarrow> Some (Got False, s, TcpServer_closeClient w1 clientSock)
      | (Some mode, w1) \<Rightarrow>
          if mode = [CHR 0x01] then
            map_option (\<lambda>(ok, w2). (Got ok, s, w2)) (handleRpcClient fuel pb M (sv_rpcServer s) clientSock w1)
          else if mode \<noteq> [CHR 0x00] then Some (Got False, s, TcpServer_closeClient w1 clientSock)
          else Some (handle_sync maxvec s clientSock w1))"

section \<open>The server's life\<close>

definition SyncServer_setBaseDirectory :: "SyncServer \<Rightarrow> string \<Rightarrow> SyncServer" where
  "SyncServer_setBaseDirectory s baseDir = s\<lparr>sv_baseDirectory := with_slash baseDir\<rparr>"

definition SyncServer_start :: "world \<Rightarrow> SyncServer \<Rightarrow> int \<Rightarrow> nat \<Rightarrow> bool \<times> SyncServer \<times> world" where
  "SyncServer_start w s port threadCount =
     (if sv_running s then (False, s, w)
      else case TcpServer_start w TcpServer_new port of
        (False, ts, w1) \<Rightarrow> (False, s\<lparr>sv_tcpServer := ts\<rparr>, w1)
      | (True, ts, w1) \<Rightarrow>
          (True, s\<lparr>sv_tcpServer := ts, sv_threads := threadCount,
                   sv_rpcServer := RpcServer_setBaseDirectory \<lparr>rs_baseDirectory = []\<rparr> (sv_baseDirectory s),
                   sv_running := True, sv_processedTasks := 0\<rparr>, w1))"

text \<open>The set-up of the accept thread: \<open>epFd\<close> is what \<^verbatim>\<open>epoll_create1\<close> returned.\<close>

definition accept_setup :: "int \<Rightarrow> world \<Rightarrow> bool \<times> world" where
  "accept_setup epFd w =
     (if epFd < 0 then (False, w)
      else let (ok, w1) = sys_plain w in if \<not> ok then (False, sys_close w1 epFd) else (True, w1))"

text \<open>What \<^verbatim>\<open>epoll_wait\<close> returns to it: \<^verbatim>\<open>EINTR\<close>, another error, nothing within a second, or events, each a
  descriptor and whether it is readable.\<close>

datatype accept_wait = Interrupted | WaitFailed | TimedOut | Events "(int \<times> bool) list"

text \<open>One list of events: the sockets handed to the pool.\<close>

fun accept_events :: "SyncServer \<Rightarrow> world \<Rightarrow> (int \<times> bool) list \<Rightarrow> int list \<times> world" where
  "accept_events s w [] = ([], w)"
| "accept_events s w ((fd, readable) # events) =
     (if fd = TcpServer_getServerSocket (sv_tcpServer s) \<and> readable then
        (let (clientSock, w1) = TcpServer_accept w (sv_tcpServer s) in
         if clientSock < 0 then (if \<not> sv_running s then ([], w1) else accept_events s w1 events)
         else (let (socks, w2) = accept_events s w1 events in (clientSock # socks, w2)))
      else accept_events s w events)"

definition SyncServer_stop :: "world \<Rightarrow> SyncServer \<Rightarrow> SyncServer \<times> world" where
  "SyncServer_stop w s =
     (if \<not> sv_running s then (s, w)
      else (let (ts, w1) = TcpServer_stop w (sv_tcpServer s)
            in (s\<lparr>sv_tcpServer := ts, sv_running := False\<rparr>, w1)))"

definition SyncServer_isRunning :: "SyncServer \<Rightarrow> bool" where
  "SyncServer_isRunning s = sv_running s"

definition getProcessedTaskCount :: "SyncServer \<Rightarrow> nat" where
  "getProcessedTaskCount s = sv_processedTasks s"

end
