(* ===== verification/Delivery.thy ===== *)
theory Delivery
  imports SyncServer Mirror
begin

text \<open>
  What the server does to its file system while it talks to a client: every step takes a known stretch
  of the client's stream and changes known paths (\<open>serve\<close>), whatever the kernel does; without faults the
  tasks of a well-formed stream are carried out.
\<close>

section \<open>Steps of the server\<close>

definition serve :: "int \<Rightarrow> byte list \<Rightarrow> fpath set \<Rightarrow> fpath set \<Rightarrow> world \<Rightarrow> world \<Rightarrow> bool" where
  "serve fd cs K P w w' \<longleftrightarrow>
     (\<exists>r. w_in w fd = cs @ r \<and> w_in w' = (w_in w)(fd := r)) \<and> grow K P w (w'\<lparr>w_in := w_in w\<rparr>)"

lemma grow_w_in: "grow K P w w' \<Longrightarrow> grow K P (w\<lparr>w_in := a\<rparr>) (w'\<lparr>w_in := a\<rparr>)"
  by (auto simp: grow_def world_wf_def env_of_def net_of_def content_def)

lemma serve_trans:
  assumes a: "serve fd cs K P w w1" and b: "serve fd ds L Q w1 w2"
  shows "serve fd (cs @ ds) (K \<union> L) (P \<union> Q) w w2"
proof -
  from a b obtain r s where r: "w_in w fd = cs @ r" "w_in w1 = (w_in w)(fd := r)" "w_in w1 fd = ds @ s"
    "w_in w2 = (w_in w1)(fd := s)" by (auto simp: serve_def)
  have "grow L Q (w1\<lparr>w_in := w_in w\<rparr>) (w2\<lparr>w_in := w_in w\<rparr>)"
    using grow_w_in [of L Q w1 "w2\<lparr>w_in := w_in w1\<rparr>" "w_in w"] b by (simp add: serve_def)
  with a have "grow (K \<union> L) (P \<union> Q) w (w2\<lparr>w_in := w_in w\<rparr>)" by (auto simp: serve_def intro: grow_trans)
  with r show ?thesis by (auto simp: serve_def)
qed

lemma serve_trans1: "serve fd cs K P w w1 \<Longrightarrow> serve fd ds K P w1 w2 \<Longrightarrow> serve fd (cs @ ds) K P w w2"
  using serve_trans [of fd cs K P w w1 ds K P w2] by simp

lemma serve_mono: "serve fd cs K P w w' \<Longrightarrow> K \<subseteq> L \<Longrightarrow> P \<subseteq> Q \<Longrightarrow> serve fd cs L Q w w'"
  by (auto simp: serve_def intro: grow_mono)

lemma serve_refl [simp]: "serve fd [] K P w w"
  by (simp add: serve_def)

lemma got_serve: "got fd cs w w' \<Longrightarrow> serve fd cs K P w w'"
  by (auto simp: got_def serve_def grow_def world_wf_def env_of_def net_of_def content_def)

lemma grow_serve: "grow K P w w' \<Longrightarrow> serve fd [] K P w w'"
proof -
  assume g: "grow K P w w'"
  then have i: "w_in w' = w_in w" by (simp add: grow_def net_of_def)
  then have eq: "w'\<lparr>w_in := w_in w\<rparr> = w'" by (cases w') simp
  show ?thesis unfolding serve_def eq using g i by simp
qed

lemma serveD:
  assumes "serve fd cs K P w w'"
  shows "world_wf w \<Longrightarrow> world_wf w'" "env_of w' = env_of w" "w_out w' = w_out w" "w_open w' = w_open w"
    "is_dir (w_fs w) p \<Longrightarrow> is_dir (w_fs w') p" "resolve w q = Some k \<Longrightarrow> resolve w' q = Some k"
    "p \<notin> K \<Longrightarrow> content w p = Some c \<Longrightarrow> content w' p = Some c"
    "p \<notin> K \<Longrightarrow> p \<notin> P \<Longrightarrow> content w' p = content w p"
    "p \<notin> K \<Longrightarrow> content w p = None \<Longrightarrow> content w' p \<noteq> None \<Longrightarrow> is_dir (w_fs w') p"
    "w_in w fd = cs @ w_in w' fd"
proof -
  note g = growD [OF conjunct2 [OF assms [unfolded serve_def]]]
  have eq: "content (w'\<lparr>w_in := w_in w\<rparr>) p = content w' p" "resolve (w'\<lparr>w_in := w_in w\<rparr>) q = resolve w' q" for p q
    by (simp_all add: content_def resolve_def path_start_def Let_def)
  show "world_wf w \<Longrightarrow> world_wf w'" using g(1) by (simp add: world_wf_def)
  show "env_of w' = env_of w" using g(2) by (simp add: env_of_def)
  show "w_out w' = w_out w" "w_open w' = w_open w" using g(3) by (simp_all add: net_of_def)
  show "is_dir (w_fs w) p \<Longrightarrow> is_dir (w_fs w') p" using g(4) [of p] by simp
  show "resolve w q = Some k \<Longrightarrow> resolve w' q = Some k" using g(5) [of q k] eq by simp
  show "p \<notin> K \<Longrightarrow> content w p = Some c \<Longrightarrow> content w' p = Some c" using g(6) [of p c] eq by simp
  show "p \<notin> K \<Longrightarrow> p \<notin> P \<Longrightarrow> content w' p = content w p" using g(7) [of p] eq by simp
  show "p \<notin> K \<Longrightarrow> content w p = None \<Longrightarrow> content w' p \<noteq> None \<Longrightarrow> is_dir (w_fs w') p" using g(8) [of p] eq by simp
  show "w_in w fd = cs @ w_in w' fd" using assms by (auto simp: serve_def)
qed

section \<open>Writing what was received\<close>

lemma sys_write_data:
  assumes "sys_write w k bs = (r, w1)" "\<not> is_dir (w_fs w) k" "data_at w k = Some d"
  shows "file_step {k} w w1"
    "data_at w1 k = Some (case r of WRet n \<Rightarrow> d @ take n bs | _ \<Rightarrow> d)"
    "r = WRet n \<Longrightarrow> n \<le> length bs" "w_script w1 = tl (w_script w)"
proof -
  from assms(1) have w1: "w1 = snd (sys_write w k bs)" by simp
  show "file_step {k} w w1"
    unfolding w1 file_step_def
    using assms(2) by (simp add: sys_write_step) (simp add: sys_write_def next_ev_eq Let_def split: ev.splits)
qed (use assms in \<open>auto simp: sys_write_def next_ev_eq Let_def ev_count_def data_at_set_data split: ev.splits\<close>)

lemma write_all_facts:
  "write_all k w bs = (ok, w') \<Longrightarrow> world_wf w \<Longrightarrow> \<not> is_dir (w_fs w) k \<Longrightarrow> data_at w k = Some a \<Longrightarrow>
     file_step {k} w w' \<and> (\<exists>m\<le>length bs. data_at w' k = Some (a @ take m bs) \<and> (ok \<longrightarrow> m = length bs))
     \<and> (w_script w = [] \<longrightarrow> ok \<and> w_script w' = [])"
proof (induction k w bs arbitrary: ok w' a rule: write_all.induct)
  case (1 k w bs)
  show ?case
  proof (cases "bs = []")
    case True
    with "1.prems" show ?thesis by (simp add: write_all.simps)
  next
    case ne: False
    obtain x w1 where x: "sys_write w k bs = (x, w1)" by fastforce
    note d = sys_write_data [OF x "1.prems"(3,4)]
    note f = file_stepD [OF d(1) "1.prems"(2)]
    have nd: "\<not> is_dir (w_fs w1) k" using f(2) "1.prems"(3) by simp
    show ?thesis
    proof (cases x)
      case (WRet n)
      with "1.prems"(1) x ne have r: "write_all k w1 (drop n bs) = (ok, w')" by (subst (asm) write_all.simps) auto
      from "1.IH"(1) [OF ne x [symmetric, unfolded WRet] refl r f(1) nd] d(2) WRet
      obtain m where m: "file_step {k} w1 w'" "m \<le> length (drop n bs)"
        "data_at w' k = Some ((a @ take n bs) @ take m (drop n bs))" "ok \<longrightarrow> m = length (drop n bs)"
        "w_script w1 = [] \<longrightarrow> ok \<and> w_script w' = []" by auto
      have n: "n \<le> length bs" using d(3) WRet by simp
      show ?thesis
        using m n d(4) file_step_trans [OF d(1) m(1)]
        by (intro conjI exI [of _ "n + m"]) (auto simp: take_add)
    next
      case WIntr
      with "1.prems"(1) x ne have r: "write_all k w1 bs = (ok, w')" by (subst (asm) write_all.simps) auto
      have "w_script w \<noteq> []" using x WIntr by (auto simp: sys_write_def next_ev_nominal Let_def)
      with "1.IH"(2) [OF ne x [symmetric, unfolded WIntr] refl r f(1) nd] d(1,2) WIntr
      show ?thesis by (auto intro: file_step_trans)
    next
      case WErr
      have "w_script w \<noteq> []" using x WErr by (auto simp: sys_write_def next_ev_nominal Let_def)
      with "1.prems"(1) x ne WErr d show ?thesis
        by (subst (asm) write_all.simps) (auto intro: exI [of _ 0])
    qed
  qed
qed

lemma robustRead_script: "w_script w = [] \<Longrightarrow> w_script (snd (robustRead fd w n buf)) = []"
proof (induction fd w n buf rule: robustRead.induct)
  case (1 fd w n buf)
  obtain x w1 where x: "sys_recv w fd (n - length buf) = (x, w1)" by fastforce
  with "1.prems" have "\<exists>bs. x = RData bs" "w_script w1 = []" by (auto simp: sys_recv_def next_ev_nominal Let_def)
  with 1 x show ?case by (subst robustRead.simps) auto
qed

text \<open>The loop of \<^verbatim>\<open>receiveFileData\<close>, whatever the kernel does.\<close>

lemma receive_data_facts:
  "receive_data_loop fd k w sz pos = (ok, w') \<Longrightarrow> world_wf w \<Longrightarrow> \<not> is_dir (w_fs w) k \<Longrightarrow> data_at w k = Some a \<Longrightarrow>
     \<exists>cs. serve fd cs {k} {} w w' \<and> length cs \<le> nat (sz - pos)
       \<and> (\<exists>m\<le>length cs. data_at w' k = Some (a @ take m cs) \<and> (ok \<longrightarrow> m = length cs))
       \<and> (ok \<longrightarrow> length cs = nat (sz - pos))
       \<and> (w_script w = [] \<longrightarrow> w_script w' = [] \<and> (nat (sz - pos) \<le> length (w_in w fd) \<longrightarrow> ok))"
proof (induction fd k w sz pos arbitrary: ok w' a rule: receive_data_loop.induct)
  case (1 fd k w sz pos)
  show ?case
  proof (cases "pos < sz")
    case False
    with "1.prems" show ?thesis by (subst (asm) receive_data_loop.simps) (auto intro: exI [of _ "[]"])
  next
    case lt: True
    let ?n = "min 65536 (nat (sz - pos))"
    obtain x w1 where x: "robustRead fd w ?n [] = (x, w1)" by fastforce
    have nom: "x = Some (take ?n (w_in w fd))" if "w_script w = []" "nat (sz - pos) \<le> length (w_in w fd)"
      using robustRead_nominal [of w fd "take ?n (w_in w fd)" "drop ?n (w_in w fd)" "[]" ?n] x that by simp
    have s1: "w_script w1 = []" if "w_script w = []" using robustRead_script [OF that, of fd ?n "[]"] x by simp
    show ?thesis
    proof (cases "x = None \<or> x = Some []")
      case True
      then have "\<not> ok" "w' = w1" using "1.prems"(1) x lt by (subst (asm) receive_data_loop.simps, auto)+
      moreover obtain cs where cs: "got fd cs w w1" "length cs \<le> ?n"
        using robustRead_got [OF x] True by (auto split: option.splits)
      moreover have "\<not> (w_script w = [] \<and> nat (sz - pos) \<le> length (w_in w fd))"
        using nom True lt by (auto simp: min_def split: if_splits)
      moreover have "data_at w1 k = Some a" using cs(1) "1.prems"(4) by (auto simp: got_def data_at_def)
      ultimately show ?thesis using s1 got_serve [of fd cs w w1 "{k}" "{}"] by (intro exI [of _ cs]) auto
    next
      case False
      then obtain bs where bs: "x = Some bs" "bs \<noteq> []" by auto
      have g: "got fd bs w w1" "length bs \<le> ?n" using robustRead_got [OF x] bs by auto
      have w1: "world_wf w1" "\<not> is_dir (w_fs w1) k" "data_at w1 k = Some a" "w_in w fd = bs @ w_in w1 fd"
        using g(1) "1.prems"(2-4) by (auto simp: got_def data_at_def world_wf_def)
      obtain b w2 where b: "write_all k w1 bs = (b, w2)" by fastforce
      note wr = write_all_facts [OF b w1(1-3)]
      then have fs: "file_step {k} w1 w2" by blast
      have s2: "serve fd bs {k} {} w w2"
        using serve_trans1 [OF got_serve [OF g(1)] grow_serve [OF grow_file_step [OF fs w1(1)]]] by simp
      show ?thesis
      proof (cases b)
        case False
        then have "\<not> ok" "w' = w2" using "1.prems"(1) x lt bs b by (subst (asm) receive_data_loop.simps, auto)+
        with s2 g(2) wr s1 False show ?thesis by (intro exI [of _ bs]) auto
      next
        case True
        with "1.prems"(1) x lt bs b have r: "receive_data_loop fd k w2 sz (pos + int (length bs)) = (ok, w')"
          by (subst (asm) receive_data_loop.simps) auto
        note f2 = file_stepD [OF fs w1(1)]
        have nd: "\<not> is_dir (w_fs w2) k" "data_at w2 k = Some (a @ bs)" using f2(2) w1(2) wr True by auto
        have i2: "w_in w2 fd = w_in w1 fd" using f2(5) by (simp add: net_of_def)
        from "1.IH" [OF lt x [symmetric] bs(1) bs(2) b [symmetric] eqTrueI [OF True] r f2(1) nd]
        obtain cs where cs: "serve fd cs {k} {} w2 w'" "length cs \<le> nat (sz - (pos + int (length bs)))"
          "\<exists>m\<le>length cs. data_at w' k = Some ((a @ bs) @ take m cs) \<and> (ok \<longrightarrow> m = length cs)"
          "ok \<longrightarrow> length cs = nat (sz - (pos + int (length bs)))"
          "w_script w2 = [] \<longrightarrow> w_script w' = [] \<and> (nat (sz - (pos + int (length bs))) \<le> length (w_in w2 fd) \<longrightarrow> ok)"
          by blast
        from cs(3) obtain m where m: "m \<le> length cs" "data_at w' k = Some ((a @ bs) @ take m cs)" "ok \<longrightarrow> m = length cs" by blast
        have len: "nat (sz - (pos + int (length bs))) + length bs = nat (sz - pos)" using g(2) lt by auto
        show ?thesis
          using serve_trans1 [OF s2 cs(1)] cs(2,4,5) m len s1 wr i2 w1(4)
          by (intro exI [of _ "bs @ cs"] conjI exI [of _ "length bs + m"]) auto
      qed
    qed
  qed
qed

text \<open>The offset the transfer really starts from: a resume offset that does not match the file is dropped.\<close>

definition start_offset :: "world \<Rightarrow> fpath \<Rightarrow> off_t \<Rightarrow> off_t" where
  "start_offset w k off = (if off > 0 \<and> int (length (old_bytes w k)) \<noteq> off then 0 else off)"

lemma sys_open_w_file:
  assumes "sys_open_w w p 0x1A4 True trunc = (h, w1)" "world_wf w" "resolve w p = Some k" "\<not> is_dir (w_fs w) k"
  shows "file_step {k} w w1" "h = None \<or> h = Some k"
    "h = Some k \<Longrightarrow> data_at w1 k = Some (if trunc then [] else old_bytes w k) \<and> \<not> is_dir (w_fs w1) k"
proof -
  have "fs_step {k} w w1" using sys_open_w_step [of w p "0x1A4" True trunc] assms(1,3) by auto
  moreover have "is_dir (w_fs w1) = is_dir (w_fs w)"
    using sys_open_w_is_dir [of "0x1A4" w p True trunc] assms(1) by simp
  ultimately show "file_step {k} w w1" by (simp add: file_step_def)
  show h: "h = None \<or> h = Some k" using sys_open_w_data [of w p "0x1A4" True trunc _ w1] assms(1,3) by (cases h) auto
  show "data_at w1 k = Some (if trunc then [] else old_bytes w k) \<and> \<not> is_dir (w_fs w1) k" if "h = Some k"
    using sys_open_w_data [of w p "0x1A4" True trunc k w1] sys_open_w_not_dir [of "0x1A4" w p True trunc k w1] assms(1) that
    by (auto simp: old_bytes_def split: option.splits)
qed

lemma receiveFileData_facts:
  assumes r: "receiveFileData base fd w t off = (ok, w')"
    and k: "world_wf w" "resolve w (base @ ss_destPath t) = Some k" "\<not> is_dir (w_fs w) k"
  shows "\<exists>cs. serve fd cs {k} {} w w'
    \<and> (ok \<longrightarrow> length cs = nat (ss_fileSize t - start_offset w k off)
        \<and> data_at w' k = Some ((if start_offset w k off > 0 then old_bytes w k else []) @ cs))
    \<and> (w_script w = [] \<longrightarrow> w_script w' = [] \<and> (nat (ss_fileSize t - start_offset w k off) \<le> length (w_in w fd) \<longrightarrow> ok))"
proof -
  let ?p = "base @ ss_destPath t"
  have use: ?thesis if o: "file_step {k} w v" "data_at v k = Some a" "\<not> is_dir (w_fs v) k"
    and l: "receive_data_loop fd k v (ss_fileSize t) (start_offset w k off) = (ok, w')"
    and a: "a = (if start_offset w k off > 0 then old_bytes w k else [])" and sc: "w_script w = [] \<longrightarrow> w_script v = []" for v a
  proof -
    note f = file_stepD [OF o(1) k(1)]
    from receive_data_facts [OF l f(1) o(3,2)] obtain cs m where cs: "serve fd cs {k} {} v w'"
      "m \<le> length cs" "data_at w' k = Some (a @ take m cs)" "ok \<longrightarrow> m = length cs"
      "ok \<longrightarrow> length cs = nat (ss_fileSize t - start_offset w k off)"
      "w_script v = [] \<longrightarrow> w_script w' = [] \<and> (nat (ss_fileSize t - start_offset w k off) \<le> length (w_in v fd) \<longrightarrow> ok)" by blast
    have "serve fd cs {k} {} w w'"
      using serve_trans1 [OF grow_serve [OF grow_file_step [OF o(1) k(1)]] cs(1)] by simp
    moreover have "w_in v = w_in w" using f(5) by (simp add: net_of_def)
    ultimately show ?thesis using cs(2-6) sc a by (intro exI [of _ cs]) auto
  qed
  have fail: ?thesis if "file_step {k} w w'" "\<not> ok" "w_script w \<noteq> []"
    using grow_serve [OF grow_file_step [OF that(1) k(1)], of fd] that(2,3) by (intro exI [of _ "[]"]) auto
  obtain h w1 where o: "sys_open_w w ?p 0x1A4 True (\<not> off > 0) = (h, w1)" by fastforce
  note of = sys_open_w_file [OF o k]
  note f1 = file_stepD [OF of(1) k(1)]
  have sc: "w_script w = [] \<Longrightarrow> h = Some k \<and> w_script w1 = []"
    using sys_open_w_nominal [of w ?p k "0x1A4" "\<not> off > 0"] k(2,3) o by auto
  show ?thesis
  proof (cases h)
    case None
    with r o have "\<not> ok" "w' = w1" by (auto simp: receiveFileData_def Let_def)
    with fail of(1) sc None show ?thesis by auto
  next
    case (Some k')
    with of(2) have h: "h = Some k" by simp
    note d = of(3) [OF h]
    have ob: "off > 0 \<Longrightarrow> old_bytes w1 k = old_bytes w k" using d by (simp add: old_bytes_def)
    show ?thesis
    proof (cases "off > 0 \<and> int (length (old_bytes w1 k)) \<noteq> off")
      case False
      then have "start_offset w k off = off" using ob by (auto simp: start_offset_def)
      with False r o h have "receive_data_loop fd k w1 (ss_fileSize t) (start_offset w k off) = (ok, w')"
        by (auto simp: receiveFileData_def Let_def)
      with use [OF of(1) conjunct1 [OF d] conjunct2 [OF d]] sc \<open>start_offset w k off = off\<close> show ?thesis by auto
    next
      case True
      then have so: "start_offset w k off = 0" using ob by (auto simp: start_offset_def)
      obtain h2 w2 where o2: "sys_open_w w1 ?p 0x1A4 True True = (h2, w2)" by fastforce
      have k2: "resolve w1 ?p = Some k" using f1(3) k(2) by simp
      note of2 = sys_open_w_file [OF o2 f1(1) k2 conjunct2 [OF d]]
      have fs2: "file_step {k} w w2" using file_step_trans [OF of(1) of2(1)] .
      have sc2: "w_script w1 = [] \<Longrightarrow> h2 = Some k \<and> w_script w2 = []"
        using sys_open_w_nominal [of w1 ?p k "0x1A4" True] k2 d o2 by auto
      show ?thesis
      proof (cases h2)
        case None
        with True r o h o2 have "\<not> ok" "w' = w2" by (auto simp: receiveFileData_def Let_def)
        with fail fs2 sc sc2 None show ?thesis by auto
      next
        case (Some k2')
        with of2(2) have h2: "h2 = Some k" by simp
        note d2 = of2(3) [OF h2]
        from True r o h o2 h2 so have "receive_data_loop fd k w2 (ss_fileSize t) (start_offset w k off) = (ok, w')"
          by (auto simp: receiveFileData_def Let_def)
        with use [OF fs2 conjunct1 [OF d2] conjunct2 [OF d2]] sc sc2 so show ?thesis by auto
      qed
    qed
  qed
qed

lemma receive_data_not_dir:
  "receive_data_loop fd k w sz pos = (ok, w') \<Longrightarrow> is_dir (w_fs w') = is_dir (w_fs w)"
proof (induction fd k w sz pos arbitrary: ok w' rule: receive_data_loop.induct)
  case (1 fd k w sz pos)
  obtain x w1 where x: "robustRead fd w (min 65536 (nat (sz - pos))) [] = (x, w1)" by fastforce
  have w1: "w_fs w1 = w_fs w" using robustRead_got [OF x] by (auto simp: got_def split: option.splits)
  have wr: "is_dir (w_fs v') = is_dir (w_fs v)" if "write_all k v bs = (b, v')" for v bs b v'
    using that
  proof (induction k v bs arbitrary: b v' rule: write_all.induct)
    case (1 k v bs)
    obtain y v1 where y: "sys_write v k bs = (y, v1)" by fastforce
    then have "is_dir (w_fs v1) = is_dir (w_fs v)" by (auto simp: sys_write_def next_ev_eq Let_def split: ev.splits)
    with 1 y show ?case by (cases "bs = []"; cases y) (auto simp: write_all.simps [of k v])
  qed
  show ?case
  proof (cases "x = None \<or> x = Some [] \<or> \<not> pos < sz")
    case True
    with "1.prems" x w1 show ?thesis by (subst (asm) receive_data_loop.simps) (auto split: if_splits)
  next
    case False
    then obtain bs where bs: "x = Some bs" "bs \<noteq> []" "pos < sz" by auto
    obtain b w2 where b: "write_all k w1 bs = (b, w2)" by fastforce
    show ?thesis
    proof (cases b)
      case True
      with "1.prems" x bs b have "receive_data_loop fd k w2 sz (pos + int (length bs)) = (ok, w')"
        by (subst (asm) receive_data_loop.simps) auto
      from "1.IH" [OF bs(3) x [symmetric] bs(1,2) b [symmetric] eqTrueI [OF True] this] wr [OF b] w1 show ?thesis by simp
    next
      case False
      with "1.prems" x bs b wr [OF b] w1 show ?thesis by (subst (asm) receive_data_loop.simps) auto
    qed
  qed
qed

lemma receiveFileData_not_dir:
  assumes "receiveFileData base fd w t off = (ok, w')"
  shows "is_dir (w_fs w') = is_dir (w_fs w)"
  using assms receive_data_not_dir sys_open_w_is_dir [of "0x1A4" _ "base @ ss_destPath t" True]
  by (auto simp: receiveFileData_def Let_def split: prod.splits option.splits if_splits) (metis creat_perms(2) snd_conv)+

section \<open>Task metadata on the wire\<close>

definition enc_path :: "string \<Rightarrow> byte list" where
  "enc_path p = enc_size_t (length p) @ p"

definition enc_task :: "ServerSyncTask \<Rightarrow> byte list" where
  "enc_task t = enc_int (if ss_isDirectory t then 1 else 0) @ enc_path (ss_srcPath t) @ enc_path (ss_destPath t)
     @ enc_mode_t (ss_mode t) @ (if ss_isDirectory t then [] else enc_off_t (ss_fileSize t))"

definition path_sendable :: "nat \<Rightarrow> string \<Rightarrow> bool" where
  "path_sendable maxvec p \<longleftrightarrow> list_all (\<lambda>c. c \<noteq> CHR 0x00) p \<and> length p < maxvec"

definition sendable :: "nat \<Rightarrow> ServerSyncTask \<Rightarrow> bool" where
  "sendable maxvec t \<longleftrightarrow> path_sendable maxvec (ss_srcPath t) \<and> path_sendable maxvec (ss_destPath t)
     \<and> (if ss_isDirectory t then ss_fileSize t = 0 else - (2 ^ 63) \<le> ss_fileSize t \<and> ss_fileSize t < 2 ^ 63)"

text \<open>The world with \<open>bs\<close> left to read on \<open>fd\<close>.\<close>

definition feed :: "world \<Rightarrow> int \<Rightarrow> byte list \<Rightarrow> world" where
  "feed w fd bs = w\<lparr>w_in := (w_in w)(fd := bs)\<rparr>"

lemma feed_simps [simp]:
  "w_script (feed w fd bs) = w_script w" "w_in (feed w fd bs) = (w_in w)(fd := bs)" "w_out (feed w fd bs) = w_out w"
  "w_open (feed w fd bs) = w_open w" "w_fs (feed w fd bs) = w_fs w" "feed (feed w fd as) fd bs = feed w fd bs"
  "env_of (feed w fd bs) = env_of w"
  by (simp_all add: feed_def env_of_def)

lemma feed_same: "w_in w fd = bs \<Longrightarrow> feed w fd bs = w"
  by (auto simp: feed_def)

lemma receiveBytes_feed:
  "w_script w = [] \<Longrightarrow> w_in w fd = bs @ r \<Longrightarrow> length bs = n \<Longrightarrow> int n < 2 ^ 63 \<Longrightarrow> receiveBytes fd w n = (Some bs, feed w fd r)"
  unfolding feed_def by (rule server_reader.rd_nominal)

lemma then_rcv_Got [simp]: "then_rcv (Got x, w) f = f x w"
  by (simp add: then_rcv_def)

lemma of_opt_simps [simp]: "of_opt (Some x, w) = (Got x, w)" "of_opt (None, w) = (Lost, w)"
  by (simp_all add: of_opt_def)

lemma receive_scalar:
  assumes "w_script w = []" "w_in w fd = bs @ r"
  shows "length bs = 4 \<Longrightarrow> receiveInt fd w = (Some (dec_int bs), feed w fd r)"
    "length bs = 4 \<Longrightarrow> receiveModeT fd w = (Some (dec_mode_t bs), feed w fd r)"
    "length bs = 8 \<Longrightarrow> receiveSizeT fd w = (Some (dec_size_t bs), feed w fd r)"
    "length bs = 8 \<Longrightarrow> receiveOffT fd w = (Some (dec_off_t bs), feed w fd r)"
  using receiveBytes_feed [OF assms]
  by (simp_all add: receiveInt_def receiveModeT_def receiveSizeT_def receiveOffT_def)

lemma receive_path_enc:
  assumes "w_script w = []" "w_in w fd = enc_path p @ r" "path_sendable maxvec p" "int maxvec < 2 ^ 63"
  shows "receive_path maxvec fd w = (Got p, feed w fd r)"
proof -
  have len: "length p < 2 ^ 63" using assms(3,4) by (simp add: path_sendable_def)
  have c: "cstr p = p" using assms(3) by (intro cstr_id) (auto simp: path_sendable_def list_all_iff)
  have 1: "receiveSizeT fd w = (Some (length p), feed w fd (p @ r))"
    using receive_scalar(3) [OF assms(1), of fd "enc_size_t (length p)" "p @ r"] assms(2) len
    by (simp add: enc_path_def dec_enc_size_t)
  have 2: "receiveBytes fd (feed w fd (p @ r)) (length p) = (Some p, feed w fd r)"
    using receiveBytes_feed [of "feed w fd (p @ r)" fd p r "length p"] assms(1) len by simp
  show ?thesis
  proof (cases "p = []")
    case True
    then show ?thesis using 1 by (simp add: receive_path_def)
  next
    case False
    then show ?thesis using 1 2 c len assms(3) by (simp add: receive_path_def path_sendable_def)
  qed
qed

lemma receive_task_enc:
  assumes "w_script w = []" "w_in w fd = enc_task t @ r" "sendable maxvec t" "int maxvec < 2 ^ 63"
  shows "receive_task maxvec fd w = (Got t, feed w fd r)"
proof -
  let ?s = "if ss_isDirectory t then [] else enc_off_t (ss_fileSize t)"
  let ?m = "enc_mode_t (ss_mode t) @ ?s @ r"
  have ps: "path_sendable maxvec (ss_srcPath t)" "path_sendable maxvec (ss_destPath t)"
    using assms(3) by (simp_all add: sendable_def)
  have 1: "receiveInt fd w = (Some (if ss_isDirectory t then 1 else 0), feed w fd (enc_path (ss_srcPath t) @ enc_path (ss_destPath t) @ ?m))"
    using receive_scalar(1) [OF assms(1), of fd "enc_int (if ss_isDirectory t then 1 else 0)"] assms(2)
    by (simp add: enc_task_def dec_enc_int)
  have 2: "receive_path maxvec fd (feed w fd (enc_path (ss_srcPath t) @ enc_path (ss_destPath t) @ ?m)) =
      (Got (ss_srcPath t), feed w fd (enc_path (ss_destPath t) @ ?m))"
    using receive_path_enc [of "feed w fd (enc_path (ss_srcPath t) @ enc_path (ss_destPath t) @ ?m)" fd, OF _ _ ps(1) assms(4)] assms(1)
    by simp
  have 3: "receive_path maxvec fd (feed w fd (enc_path (ss_destPath t) @ ?m)) = (Got (ss_destPath t), feed w fd ?m)"
    using receive_path_enc [of "feed w fd (enc_path (ss_destPath t) @ ?m)" fd, OF _ _ ps(2) assms(4)] assms(1) by simp
  have 4: "receiveModeT fd (feed w fd ?m) = (Some (ss_mode t), feed w fd (?s @ r))"
    using receive_scalar(2) [of "feed w fd ?m" fd "enc_mode_t (ss_mode t)" "?s @ r"] assms(1) by simp
  have 5: "\<not> ss_isDirectory t \<Longrightarrow> receiveOffT fd (feed w fd (?s @ r)) = (Some (ss_fileSize t), feed w fd r)"
    using receive_scalar(4) [of "feed w fd (?s @ r)" fd ?s r] assms(1,3) by (simp add: dec_enc_off_t sendable_def)
  have eq: "\<lparr>ss_destPath = ss_destPath t, ss_srcPath = ss_srcPath t, ss_isDirectory = ss_isDirectory t, ss_mode = ss_mode t,
      ss_fileSize = ss_fileSize t\<rparr> = t" by (cases t) simp
  show ?thesis
    using assms(3) 1 2 3 4 5 eq by (cases "ss_isDirectory t") (simp_all add: receive_task_def sendable_def)
qed

lemma receive_tasks_enc:
  assumes "w_script w = []" "w_in w fd = concat (map enc_task ts) @ r" "list_all (sendable maxvec) ts" "int maxvec < 2 ^ 63"
  shows "receive_tasks (length ts) maxvec fd w = (Got ts, feed w fd r)"
  using assms
proof (induction ts arbitrary: w)
  case Nil
  then show ?case by (simp add: feed_same)
next
  case (Cons t ts)
  have "receive_task maxvec fd w = (Got t, feed w fd (concat (map enc_task ts) @ r))"
    using Cons.prems by (intro receive_task_enc) simp_all
  with Cons.IH [of "feed w fd (concat (map enc_task ts) @ r)"] Cons.prems show ?case by simp
qed

section \<open>Carrying out the tasks\<close>

lemma feed_frame [simp]:
  "world_wf (feed w fd bs) = world_wf w" "content (feed w fd bs) = content w" "path_start (feed w fd bs) p = path_start w p"
  "path_key (feed w fd bs) p = path_key w p" "path_prefixes (feed w fd bs) p = path_prefixes w p"
  "path_free (feed w fd bs) p = path_free w p" "resolve (feed w fd bs) p = resolve w p"
  by (simp_all add: feed_def world_wf_def content_def fun_eq_iff path_start_def path_key_def path_prefixes_def path_free_def
      resolve_def Let_def)

lemma got_feed: "w_in w fd = bs @ r \<Longrightarrow> got fd bs w (feed w fd r)"
  unfolding got_def feed_def by (intro exI [of _ "w_script w"] exI [of _ r]) simp

lemma receive_offset:
  assumes "w_script w = []" "w_in w fd = enc_off_t off @ r" "- (2 ^ 63) \<le> off" "off < 2 ^ 63"
  shows "receiveOffT fd w = (Some off, feed w fd r)"
  using receive_scalar(4) [OF assms(1,2)] assms(3,4) by (simp add: dec_enc_off_t)

lemma handle_task_dir:
  assumes wf: "world_wf w" and s: "w_script w = []" and i: "w_in w fd = enc_off_t 0 @ r"
    and t: "ss_isDirectory t" and p: "p = base @ ss_destPath t" "plain_path p" "path_free w p"
  shows "\<exists>w'. handle_task base fd w t = (True, w') \<and> w_script w' = []
    \<and> serve fd (enc_off_t 0) {} (path_prefixes w p) w w' \<and> is_dir (w_fs w') (path_key w p)"
proof -
  let ?w1 = "feed w fd r"
  obtain w' where w': "createDirectory ?w1 p (ss_mode t) = (True, w')" "w_script w' = []" "is_dir (w_fs w') (path_key w p)"
    using createDirectory_total [of ?w1 p "ss_mode t"] wf s p by auto
  have "serve fd [] {} (path_prefixes w p) ?w1 w'"
    using grow_serve [OF grow_createDirectory [OF p(2), of ?w1 "ss_mode t"]] w'(1) by simp
  with serve_trans1 [OF got_serve [OF got_feed [OF i]] this] w' t p(1) receive_offset [OF s i] show ?thesis
    by (simp add: handle_task_def Let_def)
qed

text \<open>A file from its start, or the rest of one whose first part is already there.\<close>

lemma receive_and_chmod:
  assumes wf: "world_wf w" and s: "w_script w = []" and i: "w_in w fd = d @ r"
    and k: "resolve w (base @ ss_destPath t) = Some k" "\<not> is_dir (w_fs w) k" and t: "ss_fileSize t = off + int (length d)"
    and a: "off = 0 \<and> a = [] \<or> 0 < off \<and> data_at w k = Some a" "off = int (length a)"
  shows "\<exists>w1 w' m. receiveFileData base fd w t off = (True, w1) \<and> setFileMode w1 (base @ ss_destPath t) (ss_mode t) = (True, w')
    \<and> w_script w' = [] \<and> serve fd d {k} {} w w'
    \<and> content w' k = Some (m, a @ d) \<and> \<not> S_ISDIR m \<and> perm_bits m = perm_bits (ss_mode t)"
proof -
  have so: "start_offset w k off = off" "(if off > 0 then old_bytes w k else []) = a"
    using a by (auto simp: start_offset_def old_bytes_def data_at_content)
  obtain ok w1 where w1: "receiveFileData base fd w t off = (ok, w1)" by fastforce
  from receiveFileData_facts [OF w1 wf k, unfolded so] obtain cs where cs: "serve fd cs {k} {} w w1" "ok" "length cs = length d"
      "data_at w1 k = Some (a @ cs)" "w_script w1 = []"
    using s i t by auto
  have "cs = d" using serveD(10) [OF cs(1)] i cs(3) by simp
  with cs(4) obtain m where m: "content w1 k = Some (m, a @ d)" by (auto simp: data_at_content)
  have dm: "\<not> S_ISDIR m"
  proof
    assume "S_ISDIR m"
    then have "is_dir (w_fs w1) k" using m by (simp add: is_dir_content)
    with receiveFileData_not_dir [OF w1] k(2) show False by simp
  qed
  have wf1: "world_wf w1" using serveD(1) [OF cs(1)] wf by simp
  have rk1: "resolve w1 (base @ ss_destPath t) = Some k" using serveD(6) [OF cs(1)] k(1) by simp
  obtain w' where w': "setFileMode w1 (base @ ss_destPath t) (ss_mode t) = (True, w')" "w_script w' = []" "file_step {k} w1 w'"
      "content w' k = Some (chmod_result m (ss_mode t), a @ d)"
    using setFileMode_nominal [OF cs(5) rk1 m wf1] by blast
  have "serve fd d {k} {} w w'"
    using serve_trans1 [OF cs(1) grow_serve [OF grow_file_step [OF w'(3) wf1]]] \<open>cs = d\<close> by simp
  with w1 cs(2) w' dm show ?thesis by auto
qed

lemma handle_task_data:
  assumes wf: "world_wf w" and s: "w_script w = []" and i: "w_in w fd = enc_off_t off @ d @ r"
    and t: "\<not> ss_isDirectory t" "ss_fileSize t = off + int (length d)"
    and p: "base @ ss_destPath t = q @ ''/'' @ n" "plain_path q" "path_free w q" "valid_name n"
    and k: "k = path_key w q @ [n]" "\<not> is_dir (w_fs w) k"
    and a: "off = 0 \<and> a = [] \<or> 0 < off \<and> data_at w k = Some a" "off = int (length a)" "off < 2 ^ 63"
  shows "\<exists>w' m. handle_task base fd w t = (True, w') \<and> w_script w' = []
    \<and> serve fd (enc_off_t off @ d) {k} (path_prefixes w q) w w'
    \<and> content w' k = Some (m, a @ d) \<and> \<not> S_ISDIR m \<and> perm_bits m = perm_bits (ss_mode t)"
proof -
  let ?w1 = "feed w fd (d @ r)"
  have fl: "find_last_of (CHR ''/'') (q @ ''/'' @ n) = Some (length q)"
    using find_last_of_slash p(4) by (simp add: valid_name_def)
  have ro: "receiveOffT fd w = (Some off, ?w1)" using receive_offset [OF s i] a(2,3) by simp
  obtain w2 where w2: "createDirectory ?w1 q 0x1ED = (True, w2)" "w_script w2 = []"
      "resolve w2 q = Some (path_key w q)" "is_dir (w_fs w2) (path_key w q)"
    using createDirectory_total [of ?w1 q "0x1ED"] wf s p by auto
  have g2: "grow {} (path_prefixes w q) ?w1 w2" using grow_createDirectory [OF p(2), of ?w1 "0x1ED"] w2(1) by simp
  have s2: "serve fd (enc_off_t off) {} (path_prefixes w q) w w2"
    using serve_trans1 [OF got_serve [OF got_feed [OF i]] grow_serve [OF g2]] by simp
  have wf2: "world_wf w2" using growD(1) [OF g2] wf by simp
  have nul: "CHR 0x00 \<notin> set q" using p(2) by (simp add: plain_path_def)
  have rk: "resolve w2 (base @ ss_destPath t) = Some k"
    using resolve_child [of w2 q "path_key w q" n] w2(3,4) nul p(1,4) k(1) by (simp add: dir_at_def)
  have "k \<notin> path_prefixes w q" using path_prefixes_length [of k w q] k(1) by auto
  then have ck: "content w2 k = content w k" using growD(7) [OF g2, of k] by simp
  then have nd: "\<not> is_dir (w_fs w2) k" "data_at w2 k = data_at w k" using k(2) by (simp_all add: is_dir_content data_at_content)
  have i2: "w_in w2 fd = d @ r" using serveD(10) [OF s2] i by simp
  from receive_and_chmod [OF wf2 w2(2) i2 rk nd(1) t(2), of a] a(1,2) nd(2) obtain w3 w4 m where
    r: "receiveFileData base fd w2 t off = (True, w3)" "setFileMode w3 (base @ ss_destPath t) (ss_mode t) = (True, w4)"
      "w_script w4 = []" "serve fd d {k} {} w2 w4"
      "content w4 k = Some (m, a @ d) \<and> \<not> S_ISDIR m \<and> perm_bits m = perm_bits (ss_mode t)" by auto
  have "serve fd (enc_off_t off @ d) {k} (path_prefixes w q) w w4" using serve_trans [OF s2 r(4)] by simp
  moreover have "handle_task base fd w t = (True, w4)"
    using t ro fl p(1) w2(1) r(1,2) by (simp add: handle_task_def Let_def)
  ultimately show ?thesis using r(3,5) by auto
qed

lemma handle_task_file:
  assumes "world_wf w" "w_script w = []" "w_in w fd = enc_off_t 0 @ d @ r"
    and "\<not> ss_isDirectory t" "ss_fileSize t = int (length d)"
    and "base @ ss_destPath t = q @ ''/'' @ n" "plain_path q" "path_free w q" "valid_name n"
    and "k = path_key w q @ [n]" "\<not> is_dir (w_fs w) k"
  shows "\<exists>w' m. handle_task base fd w t = (True, w') \<and> w_script w' = []
    \<and> serve fd (enc_off_t 0 @ d) {k} (path_prefixes w q) w w'
    \<and> content w' k = Some (m, d) \<and> \<not> S_ISDIR m \<and> perm_bits m = perm_bits (ss_mode t)"
  using handle_task_data [of w fd 0 d r t base q n k "[]"] assms by simp

section \<open>A whole list of tasks\<close>

text \<open>An item is a task with the data of its file.  \<open>parent_path\<close> is what the server creates before it opens
  the file; \<open>dir_key\<close> is the directory a task needs, \<open>item_key\<close> the entry it makes.\<close>

type_synonym item = "ServerSyncTask \<times> byte list"

definition parent_path :: "string \<Rightarrow> string" where
  "parent_path p = (case find_last_of (CHR ''/'') p of None \<Rightarrow> [] | Some i \<Rightarrow> take i p)"

definition base_name :: "string \<Rightarrow> string" where
  "base_name p = (case find_last_of (CHR ''/'') p of None \<Rightarrow> p | Some i \<Rightarrow> drop (Suc i) p)"

definition dir_path :: "string \<Rightarrow> ServerSyncTask \<Rightarrow> string" where
  "dir_path base t = (if ss_isDirectory t then base @ ss_destPath t else parent_path (base @ ss_destPath t))"

definition dir_key :: "world \<Rightarrow> string \<Rightarrow> item \<Rightarrow> fpath" where
  "dir_key w base it = path_key w (dir_path base (fst it))"

definition item_key :: "world \<Rightarrow> string \<Rightarrow> item \<Rightarrow> fpath" where
  "item_key w base it = (if ss_isDirectory (fst it) then dir_key w base it
     else dir_key w base it @ [base_name (base @ ss_destPath (fst it))])"

definition item_ok :: "world \<Rightarrow> string \<Rightarrow> item \<Rightarrow> bool" where
  "item_ok w base it \<longleftrightarrow> plain_path (dir_path base (fst it)) \<and> path_free w (dir_path base (fst it))
     \<and> (\<not> ss_isDirectory (fst it) \<longrightarrow> CHR ''/'' \<in> set (base @ ss_destPath (fst it))
          \<and> valid_name (base_name (base @ ss_destPath (fst it))) \<and> \<not> is_dir (w_fs w) (item_key w base it)
          \<and> ss_fileSize (fst it) = int (length (snd it)))"

text \<open>No file of the list is in the way of a directory or of another file.\<close>

definition apart_items :: "world \<Rightarrow> string \<Rightarrow> item \<Rightarrow> item \<Rightarrow> bool" where
  "apart_items w base a b \<longleftrightarrow> (\<not> ss_isDirectory (fst a) \<longrightarrow> \<not> is_prefix (item_key w base a) (dir_key w base b)
     \<and> item_key w base a \<noteq> item_key w base b)"

fun compatible :: "world \<Rightarrow> string \<Rightarrow> item list \<Rightarrow> bool" where
  "compatible w base [] = True"
| "compatible w base (a # its) =
     (list_all (\<lambda>b. apart_items w base a b \<and> apart_items w base b a) its \<and> compatible w base its)"

definition item_body :: "item \<Rightarrow> byte list" where
  "item_body it = enc_off_t 0 @ (if ss_isDirectory (fst it) then [] else snd it)"

definition delivered :: "world \<Rightarrow> string \<Rightarrow> world \<Rightarrow> item \<Rightarrow> bool" where
  "delivered v base w it = (if ss_isDirectory (fst it) then is_dir (w_fs w) (item_key v base it)
     else (\<exists>m. content w (item_key v base it) = Some (m, snd it) \<and> \<not> S_ISDIR m \<and> perm_bits m = perm_bits (ss_mode (fst it))))"

lemma parent_base:
  assumes "CHR ''/'' \<in> set p"
  shows "p = parent_path p @ ''/'' @ base_name p"
proof -
  from assms obtain i where i: "find_last_of (CHR ''/'') p = Some i"
    using find_last_of_None [of "CHR ''/''" p] by (cases "find_last_of (CHR ''/'') p") auto
  from find_last_of_Some(2) [OF i] i show ?thesis by (simp add: parent_path_def base_name_def)
qed

lemma keys_env:
  assumes "env_of w' = env_of w"
  shows "dir_key w' base it = dir_key w base it" "item_key w' base it = item_key w base it"
    "apart_items w' base a b = apart_items w base a b"
  using assms by (simp_all add: dir_key_def item_key_def apart_items_def path_key_def path_start_def env_of_def)

lemma compatible_env:
  assumes "env_of w' = env_of w"
  shows "compatible w' base its = compatible w base its"
  by (induction its) (simp_all add: keys_env(3) [OF assms])

text \<open>The file a task writes: none for a directory.\<close>

definition file_keys :: "world \<Rightarrow> string \<Rightarrow> item \<Rightarrow> fpath set" where
  "file_keys w base it = (if ss_isDirectory (fst it) then {} else {item_key w base it})"

lemma handle_item:
  assumes wf: "world_wf w" and s: "w_script w = []" and i: "w_in w fd = item_body it @ r" and ok: "item_ok w base it"
  shows "\<exists>w'. handle_task base fd w (fst it) = (True, w') \<and> w_script w' = []
    \<and> serve fd (item_body it) (file_keys w base it) (path_prefixes w (dir_path base (fst it))) w w' \<and> delivered w base w' it"
proof (cases "ss_isDirectory (fst it)")
  case True
  with handle_task_dir [OF wf s, of fd r "fst it" "base @ ss_destPath (fst it)" base] i ok show ?thesis
    by (auto simp: item_body_def item_ok_def dir_path_def file_keys_def delivered_def item_key_def dir_key_def)
next
  case False
  let ?p = "base @ ss_destPath (fst it)"
  have p: "?p = parent_path ?p @ ''/'' @ base_name ?p" using ok False by (intro parent_base) (simp add: item_ok_def)
  have k: "item_key w base it = path_key w (parent_path ?p) @ [base_name ?p]"
    using False by (simp add: item_key_def dir_key_def dir_path_def)
  show ?thesis
    using handle_task_file [OF wf s _ False _ p _ _ _ k, of fd "snd it" r] ok False i
    by (auto simp: item_body_def item_ok_def dir_path_def file_keys_def delivered_def)
qed

lemma is_prefix_take: "is_prefix k p \<longleftrightarrow> (\<exists>i. k = take i p)"
  unfolding is_prefix_def by (metis length_take take_take min.idem min.absorb_iff2 nat_le_linear take_all)

lemma path_prefixes_is_prefix: "k \<in> path_prefixes w p \<Longrightarrow> is_prefix k (path_key w p)"
proof -
  assume "k \<in> path_prefixes w p"
  then obtain i where k: "k = path_start w p @ take i (names_of (split_slash p))" by (auto simp: path_prefixes_def)
  then have "k = take (length (path_start w p) + i) (path_key w p)" by (simp add: path_key_def)
  then show ?thesis unfolding is_prefix_take by blast
qed

text \<open>Carrying out one item leaves the others ready.\<close>

lemma item_ok_step:
  assumes sv: "serve fd cs (file_keys w base a) (path_prefixes w (dir_path base (fst a))) w w'"
    and d: "delivered w base w' a" and ap: "apart_items w base a b" "apart_items w base b a" and ok: "item_ok w base b"
  shows "item_ok w' base b"
proof -
  note e = serveD(2) [OF sv]
  let ?q = "dir_path base (fst b)"
  have ps: "path_start w' ?q = path_start w ?q" using e by (simp add: path_start_def env_of_def)
  have free: "content w' k = None \<or> is_dir (w_fs w') k" if k: "content w k = None \<or> is_dir (w_fs w) k" "is_prefix k (dir_key w base b)" for k
  proof -
    have "k \<notin> file_keys w base a" using ap(1) k(2) by (auto simp: file_keys_def apart_items_def)
    with serveD(5,9) [OF sv, of k] k(1) show ?thesis by (cases "content w' k") auto
  qed
  have "path_free w' ?q"
    unfolding path_free_iff ps
  proof
    fix i assume i: "i \<in> {..length (names_of (split_slash ?q))}"
    let ?k = "path_start w ?q @ take i (names_of (split_slash ?q))"
    have "is_prefix ?k (dir_key w base b)" unfolding dir_key_def by (rule path_prefixes_is_prefix) (auto simp: path_prefixes_def)
    with free ok i show "content w' ?k = None \<or> is_dir (w_fs w') ?k" unfolding item_ok_def path_free_iff by blast
  qed
  moreover have "\<not> is_dir (w_fs w') (item_key w base b)" if nb: "\<not> ss_isDirectory (fst b)"
  proof -
    let ?k = "item_key w base b"
    have "?k \<notin> path_prefixes w (dir_path base (fst a))"
      using ap(2) nb path_prefixes_is_prefix [of ?k w "dir_path base (fst a)"] by (auto simp: apart_items_def dir_key_def)
    moreover have "?k \<notin> file_keys w base a" using ap(2) nb by (auto simp: apart_items_def file_keys_def)
    ultimately show ?thesis using serveD(8) [OF sv, of ?k] ok nb by (simp add: item_ok_def is_dir_content)
  qed
  ultimately show ?thesis using ok by (simp add: item_ok_def keys_env [OF e])
qed

lemma delivered_step:
  assumes sv: "serve fd cs K P w w'" and d: "delivered v base w a" and k: "item_key v base a \<notin> K"
  shows "delivered v base w' a"
  using d serveD(5,7) [OF sv, of "item_key v base a"] k by (auto simp: delivered_def split: if_splits)

lemma handle_tasks_delivers:
  assumes "world_wf w" "w_script w = []" "w_in w fd = concat (map item_body its) @ r"
    and "list_all (item_ok w base) its" "compatible w base its"
  shows "\<exists>w'. handle_tasks base fd w (map fst its) = (True, length its, w') \<and> w_script w' = [] \<and> world_wf w'
    \<and> serve fd (concat (map item_body its)) (\<Union>it\<in>set its. file_keys w base it)
         (\<Union>it\<in>set its. path_prefixes w (dir_path base (fst it))) w w'
    \<and> list_all (delivered w base w') its"
  using assms
proof (induction its arbitrary: w)
  case (Cons a its)
  obtain w1 where w1: "handle_task base fd w (fst a) = (True, w1)" "w_script w1 = []"
      "serve fd (item_body a) (file_keys w base a) (path_prefixes w (dir_path base (fst a))) w w1" "delivered w base w1 a"
    using handle_item [of w fd a "concat (map item_body its) @ r" base] Cons.prems by auto
  note e = serveD(2) [OF w1(3)]
  have ok1: "list_all (item_ok w1 base) its"
    using Cons.prems(4,5) item_ok_step [OF w1(3,4)] by (auto simp: list_all_iff)
  have c1: "compatible w1 base its" using Cons.prems(5) compatible_env [OF e] by simp
  have i1: "w_in w1 fd = concat (map item_body its) @ r" using serveD(10) [OF w1(3)] Cons.prems(3) by simp
  have pp: "path_prefixes w1 p = path_prefixes w p" for p by (rule path_prefixes_env [OF e])
  have fk: "file_keys w1 base b = file_keys w base b" for b by (simp add: file_keys_def keys_env [OF e])
  have dl: "delivered w1 base x b = delivered w base x b" for x b by (simp add: delivered_def keys_env [OF e])
  from Cons.IH [OF serveD(1) [OF w1(3) Cons.prems(1)] w1(2) i1 ok1 c1]
  obtain w' where w': "handle_tasks base fd w1 (map fst its) = (True, length its, w')" "w_script w' = []" "world_wf w'"
    "serve fd (concat (map item_body its)) (\<Union>it\<in>set its. file_keys w base it)
         (\<Union>it\<in>set its. path_prefixes w (dir_path base (fst it))) w1 w'" "list_all (delivered w base w') its"
    unfolding pp fk dl by blast
  have "item_key w base a \<notin> (\<Union>it\<in>set its. file_keys w base it)"
    using Cons.prems(5) by (auto simp: file_keys_def apart_items_def list_all_iff split: if_splits)
  from delivered_step [OF w'(4) w1(4) this] w' w1(1) serve_trans [OF w1(3) w'(4)] show ?case by simp
qed simp

end
