(* ===== verification/ServerSession.thy ===== *)
theory ServerSession
  imports Delivery
begin

text \<open>
  Whole sessions of the server: what happens to the sockets whatever the client sends and the kernel
  does, and what a well-formed stream of tasks achieves.
\<close>

section \<open>Sockets\<close>

text \<open>\<open>quiet fd w w'\<close>: nothing was sent, opened or closed, and input was taken from \<open>fd\<close> only.\<close>

definition quiet :: "int \<Rightarrow> world \<Rightarrow> world \<Rightarrow> bool" where
  "quiet fd w w' \<longleftrightarrow> w_out w' = w_out w \<and> w_open w' = w_open w \<and> (\<forall>g. g \<noteq> fd \<longrightarrow> w_in w' g = w_in w g)"

lemma quiet_refl [simp, intro]: "quiet fd w w" "quiet fd w (w\<lparr>w_script := s\<rparr>)"
  by (simp_all add: quiet_def)

lemma quiet_trans [trans]: "quiet fd w w1 \<Longrightarrow> quiet fd w1 w2 \<Longrightarrow> quiet fd w w2"
  by (simp add: quiet_def)

lemma quiet_net: "net_of w' = net_of w \<Longrightarrow> quiet fd w w'"
  by (simp add: quiet_def net_of_def)

lemma quiet_got: "got fd cs w w' \<Longrightarrow> quiet fd w w'"
  by (auto simp: quiet_def got_def)

lemma receiveBytes_quiet: "quiet fd w (snd (receiveBytes fd w n))"
  using server_reader.rd_got [of fd w n "fst (receiveBytes fd w n)" "snd (receiveBytes fd w n)"]
  by (auto intro: quiet_got split: option.splits)

lemma receive_scalar_quiet:
  "quiet fd w (snd (receiveInt fd w))" "quiet fd w (snd (receiveSizeT fd w))"
  "quiet fd w (snd (receiveOffT fd w))" "quiet fd w (snd (receiveModeT fd w))"
  using receiveBytes_quiet by (simp_all add: receiveInt_def receiveSizeT_def receiveOffT_def receiveModeT_def)

lemma of_opt_snd [simp]: "snd (of_opt r) = snd r"
  by (cases r; cases "fst r") simp_all

lemma then_rcv_quiet:
  assumes "quiet fd w (snd r)" "\<And>x v. quiet fd v (snd (f x v))"
  shows "quiet fd w (snd (then_rcv r f))"
  using assms quiet_trans by (cases r; cases "fst r") (auto simp: then_rcv_def)

lemma receive_path_quiet: "quiet fd w (snd (receive_path maxvec fd w))"
  unfolding receive_path_def
  by (rule then_rcv_quiet) (auto simp: receive_scalar_quiet intro!: then_rcv_quiet receiveBytes_quiet)

lemma receive_task_quiet: "quiet fd w (snd (receive_task maxvec fd w))"
  unfolding receive_task_def
  by (intro then_rcv_quiet) (auto simp: receive_scalar_quiet receive_path_quiet)

lemma receive_tasks_quiet: "quiet fd w (snd (receive_tasks n maxvec fd w))"
proof (induction n arbitrary: w)
  case (Suc n)
  then show ?case by (auto intro!: then_rcv_quiet receive_task_quiet)
qed simp

lemma write_all_quiet: "quiet fd w (snd (write_all k w bs))"
proof (induction k w bs rule: write_all.induct)
  case (1 k w bs)
  obtain y v where y: "sys_write w k bs = (y, v)" by fastforce
  then have "quiet fd w v"
    by (auto simp: sys_write_def next_ev_eq Let_def set_data_def quiet_def split: ev.splits option.splits)
  with 1 y show ?case by (cases "bs = []"; cases y) (auto simp: write_all.simps [of k w] intro: quiet_trans)
qed

lemma robustRead_quiet: "quiet fd w (snd (robustRead fd w n []))"
  using robustRead_got [of fd w n "[]" "fst (robustRead fd w n [])" "snd (robustRead fd w n [])"]
  by (auto intro: quiet_got split: option.splits)

lemma receive_data_quiet: "quiet fd w (snd (receive_data_loop fd k w sz pos))"
proof (induction fd k w sz pos rule: receive_data_loop.induct)
  case (1 fd k w sz pos)
  obtain x w1 where x: "robustRead fd w (min 65536 (nat (sz - pos))) [] = (x, w1)" by fastforce
  have w1: "quiet fd w w1" using robustRead_quiet [of fd w "min 65536 (nat (sz - pos))"] x by simp
  show ?case
  proof (cases "x = None \<or> x = Some [] \<or> \<not> pos < sz")
    case True
    with x w1 show ?thesis by (subst receive_data_loop.simps) auto
  next
    case False
    then obtain bs where bs: "x = Some bs" "bs \<noteq> []" "pos < sz" by auto
    obtain b w2 where b: "write_all k w1 bs = (b, w2)" by fastforce
    have w2: "quiet fd w w2" using quiet_trans [OF w1] write_all_quiet [of fd w1 k bs] b by simp
    show ?thesis
    proof (cases b)
      case True
      from "1.IH" [OF bs(3) x [symmetric] bs(1,2) b [symmetric] eqTrueI [OF True]] x b bs True w2
      show ?thesis by (subst receive_data_loop.simps) (auto intro: quiet_trans)
    next
      case False
      with x b bs w2 show ?thesis by (subst receive_data_loop.simps) auto
    qed
  qed
qed

lemma fs_step_quiet: "fs_step K w w' \<Longrightarrow> quiet fd w w'"
  by (auto simp: fs_step_def intro: quiet_net)

lemma receiveFileData_quiet: "quiet fd w (snd (receiveFileData base fd w t off))"
proof -
  have o: "quiet fd v (snd (sys_open_w v p m c tr))" for v p m c tr
    using fs_step_quiet [OF sys_open_w_step] .
  show ?thesis
    unfolding receiveFileData_def Let_def
    using o receive_data_quiet by (auto split: option.splits prod.splits) (metis quiet_trans snd_conv)+
qed

lemma handle_task_quiet: "quiet fd w (snd (handle_task base fd w t))"
proof -
  have c: "quiet fd v (snd (createDirectory v p m))" for v p m
    using dirs_added_net [OF createDirectory_dirs_added] by (rule quiet_net)
  have s: "quiet fd v (snd (setFileMode v p m))" for v p m
    unfolding setFileMode_def by (rule fs_step_quiet [OF sys_chmod_step])
  obtain x w1 where x: "receiveOffT fd w = (x, w1)" by fastforce
  obtain ok w2 where w2: "(case find_last_of (CHR ''/'') (base @ ss_destPath t) of None \<Rightarrow> (True, w1)
      | Some lastSlash \<Rightarrow> createDirectory w1 (take lastSlash (base @ ss_destPath t)) 0x1ED) = (ok, w2)" by fastforce
  have q1: "quiet fd w w1" using receive_scalar_quiet(3) [of fd w] x by simp
  have q2: "quiet fd w w2"
    using q1 w2 c [of w1 _ "0x1ED"] by (auto split: option.splits intro: quiet_trans) (metis quiet_trans snd_conv)
  have q3: "quiet fd w (snd (receiveFileData base fd w2 t off))" for off
    using quiet_trans [OF q2 receiveFileData_quiet] .
  show ?thesis
  proof (cases x)
    case None
    with x q1 show ?thesis by (simp add: handle_task_def Let_def)
  next
    case (Some off)
    obtain b w3 where w3: "receiveFileData base fd w2 t off = (b, w3)" by fastforce
    with q3 [of off] have "quiet fd w w3" by simp
    with x Some w2 w3 q1 q2 quiet_trans [OF q1 c] quiet_trans [OF _ s] show ?thesis
      by (cases "ss_isDirectory t"; cases ok; cases b) (simp_all add: handle_task_def Let_def)
  qed
qed

lemma handle_tasks_quiet: "quiet fd w (snd (snd (handle_tasks base fd w ts)))"
proof (induction ts arbitrary: w)
  case (Cons t ts)
  obtain b w1 where b: "handle_task base fd w t = (b, w1)" by fastforce
  have "quiet fd w w1" using handle_task_quiet [of fd w base t] b by simp
  with b Cons [of w1] show ?case by (cases b) (auto intro: quiet_trans split: prod.splits)
qed simp

lemma handle_tasks_count:
  "handle_tasks base fd w ts = (ok, n, w') \<Longrightarrow> n \<le> length ts \<and> (ok \<longleftrightarrow> n = length ts)"
proof (induction ts arbitrary: w ok n w')
  case (Cons t ts)
  obtain b w1 where b: "handle_task base fd w t = (b, w1)" by fastforce
  obtain ok1 n1 w2 where r: "handle_tasks base fd w1 ts = (ok1, n1, w2)" by (metis prod_cases3)
  from Cons.IH [OF r] Cons.prems b r show ?case by (cases b) auto
qed simp

section \<open>Closing\<close>

text \<open>How a session may end: it returns after closing the socket and sending (a prefix of) the
  acknowledgement that says what it returns, or it throws and leaves the socket as it is.\<close>

definition session_end :: "int \<Rightarrow> world \<Rightarrow> bool received \<Rightarrow> world \<Rightarrow> bool" where
  "session_end fd w res w' = (case res of
       Got b \<Rightarrow> w_open w' = removeAll fd (w_open w)
         \<and> (\<exists>n\<le>3. w_out w' = (w_out w)(fd := w_out w fd @ take n (if b then ''ACK'' else ''NAK'')))
     | Lost \<Rightarrow> False
     | Threw \<Rightarrow> w_open w' = w_open w \<and> w_out w' = w_out w)"

lemma ack_close:
  assumes "fd \<ge> 0"
  shows "w_open (TcpServer_closeClient (snd (sendAck fd w b)) fd) = removeAll fd (w_open w)"
    "\<exists>n\<le>3. w_out (TcpServer_closeClient (snd (sendAck fd w b)) fd) = (w_out w)(fd := w_out w fd @ take n (if b then ''ACK'' else ''NAK''))"
proof -
  obtain ok w1 where k: "sendAck fd w b = (ok, w1)" by fastforce
  have l: "length (if b then ''ACK'' else ''NAK'') = 3" by simp
  from tcp_server.wr_sent [OF k [unfolded sendAck_def]] obtain n where n: "n \<le> 3" "sent fd (take n (if b then ''ACK'' else ''NAK'')) w w1"
    unfolding l by blast
  then show "w_open (TcpServer_closeClient (snd (sendAck fd w b)) fd) = removeAll fd (w_open w)"
    "\<exists>n\<le>3. w_out (TcpServer_closeClient (snd (sendAck fd w b)) fd) = (w_out w)(fd := w_out w fd @ take n (if b then ''ACK'' else ''NAK''))"
    using assms k by (auto simp: TcpServer_closeClient_def sys_close_def sent_def)
qed

lemma session_end_ack:
  assumes "quiet fd w v" "fd \<ge> 0"
  shows "session_end fd w (Got b) (TcpServer_closeClient (snd (sendAck fd v b)) fd)"
  using ack_close [OF assms(2), of v b] assms(1) by (simp add: session_end_def quiet_def)

lemma handle_sync_end:
  assumes h: "handle_sync maxvec s fd w = (res, s', w')" and fd: "fd \<ge> 0"
  shows "session_end fd w res w'"
proof -
  obtain x w1 where x: "receiveInt fd w = (x, w1)" by fastforce
  have q1: "quiet fd w w1" using receive_scalar_quiet(1) [of fd w] x by simp
  show ?thesis
  proof (cases x)
    case None
    with h x session_end_ack [OF q1 fd, of False] show ?thesis by (auto simp: handle_sync_def nak_and_close_def)
  next
    case (Some c)
    obtain y w2 where y: "receiveTaskMetadata maxvec fd w1 c = (y, w2)" by fastforce
    have q2: "quiet fd w w2"
      using quiet_trans [OF q1 receive_tasks_quiet] y by (metis receiveTaskMetadata_def snd_conv)
    show ?thesis
    proof (cases y)
      case (Got ts)
      obtain ok n w3 where r: "handle_tasks (sv_baseDirectory s) fd w2 ts = (ok, n, w3)" by (metis prod_cases3)
      have "quiet fd w w3" using quiet_trans [OF q2 handle_tasks_quiet [of fd w2 "sv_baseDirectory s" ts]] r by simp
      from session_end_ack [OF this fd, of ok] h x Some y Got r show ?thesis
        by (cases ok) (auto simp: handle_sync_def nak_and_close_def)
    next
      case Lost
      with h x Some y session_end_ack [OF q2 fd, of False] show ?thesis by (auto simp: handle_sync_def nak_and_close_def)
    next
      case Threw
      with h x Some y q2 show ?thesis by (auto simp: handle_sync_def quiet_def session_end_def)
    qed
  qed
qed

text \<open>The RPC mode closes the socket too.\<close>

lemma rpc_loop_open:
  "rpc_loop fuel pb M s fd first w = Some (ok, w') \<Longrightarrow> w_open w' = removeAll fd (w_open w)"
proof (induction fuel pb M s fd first w arbitrary: ok w' rule: rpc_loop.induct)
  case (1 fuel pb M s fd first w)
  obtain x w1 where x: "RpcServer_receiveRequest pb fd w = (x, w1)" by fastforce
  have o1: "w_open w1 = w_open w"
    using x rpc_server_reader.rd_frame(4)
    by (auto simp: RpcServer_receiveRequest_def split: prod.splits option.splits if_splits)
  show ?case
  proof (cases x)
    case None
    with "1.prems" x o1 show ?thesis by (subst (asm) rpc_loop.simps) (auto simp: sys_close_def)
  next
    case (Some r)
    with "1.prems" x obtain resp w2 where a: "rpc_answer fuel M s w1 r = Some (resp, w2)"
      by (subst (asm) rpc_loop.simps) (auto split: option.splits)
    then have o2: "w_open w2 = w_open w1" using rpc_answer_frame [OF a] by auto
    obtain b w3 where b: "RpcServer_sendResponse pb fd w2 resp = (b, w3)" by fastforce
    then have o3: "w_open w3 = w_open w2"
      using rpc_server_writer.wr_frame(4)
      by (auto simp: RpcServer_sendResponse_def Let_def split: option.splits prod.splits if_splits)
    show ?thesis
    proof (cases b)
      case True
      with "1.prems" x Some a b have "rpc_loop fuel pb M s fd False w3 = Some (ok, w')"
        by (subst (asm) rpc_loop.simps) auto
      from "1.IH" [OF x [symmetric] Some a _ b [symmetric] eqTrueI [OF True] this] o1 o2 o3 show ?thesis by simp
    next
      case False
      with "1.prems" x Some a b o1 o2 o3 show ?thesis by (subst (asm) rpc_loop.simps) (auto simp: sys_close_def)
    qed
  qed
qed

lemma handleClient_sockets:
  assumes h: "handleClient fuel pb M maxvec s fd w = Some (res, s', w')" and fd: "fd \<ge> 0"
  shows "w_open w' = (case res of Threw \<Rightarrow> w_open w | _ \<Rightarrow> removeAll fd (w_open w))"
proof -
  obtain x w1 where x: "receiveBytes fd w 1 = (x, w1)" by fastforce
  have o1: "w_open w1 = w_open w" using receiveBytes_quiet [of fd w 1] x by (simp add: quiet_def)
  consider "x = None" | "x = Some [CHR 0x01]" | "x = Some [CHR 0x00]" | m where "x = Some m" "m \<noteq> [CHR 0x01]" "m \<noteq> [CHR 0x00]"
    by fastforce
  then show ?thesis
  proof cases
    case 2
    with h x obtain ok where "rpc_loop fuel pb M (sv_rpcServer s) fd True w1 = Some (ok, w')" "res = Got ok"
      by (auto simp: handleClient_def handleRpcClient_def)
    with rpc_loop_open o1 show ?thesis by fastforce
  next
    case 3
    with h x have "handle_sync maxvec s fd w1 = (res, s', w')" by (simp add: handleClient_def)
    from handle_sync_end [OF this fd] o1 show ?thesis by (auto simp: session_end_def split: received.splits)
  qed (use h x o1 fd in \<open>auto simp: handleClient_def TcpServer_closeClient_def sys_close_def\<close>)
qed

section \<open>A well-formed stream\<close>

definition wire :: "item list \<Rightarrow> byte list" where
  "wire its = CHR 0x00 # enc_int (int (length its)) @ concat (map (\<lambda>it. enc_task (fst it)) its) @ concat (map item_body its)"

lemma item_ok_feed [simp]: "item_ok (feed w fd bs) base = item_ok w base"
  by (simp add: fun_eq_iff item_ok_def item_key_def dir_key_def)

lemma compatible_feed [simp]: "compatible (feed w fd bs) base its = compatible w base its"
  by (rule compatible_env) simp

lemma keys_feed [simp]:
  "item_key (feed w fd bs) base it = item_key w base it" "file_keys (feed w fd bs) base it = file_keys w base it"
  "delivered (feed w fd bs) base = delivered w base"
  by (simp_all add: fun_eq_iff item_key_def dir_key_def file_keys_def delivered_def)

lemma wire_read:
  assumes s: "w_script w = []" and i: "w_in w fd = wire its"
    and n: "int (length its) < 2 ^ 31" and mv: "int maxvec < 2 ^ 63" and sd: "list_all (\<lambda>it. sendable maxvec (fst it)) its"
  obtains w1 w2 where "receiveBytes fd w 1 = (Some [CHR 0x00], w1)" "receiveInt fd w1 = (Some (int (length its)), w2)"
    "receiveTaskMetadata maxvec fd w2 (int (length its)) = (Got (map fst its), feed w fd (concat (map item_body its)))"
proof -
  let ?b = "concat (map item_body its)"
  let ?m = "concat (map enc_task (map fst its))"
  have i0: "w_in w fd = [CHR 0x00] @ enc_int (int (length its)) @ ?m @ ?b" using i by (simp add: wire_def comp_def)
  have 1: "receiveBytes fd w 1 = (Some [CHR 0x00], feed w fd (enc_int (int (length its)) @ ?m @ ?b))"
    using receiveBytes_feed [OF s i0, of 1] by simp
  have 2: "receiveInt fd (feed w fd (enc_int (int (length its)) @ ?m @ ?b)) = (Some (int (length its)), feed w fd (?m @ ?b))"
    using receive_scalar(1) [of "feed w fd (enc_int (int (length its)) @ ?m @ ?b)" fd "enc_int (int (length its))" "?m @ ?b"] s n
    by (simp add: dec_enc_int)
  have 3: "receiveTaskMetadata maxvec fd (feed w fd (?m @ ?b)) (int (length its)) = (Got (map fst its), feed w fd ?b)"
    using receive_tasks_enc [of "feed w fd (?m @ ?b)" fd "map fst its" ?b maxvec] s sd mv
    by (simp add: receiveTaskMetadata_def list_all_iff)
  show thesis by (rule that [OF 1 2 3])
qed

lemma handleClient_delivers:
  assumes wf: "world_wf w" and s: "w_script w = []" and i: "w_in w fd = wire its" and fd: "fd \<ge> 0"
    and n: "int (length its) < 2 ^ 31" and mv: "int maxvec < 2 ^ 63" and sd: "list_all (\<lambda>it. sendable maxvec (fst it)) its"
    and base: "base = sv_baseDirectory srv" and ok: "list_all (item_ok w base) its" "compatible w base its"
  shows "\<exists>w'. handleClient fuel pb M maxvec srv fd w =
      Some (Got True, srv\<lparr>sv_processedTasks := sv_processedTasks srv + length its\<rparr>, w')
    \<and> list_all (delivered w base w') its
    \<and> w_out w' = (w_out w)(fd := w_out w fd @ ''ACK'') \<and> w_open w' = removeAll fd (w_open w)
    \<and> (\<forall>p. p \<notin> (\<Union>it\<in>set its. file_keys w base it) \<and> p \<notin> (\<Union>it\<in>set its. path_prefixes w (dir_path base (fst it)))
         \<longrightarrow> content w' p = content w p)"
proof -
  let ?b = "concat (map item_body its)"
  obtain w1 w2 where r: "receiveBytes fd w 1 = (Some [CHR 0x00], w1)" "receiveInt fd w1 = (Some (int (length its)), w2)"
      "receiveTaskMetadata maxvec fd w2 (int (length its)) = (Got (map fst its), feed w fd ?b)"
    by (rule wire_read [OF s i n mv sd])
  obtain w3 where w3: "handle_tasks base fd (feed w fd ?b) (map fst its) = (True, length its, w3)" "w_script w3 = []"
      "serve fd ?b (\<Union>it\<in>set its. file_keys w base it) (\<Union>it\<in>set its. path_prefixes w (dir_path base (fst it))) (feed w fd ?b) w3"
      "list_all (delivered w base w3) its"
    using handle_tasks_delivers [of "feed w fd ?b" fd its "[]" base] wf s ok by auto
  let ?w4 = "w3\<lparr>w_out := (w_out w)(fd := w_out w fd @ ''ACK'')\<rparr>"
  have 4: "sendAck fd w3 True = (True, ?w4)"
    using tcp_server.wr_nominal [OF w3(2), of fd "''ACK''"] serveD(3) [OF w3(3)] by (simp add: sendAck_def)
  have same: "content (sys_close ?w4 fd) = content w3" "w_fs (sys_close ?w4 fd) = w_fs w3"
    by (simp_all add: sys_close_def content_def fun_eq_iff)
  have c: "handleClient fuel pb M maxvec srv fd w = Some (Got True, srv\<lparr>sv_processedTasks := sv_processedTasks srv + length its\<rparr>, sys_close ?w4 fd)"
    using r 4 w3(1) base fd by (simp add: handleClient_def handle_sync_def TcpServer_closeClient_def)
  have "list_all (delivered w base (sys_close ?w4 fd)) its" using w3(4) by (simp add: delivered_def same list_all_iff)
  moreover have "w_open (sys_close ?w4 fd) = removeAll fd (w_open w)" "w_out (sys_close ?w4 fd) = (w_out w)(fd := w_out w fd @ ''ACK'')"
    using serveD(4) [OF w3(3)] by (simp_all add: sys_close_def)
  moreover have "content (sys_close ?w4 fd) p = content w p"
    if "p \<notin> (\<Union>it\<in>set its. file_keys w base it)" "p \<notin> (\<Union>it\<in>set its. path_prefixes w (dir_path base (fst it)))" for p
    using serveD(8) [OF w3(3) that] by (simp add: same)
  ultimately show ?thesis using c by blast
qed

end
