(* ===== verification/RemoteSync.thy ===== *)
theory RemoteSync
  imports AsyncIO ServerSession
begin

text \<open>
  The client side of the sync protocol in \<^verbatim>\<open>src/core/FileSync.cpp\<close>: \<^verbatim>\<open>syncRemote\<close> and
  \<^verbatim>\<open>sendFileSync\<close>.  The loop of \<^verbatim>\<open>sendFileSync\<close> does not end when reading fails, so it is a partial
  function: \<^term>\<open>None\<close> is a run that never returns.  The same value stands for a listing that ran out of
  fuel and for a wait that the events of the I/O thread do not end.
\<close>

section \<open>Sending one file\<close>

partial_function (option) send_file_loop ::
    "FileSync \<Rightarrow> string \<Rightarrow> off_t \<Rightarrow> world \<Rightarrow> TcpClient \<Rightarrow> ifstream \<Rightarrow> off_t \<Rightarrow> (bool \<times> TcpClient \<times> world) option" where
  "send_file_loop fs destPath fileSize w client srcFile transferred =
     (if transferred < fileSize then
        (case ifs_read w srcFile (min 4096 (nat (fileSize - transferred))) of
           (buffer, srcFile1, w1) \<Rightarrow>
             if length buffer > 0 then
               (case TcpClient_send w1 client buffer of
                  (ok, client1, w2) \<Rightarrow>
                    if \<not> ok then Some (False, client1, saveProgress w2 destPath transferred fileSize)
                    else send_file_loop fs destPath fileSize
                           (throttle fs (saveProgress w2 destPath (transferred + int (length buffer)) fileSize))
                           client1 srcFile1 (transferred + int (length buffer)))
             else send_file_loop fs destPath fileSize w1 client srcFile1 transferred)
      else Some (True, client, snd (sys_remove w (getProgressFilePath destPath))))"

definition sendFileSync ::
    "FileSync \<Rightarrow> world \<Rightarrow> string \<Rightarrow> string \<Rightarrow> TcpClient \<Rightarrow> off_t \<Rightarrow> (bool \<times> TcpClient \<times> world) option" where
  "sendFileSync fs w srcPath destPath client resumeOffset =
     (case ifs_open w srcPath of
        None \<Rightarrow> Some (False, client, w)
      | Some d \<Rightarrow>
          send_file_loop fs destPath (int (length d)) w client \<lparr>is_rest = drop (nat resumeOffset) d, is_good = True\<rparr> resumeOffset)"

section \<open>The whole protocol\<close>

text \<open>A \<^verbatim>\<open>client.send\<close> whose result is not looked at.\<close>

definition client_send :: "byte list \<Rightarrow> TcpClient \<times> world \<Rightarrow> TcpClient \<times> world" where
  "client_send data cw = snd (TcpClient_send (snd cw) (fst cw) data)"

definition send_metadata :: "SyncTask \<Rightarrow> TcpClient \<times> world \<Rightarrow> TcpClient \<times> world" where
  "send_metadata task cw =
     (let cw1 = client_send (enc_int (if tk_isDirectory task then 1 else 0)) cw;
          cw2 = client_send (enc_size_t (length (tk_srcPath task))) cw1;
          cw3 = client_send (tk_srcPath task) cw2;
          cw4 = client_send (enc_size_t (length (tk_destPath task))) cw3;
          cw5 = client_send (tk_destPath task) cw4;
          cw6 = client_send (enc_mode_t (tk_mode task)) cw5
      in if tk_isDirectory task then cw6
         else case getFileStat (snd cw6) (tk_srcPath task) of
                None \<Rightarrow> cw6
              | Some statbuf \<Rightarrow> client_send (enc_off_t (st_size statbuf)) cw6)"

text \<open>The resume offset: from the progress file, when it is positive and inside the file.\<close>

definition resume_offset :: "bool \<Rightarrow> world \<Rightarrow> string \<Rightarrow> off_t \<Rightarrow> off_t \<times> world" where
  "resume_offset resume w destPath fileSize =
     (if resume then
        (let (progress, w1) = loadProgress w destPath in
         (if sp_offset progress > 0 \<and> sp_totalSize progress > 0 \<and> sp_offset progress < fileSize
          then sp_offset progress else 0, w1))
      else (0, w))"

text \<open>The second pass, for one task: whether to go on, the connection, the I/O handler and the world.\<close>

definition send_content ::
    "FileSync \<Rightarrow> nat \<Rightarrow> io_event list \<Rightarrow> bool \<Rightarrow> SyncTask \<Rightarrow> send_callback AsyncIOHandler option \<Rightarrow> TcpClient \<times> world \<Rightarrow>
     (bool \<times> send_callback AsyncIOHandler option \<times> TcpClient \<times> world) option" where
  "send_content fs fuel evs resume task handler cw =
     (if tk_isDirectory task then (let (c1, w1) = client_send (enc_off_t 0) cw in Some (True, handler, c1, w1))
      else
        (let fileSize = (case getFileStat (snd cw) (tk_srcPath task) of None \<Rightarrow> 0 | Some statbuf \<Rightarrow> st_size statbuf);
             (resumeOffset, w1) = resume_offset resume (snd cw) (tk_destPath task) fileSize;
             (c2, w2) = client_send (enc_off_t resumeOffset) (fst cw, w1);
             running = (case handler of None \<Rightarrow> False | Some h \<Rightarrow> AsyncIOHandler_isRunning h);
             useAsync = (fileSize \<ge> LARGE_FILE_THRESHOLD \<and> running \<and> \<not> resumeOffset > 0);
             sync = (\<lambda>h w. map_option (\<lambda>(ok, c, w'). (ok, h, c, w')) (sendFileSync fs w (tk_srcPath task) (tk_destPath task) c2 resumeOffset))
         in if useAsync then
              (case sendFileViaAsyncIO fuel evs handler w2 (tk_srcPath task) (TcpClient_getSocketFd c2) of
                 None \<Rightarrow> None
               | Some (True, handler1, w3) \<Rightarrow> Some (True, handler1, c2, w3)
               | Some (False, handler1, w3) \<Rightarrow> sync handler1 w3)
            else sync handler w2))"

fun send_contents ::
    "FileSync \<Rightarrow> nat \<Rightarrow> io_event list \<Rightarrow> bool \<Rightarrow> SyncTask list \<Rightarrow> send_callback AsyncIOHandler option \<Rightarrow> TcpClient \<times> world \<Rightarrow>
     (bool \<times> send_callback AsyncIOHandler option \<times> TcpClient \<times> world) option" where
  "send_contents fs fuel evs resume [] handler cw = Some (True, handler, cw)"
| "send_contents fs fuel evs resume (task # tasks) handler cw =
     (case send_content fs fuel evs resume task handler cw of
        None \<Rightarrow> None
      | Some (False, handler1, cw1) \<Rightarrow> Some (False, handler1, cw1)
      | Some (True, handler1, cw1) \<Rightarrow> send_contents fs fuel evs resume tasks handler1 cw1)"

definition receive_ack :: "TcpClient \<times> world \<Rightarrow> bool \<times> world" where
  "receive_ack cw =
     (let (ackBuffer, c1, w1) = TcpClient_receive (snd cw) (fst cw) 3;
          (c2, w2) = TcpClient_disconnect w1 c1
      in (length ackBuffer = 3 \<and> ackBuffer = ''ACK'', w2))"

definition syncRemote ::
    "nat \<Rightarrow> 'c md5_api \<Rightarrow> (meta_map \<Rightarrow> meta_map) \<Rightarrow> FileSync \<Rightarrow> io_event list \<Rightarrow> send_callback AsyncIOHandler option \<Rightarrow> world \<Rightarrow>
     string \<Rightarrow> string \<Rightarrow> string \<Rightarrow> int \<Rightarrow> bool \<Rightarrow> (bool \<times> send_callback AsyncIOHandler option \<times> world) option" where
  "syncRemote fuel M ord fs evs handler w srcDir destDir host port resume =
     (case TcpClient_connect w TcpClient_new host port of
        (False, client, w1) \<Rightarrow> Some (False, handler, w1)
      | (True, client, w1) \<Rightarrow>
          (case detectChanges fuel M ord w1 srcDir destDir of
             None \<Rightarrow> None
           | Some (tasks, w2) \<Rightarrow>
               (let cw1 = client_send [CHR 0x00] (client, w2);
                    cw2 = client_send (enc_int (to_int32 (int (length tasks)))) cw1;
                    cw3 = fold send_metadata tasks cw2
                in case send_contents fs fuel evs resume tasks handler cw3 of
                     None \<Rightarrow> None
                   | Some (False, handler1, c4, w4) \<Rightarrow> Some (False, handler1, snd (TcpClient_disconnect w4 c4))
                   | Some (True, handler1, cw4) \<Rightarrow> (let (ok, w5) = receive_ack cw4 in Some (ok, handler1, w5)))))"

section \<open>A read error\<close>

text \<open>Once the input stream is bad the loop never ends.\<close>

lemma send_file_bad:
  assumes "send_file_loop fs dest sz w c s tr = Some y"
  shows "\<not> is_good s \<longrightarrow> \<not> tr < sz"
proof (rule send_file_loop.raw_induct [of "\<lambda>fs dest sz w c s tr y. \<not> is_good s \<longrightarrow> \<not> tr < sz", OF _ assms], rule impI)
  fix f fs dest sz w c s tr y
  assume ih: "\<And>fs dest sz w c s tr y. f fs dest sz w c s tr = Some y \<Longrightarrow> \<not> is_good s \<longrightarrow> \<not> tr < sz" and bad: "\<not> is_good s"
    and "(if tr < sz
      then case ifs_read w s (min 4096 (nat (sz - tr))) of
           (buffer, srcFile1, w1) \<Rightarrow>
             if 0 < length buffer
             then case TcpClient_send w1 c buffer of
                  (ok, client1, w2) \<Rightarrow>
                    if \<not> ok then Some (False, client1, saveProgress w2 dest tr sz)
                    else f fs dest sz (throttle fs (saveProgress w2 dest (tr + int (length buffer)) sz)) client1 srcFile1
                          (tr + int (length buffer))
             else f fs dest sz w1 c srcFile1 tr
      else Some (True, c, snd (sys_remove w (getProgressFilePath dest)))) = Some y"
  moreover have "ifs_read w s n = ([], s, w)" for n using bad by (simp add: ifs_read_def)
  ultimately show "\<not> tr < sz" using ih bad by (auto split: if_splits)
qed

lemma read_error_never_returns:
  assumes "ev1 w = Fail" "ifs_open w src = Some d" "off < int (length d)"
  shows "sendFileSync fs w src dest c off = None"
proof -
  let ?s = "\<lparr>is_rest = drop (nat off) d, is_good = False\<rparr>"
  have "send_file_loop fs dest (int (length d)) w c \<lparr>is_rest = drop (nat off) d, is_good = True\<rparr> off
      = send_file_loop fs dest (int (length d)) (w\<lparr>w_script := tl (w_script w)\<rparr>) c ?s off"
    using assms(1,3) by (subst send_file_loop.simps) (simp add: ifs_read_def next_ev_eq)
  moreover have "send_file_loop fs dest (int (length d)) v c ?s off = None" for v
    using send_file_bad [of fs dest "int (length d)" v c ?s off] assms(3) by (cases "send_file_loop fs dest (int (length d)) v c ?s off") auto
  ultimately show ?thesis using assms(2) by (simp add: sendFileSync_def)
qed

end
