(* ===== verification/ClientSession.thy ===== *)
theory ClientSession
  imports RemoteSync
begin

text \<open>
  What a client session without faults puts on the wire: for every task its metadata, then for every
  task a resume offset and the bytes of the file; the client's own file system changes in the progress
  files only.
\<close>

section \<open>What the client puts on the wire\<close>

definition emit :: "world \<Rightarrow> int \<Rightarrow> byte list \<Rightarrow> world" where
  "emit w fd bs = w\<lparr>w_out := (w_out w)(fd := w_out w fd @ bs)\<rparr>"

lemma emit_simps [simp]:
  "w_script (emit w fd bs) = w_script w" "w_out (emit w fd bs) = (w_out w)(fd := w_out w fd @ bs)" "w_in (emit w fd bs) = w_in w"
  "w_open (emit w fd bs) = w_open w" "w_fs (emit w fd bs) = w_fs w" "emit (emit w fd as) fd bs = emit w fd (as @ bs)"
  "env_of (emit w fd bs) = env_of w" "world_wf (emit w fd bs) = world_wf w" "content (emit w fd bs) = content w"
  "resolve (emit w fd bs) p = resolve w p" "w_unreadable (emit w fd bs) = w_unreadable w"
  by (simp_all add: emit_def env_of_def world_wf_def content_def fun_eq_iff resolve_def path_start_def Let_def)

lemma emit_nil [simp]: "emit w fd [] = w"
  by (simp add: emit_def)

lemma client_send_nominal:
  "w_script w = [] \<Longrightarrow> tc_connected c \<Longrightarrow> client_send bs (c, w) = (c, emit w (tc_sockfd c) bs)"
  "w_script w = [] \<Longrightarrow> tc_connected c \<Longrightarrow> TcpClient_send w c bs = (True, c, emit w (tc_sockfd c) bs)"
  by (simp_all add: client_send_def TcpClient_send_def send_loop_nominal emit_def)

text \<open>\<open>sends fd bs K w w'\<close>: \<open>bs\<close> went out on \<open>fd\<close>, and of the file system only files in \<open>K\<close> changed.\<close>

definition sends :: "int \<Rightarrow> byte list \<Rightarrow> fpath set \<Rightarrow> world \<Rightarrow> world \<Rightarrow> bool" where
  "sends fd bs K w w' \<longleftrightarrow> w_out w' = (w_out w)(fd := w_out w fd @ bs) \<and> file_step K w (w'\<lparr>w_out := w_out w\<rparr>)"

lemma file_step_w_out: "file_step K w w' \<Longrightarrow> file_step K (w\<lparr>w_out := a\<rparr>) (w'\<lparr>w_out := a\<rparr>)"
  by (auto simp: file_step_def fs_step_def world_wf_def env_of_def net_of_def content_def)

lemma sends_trans:
  assumes a: "sends fd bs K w w1" and b: "sends fd cs K w1 w2"
  shows "sends fd (bs @ cs) K w w2"
proof -
  have "file_step K (w1\<lparr>w_out := w_out w\<rparr>) (w2\<lparr>w_out := w_out w\<rparr>)"
    using file_step_w_out [of K w1 "w2\<lparr>w_out := w_out w1\<rparr>" "w_out w"] b by (simp add: sends_def)
  with a b show ?thesis by (auto simp: sends_def intro: file_step_trans)
qed

lemma sends_emit: "sends fd bs K w (emit w fd bs)"
  by (simp add: sends_def emit_def)

lemma sends_file_step: "file_step K w w' \<Longrightarrow> world_wf w \<Longrightarrow> sends fd [] K w w'"
proof -
  assume f: "file_step K w w'" and wf: "world_wf w"
  have o: "w_out w' = w_out w" using file_stepD(5) [OF f wf] by (simp add: net_of_def)
  then have "w'\<lparr>w_out := w_out w\<rparr> = w'" by (cases w') simp
  with f o show ?thesis by (metis append_Nil2 fun_upd_triv sends_def)
qed

lemma sends_mono: "sends fd bs K w w' \<Longrightarrow> K \<subseteq> L \<Longrightarrow> sends fd bs L w w'"
  by (auto simp: sends_def intro: file_step_mono)

lemma sendsD:
  assumes "sends fd bs K w w'" "world_wf w"
  shows "world_wf w'" "is_dir (w_fs w') = is_dir (w_fs w)" "resolve w' p = resolve w p" "env_of w' = env_of w"
    "w_in w' = w_in w" "w_open w' = w_open w" "k \<notin> K \<Longrightarrow> content w' k = content w k"
    "w_out w' = (w_out w)(fd := w_out w fd @ bs)"
proof -
  note f = file_stepD [OF conjunct2 [OF assms(1) [unfolded sends_def]] assms(2)]
  show "world_wf w'" using f(1) by (simp add: world_wf_def)
  show "is_dir (w_fs w') = is_dir (w_fs w)" using f(2) by simp
  have "resolve (w'\<lparr>w_out := w_out w\<rparr>) p = resolve w' p" by (simp add: resolve_def path_start_def Let_def)
  with f(3) [of p] show "resolve w' p = resolve w p" by simp
  show "env_of w' = env_of w" using f(4) by (simp add: env_of_def)
  show "w_in w' = w_in w" "w_open w' = w_open w" using f(5) by (simp_all add: net_of_def)
  show "k \<notin> K \<Longrightarrow> content w' k = content w k" using f(6) [of k] by (simp add: content_def)
  show "w_out w' = (w_out w)(fd := w_out w fd @ bs)" using assms(1) by (simp add: sends_def)
qed

lemma saveProgress_script_nil: "w_script w = [] \<Longrightarrow> w_script (saveProgress w fp off tot) = []"
  using saveProgress_script_le [of w fp off tot] by simp

text \<open>The progress file the client keeps while it sends.\<close>

definition progress_files :: "world \<Rightarrow> string \<Rightarrow> fpath set" where
  "progress_files w dest = {k. resolve w (getProgressFilePath dest) = Some k}"

lemma saveProgress_sends:
  "world_wf w \<Longrightarrow> sends fd [] (progress_files w dest) w (throttle fs (saveProgress w dest off tot))"
proof -
  assume wf: "world_wf w"
  have "file_step (progress_files w dest) w (saveProgress w dest off tot)"
    using saveProgress_step [of w dest off tot] by (simp add: file_step_def progress_files_def)
  then have "file_step (progress_files w dest) w (throttle fs (saveProgress w dest off tot))"
    using file_step_simple(3) file_step_trans by blast
  then show ?thesis using sends_file_step wf by blast
qed

lemma remove_progress_sends:
  assumes wf: "world_wf w" and nd: "\<And>k. resolve w (getProgressFilePath dest) = Some k \<Longrightarrow> \<not> is_dir (w_fs w) k"
  shows "sends fd [] (progress_files w dest) w (snd (sys_remove w (getProgressFilePath dest)))"
proof (cases "resolve w (getProgressFilePath dest)")
  case None
  then show ?thesis
    by (cases rule: sys_remove_cases [of w "getProgressFilePath dest"]) (auto intro: sends_file_step [OF _ wf])
next
  case (Some k)
  with file_step_remove [OF Some nd [OF Some]] show ?thesis
    by (auto simp: progress_files_def intro!: sends_file_step [OF _ wf])
qed

lemma send_file_nominal:
  assumes "world_wf w" "w_script w = []" "tc_connected c" "is_good s" "length (is_rest s) = nat (sz - tr)" "0 \<le> sz - tr"
    and "\<And>k. resolve w (getProgressFilePath dest) = Some k \<Longrightarrow> \<not> is_dir (w_fs w) k"
  shows "\<exists>w'. send_file_loop fs dest sz w c s tr = Some (True, c, w') \<and> w_script w' = []
     \<and> sends (tc_sockfd c) (is_rest s) (progress_files w dest) w w'"
  using assms
proof (induction "length (is_rest s)" arbitrary: w s tr rule: less_induct)
  case less
  show ?case
  proof (cases "is_rest s = []")
    case True
    have "w_script (snd (sys_remove w (getProgressFilePath dest))) = []"
      using less.prems(2) by (cases rule: sys_remove_cases [of w "getProgressFilePath dest"]) auto
    with True less.prems remove_progress_sends [OF less.prems(1,7)] show ?thesis
      by (subst send_file_loop.simps) auto
  next
    case False
    let ?n = "min 4096 (nat (sz - tr))"
    let ?b = "take ?n (is_rest s)"
    let ?s = "\<lparr>is_rest = drop ?n (is_rest s), is_good = True\<rparr>"
    let ?w1 = "emit w (tc_sockfd c) ?b"
    let ?w2 = "throttle fs (saveProgress ?w1 dest (tr + int (length ?b)) sz)"
    have lt: "tr < sz" using less.prems(5) False by (cases "is_rest s") auto
    then have n: "?n \<le> length (is_rest s)" "0 < ?n" "length ?b = ?n" using less.prems(5) by (auto simp: min_def)
    have rd: "ifs_read w s ?n = (?b, ?s, w)" using less.prems(2,4) n by (simp add: ifs_read_def next_ev_nominal)
    have s2: "sends (tc_sockfd c) ?b (progress_files w dest) w ?w2"
      using sends_trans [OF sends_emit saveProgress_sends [of ?w1 "tc_sockfd c" dest fs]] less.prems(1) by (simp add: progress_files_def)
    note d = sendsD [OF s2 less.prems(1)]
    have sc: "w_script ?w2 = []" using less.prems(2) by (simp add: saveProgress_script_nil)
    have eq: "send_file_loop fs dest sz w c s tr = send_file_loop fs dest sz ?w2 c ?s (tr + int (length ?b))"
      using lt rd n less.prems(2,3) False by (subst send_file_loop.simps) (simp add: client_send_nominal)
    have l: "length (is_rest ?s) = nat (sz - (tr + int (length ?b)))" "0 \<le> sz - (tr + int (length ?b))"
      "length (is_rest ?s) < length (is_rest s)" using less.prems(5) n lt by simp_all
    have nd: "\<not> is_dir (w_fs ?w2) k" if "resolve ?w2 (getProgressFilePath dest) = Some k" for k
      using less.prems(7) that unfolding d(2,3) by blast
    have "\<exists>w'. send_file_loop fs dest sz ?w2 c ?s (tr + int (length ?b)) = Some (True, c, w') \<and> w_script w' = []
       \<and> sends (tc_sockfd c) (is_rest ?s) (progress_files ?w2 dest) ?w2 w'"
      by (rule less.hyps [OF l(3) d(1) sc less.prems(3) _ l(1,2) nd]) simp_all
    then obtain w' where w': "send_file_loop fs dest sz ?w2 c ?s (tr + int (length ?b)) = Some (True, c, w')" "w_script w' = []"
      "sends (tc_sockfd c) (is_rest ?s) (progress_files w dest) ?w2 w'" using d(3) by (auto simp: progress_files_def)
    from sends_trans [OF s2 w'(3)] w' eq show ?thesis by simp
  qed
qed

section \<open>A whole client session\<close>

text \<open>The item a task stands for: the record the server decodes, and the bytes of the file.\<close>

definition file_bytes :: "world \<Rightarrow> SyncTask \<Rightarrow> byte list" where
  "file_bytes w t = (if tk_isDirectory t then [] else (case ifs_open w (tk_srcPath t) of None \<Rightarrow> [] | Some d \<Rightarrow> d))"

definition item_of :: "world \<Rightarrow> SyncTask \<Rightarrow> item" where
  "item_of w t = (\<lparr>ss_destPath = tk_destPath t, ss_srcPath = tk_srcPath t, ss_isDirectory = tk_isDirectory t, ss_mode = tk_mode t,
     ss_fileSize = int (length (file_bytes w t))\<rparr>, file_bytes w t)"

text \<open>A file task can be sent: its source is a readable file, small enough not to be handed to the I/O handler.\<close>

definition task_ready :: "world \<Rightarrow> SyncTask \<Rightarrow> bool" where
  "task_ready w t \<longleftrightarrow> tk_isDirectory t \<or> (case resolve w (tk_srcPath t) of None \<Rightarrow> False
     | Some k \<Rightarrow> \<not> w_unreadable w k \<and> (case content w k of None \<Rightarrow> False
         | Some (m, d) \<Rightarrow> \<not> S_ISDIR m \<and> int (length d) < LARGE_FILE_THRESHOLD))"

text \<open>The progress files the client writes are neither directories nor sources of any task.\<close>

definition progress_apart :: "world \<Rightarrow> SyncTask list \<Rightarrow> bool" where
  "progress_apart w ts \<longleftrightarrow> list_all (\<lambda>t. case resolve w (getProgressFilePath (tk_destPath t)) of None \<Rightarrow> True
     | Some k \<Rightarrow> \<not> is_dir (w_fs w) k \<and> list_all (\<lambda>u. resolve w (tk_srcPath u) \<noteq> Some k) ts) ts"

definition all_progress :: "world \<Rightarrow> SyncTask list \<Rightarrow> fpath set" where
  "all_progress w ts = (\<Union>t\<in>set ts. progress_files w (tk_destPath t))"

lemma task_ready_file:
  assumes "task_ready w t" "\<not> tk_isDirectory t"
  shows "ifs_open w (tk_srcPath t) = Some (file_bytes w t)"
    "\<exists>st. getFileStat w (tk_srcPath t) = Some st \<and> st_size st = int (length (file_bytes w t))"
    "int (length (file_bytes w t)) < LARGE_FILE_THRESHOLD"
proof -
  from assms obtain k m d where k: "resolve w (tk_srcPath t) = Some k" "\<not> w_unreadable w k" "content w k = Some (m, d)" "\<not> S_ISDIR m"
    "int (length d) < LARGE_FILE_THRESHOLD"
    by (auto simp: task_ready_def split: option.splits)
  then show o: "ifs_open w (tk_srcPath t) = Some (file_bytes w t)"
    using assms(2) by (simp add: ifs_open_def data_at_content file_bytes_def)
  with k have d: "file_bytes w t = d" by (simp add: ifs_open_def data_at_content)
  show "\<exists>st. getFileStat w (tk_srcPath t) = Some st \<and> st_size st = int (length (file_bytes w t))"
    using k unfolding d by (auto simp: getFileStat_def sys_stat_def content_def stat_of_def)
  show "int (length (file_bytes w t)) < LARGE_FILE_THRESHOLD" using k d by simp
qed

lemma source_kept:
  assumes s: "sends fd bs (all_progress w ts) w w'" and wf: "world_wf w" and p: "progress_apart w ts"
  shows "t \<in> set ts \<Longrightarrow> task_ready w' t = task_ready w t" "t \<in> set ts \<Longrightarrow> item_of w' t = item_of w t"
    "progress_apart w' ts = progress_apart w ts" "all_progress w' us = all_progress w us"
proof -
  note d = sendsD [OF s wf]
  have u: "w_unreadable w' = w_unreadable w" using d(4) by (simp add: env_of_def)
  have k: "content w' k = content w k" if "resolve w (tk_srcPath t) = Some k" "t \<in> set ts" for k t
  proof (rule d(7), rule notI)
    assume "k \<in> all_progress w ts"
    then obtain v where v: "v \<in> set ts" "resolve w (getProgressFilePath (tk_destPath v)) = Some k"
      by (auto simp: all_progress_def progress_files_def)
    from p v(1) have "case resolve w (getProgressFilePath (tk_destPath v)) of None \<Rightarrow> True
       | Some k \<Rightarrow> \<not> is_dir (w_fs w) k \<and> list_all (\<lambda>u. resolve w (tk_srcPath u) \<noteq> Some k) ts"
      by (simp add: progress_apart_def list_all_iff)
    with v(2) that show False by (simp add: list_all_iff)
  qed
  have o: "ifs_open w' (tk_srcPath t) = ifs_open w (tk_srcPath t)" if "t \<in> set ts" for t
    using k [OF _ that] d(3) [of "tk_srcPath t"] u
    by (cases "resolve w (tk_srcPath t)") (simp_all add: ifs_open_def data_at_content)
  show "task_ready w' t = task_ready w t" if "t \<in> set ts"
    using k [OF _ that] d(3) [of "tk_srcPath t"] u
    by (cases "resolve w (tk_srcPath t)") (simp_all add: task_ready_def)
  show "item_of w' t = item_of w t" if "t \<in> set ts" using o [OF that] by (simp add: item_of_def file_bytes_def)
  show "progress_apart w' ts = progress_apart w ts" unfolding progress_apart_def d(2) d(3) ..
  show "all_progress w' us = all_progress w us" by (simp add: all_progress_def progress_files_def d(3))
qed

lemma task_ready_emit [simp]: "task_ready (emit w fd bs) = task_ready w"
  by (rule ext) (unfold task_ready_def emit_simps, rule refl)

lemma progress_emit [simp]:
  "progress_apart (emit w fd bs) ts = progress_apart w ts" "all_progress (emit w fd bs) ts = all_progress w ts"
  unfolding progress_apart_def all_progress_def progress_files_def emit_simps by (rule refl)+

lemma emit_file [simp]: "ifs_open (emit w fd bs) p = ifs_open w p" "getFileStat (emit w fd bs) p = getFileStat w p"
proof -
  show "ifs_open (emit w fd bs) p = ifs_open w p" by (cases "resolve w p") (simp_all add: ifs_open_def data_at_content)
  have "stat_of (emit w fd bs) k i = stat_of w k i" for k i by (simp add: stat_of_def emit_def)
  then show "getFileStat (emit w fd bs) p = getFileStat w p"
    by (cases "resolve w p"; cases "map_of (w_fs w) (the (resolve w p))") (simp_all add: getFileStat_def sys_stat_def)
qed

lemma send_metadata_nominal:
  assumes "w_script w = []" "tc_connected c" "task_ready w t"
  shows "send_metadata t (c, w) = (c, emit w (tc_sockfd c) (enc_task (fst (item_of w t))))"
proof (cases "tk_isDirectory t")
  case True
  with assms show ?thesis
    by (simp add: send_metadata_def client_send_nominal enc_task_def enc_path_def item_of_def)
next
  case False
  with task_ready_file(2) [OF assms(3) False] assms show ?thesis
    by (auto simp: send_metadata_def client_send_nominal enc_task_def enc_path_def item_of_def)
qed

lemma item_of_emit [simp]: "item_of (emit w fd bs) = item_of w"
  by (rule ext) (simp add: item_of_def file_bytes_def)

lemma send_metadata_all:
  assumes "w_script w = []" "tc_connected c" "list_all (task_ready w) ts"
  shows "fold send_metadata ts (c, w) = (c, emit w (tc_sockfd c) (concat (map (\<lambda>t. enc_task (fst (item_of w t))) ts)))"
  using assms
proof (induction ts arbitrary: w)
  case (Cons t ts)
  let ?w = "emit w (tc_sockfd c) (enc_task (fst (item_of w t)))"
  have "list_all (task_ready ?w) ts" using Cons.prems(3) by (simp add: list_all_iff)
  with Cons.IH [of ?w] Cons.prems show ?case by (simp add: send_metadata_nominal)
qed simp

lemma send_content_nominal:
  assumes wf: "world_wf w" and s: "w_script w = []" "tc_connected c" and t: "task_ready w t"
    and p: "\<And>k. resolve w (getProgressFilePath (tk_destPath t)) = Some k \<Longrightarrow> \<not> is_dir (w_fs w) k"
  shows "\<exists>w'. send_content fs fuel evs False t handler (c, w) = Some (True, handler, c, w') \<and> w_script w' = []
     \<and> sends (tc_sockfd c) (item_body (item_of w t)) (progress_files w (tk_destPath t)) w w'"
proof (cases "tk_isDirectory t")
  case True
  with s show ?thesis
    by (simp add: send_content_def client_send_nominal item_body_def item_of_def sends_emit)
next
  case False
  let ?d = "file_bytes w t"
  let ?w2 = "emit w (tc_sockfd c) (enc_off_t 0)"
  note f = task_ready_file [OF t False]
  obtain w' where w': "send_file_loop fs (tk_destPath t) (int (length ?d)) ?w2 c \<lparr>is_rest = ?d, is_good = True\<rparr> 0 = Some (True, c, w')"
    "w_script w' = []" "sends (tc_sockfd c) ?d (progress_files ?w2 (tk_destPath t)) ?w2 w'"
    using send_file_nominal [of ?w2 c "\<lparr>is_rest = ?d, is_good = True\<rparr>" "int (length ?d)" 0 "tk_destPath t" fs] wf s p by auto
  have eq: "send_content fs fuel evs False t handler (c, w) = Some (True, handler, c, w')"
    using f False s w'(1) by (auto simp: send_content_def resume_offset_def client_send_nominal sendFileSync_def)
  have "sends (tc_sockfd c) (enc_off_t 0 @ ?d) (progress_files w (tk_destPath t)) w w'"
    using sends_trans [OF sends_emit w'(3)] by (simp add: progress_files_def)
  with eq w'(2) False show ?thesis by (simp add: item_body_def item_of_def)
qed

text \<open>With a progress file only the rest goes out.\<close>

lemma send_content_resume:
  assumes wf: "world_wf w" and s: "w_script w = []" "tc_connected c" and t: "task_ready w t" "\<not> tk_isDirectory t"
    and l: "loadProgress w (tk_destPath t) = (\<lparr>sp_filePath = tk_destPath t, sp_offset = off, sp_totalSize = tot\<rparr>, w)"
      "0 < off" "0 < tot" "off < int (length (file_bytes w t))"
    and p: "\<And>k. resolve w (getProgressFilePath (tk_destPath t)) = Some k \<Longrightarrow> \<not> is_dir (w_fs w) k"
  shows "\<exists>w'. send_content fs fuel evs True t handler (c, w) = Some (True, handler, c, w') \<and> w_script w' = []
     \<and> sends (tc_sockfd c) (enc_off_t off @ drop (nat off) (file_bytes w t)) (progress_files w (tk_destPath t)) w w'"
proof -
  let ?d = "file_bytes w t"
  let ?s = "\<lparr>is_rest = drop (nat off) ?d, is_good = True\<rparr>"
  let ?w2 = "emit w (tc_sockfd c) (enc_off_t off)"
  note f = task_ready_file [OF t]
  have len: "length ?d - nat off = nat (int (length ?d) - off)" using l(2,4) by simp
  obtain w' where w': "send_file_loop fs (tk_destPath t) (int (length ?d)) ?w2 c ?s off = Some (True, c, w')"
    "w_script w' = []" "sends (tc_sockfd c) (drop (nat off) ?d) (progress_files ?w2 (tk_destPath t)) ?w2 w'"
    using send_file_nominal [of ?w2 c ?s "int (length ?d)" off "tk_destPath t" fs] wf s p l(2,4) len by auto
  have "send_content fs fuel evs True t handler (c, w) = Some (True, handler, c, w')"
    using f t(2) s w'(1) l by (auto simp: send_content_def resume_offset_def client_send_nominal sendFileSync_def)
  moreover have "sends (tc_sockfd c) (enc_off_t off @ drop (nat off) ?d) (progress_files w (tk_destPath t)) w w'"
    using sends_trans [OF sends_emit w'(3)] by (simp add: progress_files_def)
  ultimately show ?thesis using w'(2) by blast
qed

lemma send_contents_nominal:
  assumes "world_wf w" "w_script w = []" "tc_connected c" "list_all (task_ready w) ts" "progress_apart w ts0" "set ts \<subseteq> set ts0"
  shows "\<exists>w'. send_contents fs fuel evs False ts handler (c, w) = Some (True, handler, c, w') \<and> w_script w' = []
     \<and> sends (tc_sockfd c) (concat (map (\<lambda>t. item_body (item_of w t)) ts)) (all_progress w ts0) w w'"
  using assms
proof (induction ts arbitrary: w)
  case Nil
  then show ?case using sends_emit [of "tc_sockfd c" "[]" _ w] by simp
next
  case (Cons t ts)
  have t: "t \<in> set ts0" using Cons.prems(6) by simp
  have nd: "\<not> is_dir (w_fs w) k" if "resolve w (getProgressFilePath (tk_destPath t)) = Some k" for k
    using Cons.prems(5) t that by (auto simp: progress_apart_def list_all_iff)
  have r: "task_ready w t" using Cons.prems(4) by simp
  obtain w1 where w1: "send_content fs fuel evs False t handler (c, w) = Some (True, handler, c, w1)" "w_script w1 = []"
    "sends (tc_sockfd c) (item_body (item_of w t)) (progress_files w (tk_destPath t)) w w1"
    using send_content_nominal [OF Cons.prems(1-3) r nd] by blast
  have s1: "sends (tc_sockfd c) (item_body (item_of w t)) (all_progress w ts0) w w1"
    using w1(3) t by (rule_tac sends_mono) (auto simp: all_progress_def)
  note kept = source_kept [OF s1 Cons.prems(1,5)]
  have r1: "list_all (task_ready w1) ts" and i1: "map (\<lambda>t. item_body (item_of w1 t)) ts = map (\<lambda>t. item_body (item_of w t)) ts"
    using kept(1,2) Cons.prems(4,6) by (auto simp: list_all_iff subset_iff)
  from Cons.IH [OF sendsD(1) [OF s1 Cons.prems(1)] w1(2) Cons.prems(3) r1] kept(3) Cons.prems(5,6)
  obtain w' where w': "send_contents fs fuel evs False ts handler (c, w1) = Some (True, handler, c, w')" "w_script w' = []"
    "sends (tc_sockfd c) (concat (map (\<lambda>t. item_body (item_of w t)) ts)) (all_progress w ts0) w1 w'"
    unfolding i1 kept(4) by auto
  from sends_trans [OF s1 w'(3)] w' w1(1) show ?case by auto
qed

text \<open>The world once the connection stands: \<open>reply\<close> is what the peer will send.\<close>

definition dialled :: "world \<Rightarrow> byte list \<Rightarrow> world" where
  "dialled w reply = w\<lparr>w_open := w_nextfd w # w_open w, w_nextfd := w_nextfd w + 1, w_in := (w_in w)(w_nextfd w := reply)\<rparr>"

lemma dialled_simps [simp]:
  "w_script (dialled w r) = w_script w" "w_out (dialled w r) = w_out w" "w_in (dialled w r) = (w_in w)(w_nextfd w := r)"
  "w_open (dialled w r) = w_nextfd w # w_open w" "w_fs (dialled w r) = w_fs w" "env_of (dialled w r) = env_of w"
  "world_wf (dialled w r) = world_wf w" "content (dialled w r) = content w" "resolve (dialled w r) p = resolve w p"
  "w_unreadable (dialled w r) = w_unreadable w"
  by (simp_all add: dialled_def env_of_def world_wf_def content_def fun_eq_iff resolve_def path_start_def Let_def)

lemma dialled_file [simp]: "ifs_open (dialled w r) p = ifs_open w p"
  by (cases "resolve w p") (simp_all add: ifs_open_def data_at_content)

lemma dialled_tasks [simp]:
  "task_ready (dialled w r) = task_ready w" "item_of (dialled w r) = item_of w"
  "progress_apart (dialled w r) ts = progress_apart w ts" "all_progress (dialled w r) ts = all_progress w ts"
  unfolding fun_eq_iff task_ready_def dialled_simps progress_apart_def
  by (simp_all add: item_of_def file_bytes_def all_progress_def progress_files_def)

lemma connect_nominal:
  assumes "w_script w = []" "0 \<le> w_nextfd w" "inet_pton_ok (cstr host)" "w_peer w (cstr host) (port16 port) = Some reply"
  shows "TcpClient_connect w TcpClient_new host port =
     (True, TcpClient_new\<lparr>tc_sockfd := w_nextfd w, tc_connected := True\<rparr>, dialled w reply)"
  using assms by (simp add: TcpClient_connect_def sys_socket_def sys_connect_def next_ev_nominal dialled_def)

lemma receive_ack_nominal:
  assumes "w_script w = []" "tc_connected c" "0 \<le> tc_sockfd c"
  shows "\<exists>w'. receive_ack (c, w) = (take 3 (w_in w (tc_sockfd c)) = ''ACK'', w') \<and> w_out w' = w_out w \<and> content w' = content w
     \<and> w_open w' = removeAll (tc_sockfd c) (w_open w)"
proof -
  have "take 3 bs = ''ACK'' \<Longrightarrow> min (length bs) 3 = 3" for bs :: string
    by (drule arg_cong [of _ _ length]) simp
  with assms show ?thesis
    by (auto simp: receive_ack_def TcpClient_receive_def sys_recv_def next_ev_nominal read_count_def
      TcpClient_disconnect_def sys_close_def content_def fun_eq_iff)
qed

lemma syncRemote_nominal:
  assumes wf: "world_wf w" and sc: "w_script w = []" and fd: "0 \<le> w_nextfd w"
    and peer: "inet_pton_ok (cstr host)" "w_peer w (cstr host) (port16 port) = Some reply"
    and det: "detectChanges fuel M ord (dialled w reply) srcDir destDir = Some (tasks, dialled w reply)"
    and n: "int (length tasks) < 2 ^ 31" and rdy: "list_all (task_ready w) tasks" and ap: "progress_apart w tasks"
  shows "\<exists>w'. syncRemote fuel M ord fs evs handler w srcDir destDir host port False = Some (take 3 reply = ''ACK'', handler, w')
     \<and> w_out w' = (w_out w)(w_nextfd w := w_out w (w_nextfd w) @ wire (map (item_of w) tasks))
     \<and> w_open w' = removeAll (w_nextfd w) (w_open w)
     \<and> (\<forall>k. k \<notin> all_progress w tasks \<longrightarrow> content w' k = content w k)"
proof -
  let ?fd = "w_nextfd w" and ?w1 = "dialled w reply"
  let ?c = "TcpClient_new\<lparr>tc_sockfd := ?fd, tc_connected := True\<rparr>"
  let ?m = "concat (map (\<lambda>t. enc_task (fst (item_of w t))) tasks)"
  let ?w2 = "emit ?w1 ?fd (CHR 0x00 # enc_int (int (length tasks)) @ ?m)"
  have c: "TcpClient_connect w TcpClient_new host port = (True, ?c, ?w1)" by (rule connect_nominal [OF sc fd peer])
  have i32: "to_int32 (int (length tasks)) = int (length tasks)" using n by (intro to_int32_id) simp_all
  have m: "fold send_metadata tasks (client_send (enc_int (to_int32 (int (length tasks)))) (client_send [CHR 0x00] (?c, ?w1))) = (?c, ?w2)"
    using sc rdy by (simp add: client_send_nominal i32 send_metadata_all list_all_iff)
  obtain w3 where w3: "send_contents fs fuel evs False tasks handler (?c, ?w2) = Some (True, handler, ?c, w3)" "w_script w3 = []"
    "sends ?fd (concat (map (\<lambda>t. item_body (item_of w t)) tasks)) (all_progress ?w2 tasks) ?w2 w3"
    using send_contents_nominal [of ?w2 ?c tasks tasks fs fuel evs handler] wf sc rdy ap
    by auto
  have wf2: "world_wf ?w2" using wf by simp
  note d = sendsD [OF w3(3) wf2]
  obtain w4 where w4: "receive_ack (?c, w3) = (take 3 reply = ''ACK'', w4)" "w_out w4 = w_out w3" "content w4 = content w3"
    "w_open w4 = removeAll ?fd (w_open w3)"
    using receive_ack_nominal [OF w3(2), of ?c] fd d(5) by auto
  have "syncRemote fuel M ord fs evs handler w srcDir destDir host port False = Some (take 3 reply = ''ACK'', handler, w4)"
    unfolding syncRemote_def c det Let_def by (simp add: m w3(1) w4(1) det del: fold_simps)
  moreover have "w_out w4 = (w_out w)(?fd := w_out w ?fd @ wire (map (item_of w) tasks))"
    using w4(2) d(8) by (simp add: wire_def comp_def)
  moreover have "w_open w4 = removeAll ?fd (w_open w)" using w4(4) d(6) by simp
  moreover have "content w4 k = content w k" if "k \<notin> all_progress w tasks" for k
    using d(7) [of k] w4(3) that by (simp add: all_progress_def progress_files_def)
  ultimately show ?thesis by blast
qed

text \<open>Without faults, looking for changes changes nothing.\<close>

lemma collect_entries_same:
  assumes "\<And>p m w r. w_script w = [] \<Longrightarrow> f p (m, w) = Some r \<Longrightarrow> snd r = w"
  shows "w_script (snd mw) = [] \<Longrightarrow> collect_entries f ps mw = Some r \<Longrightarrow> snd r = snd mw"
proof (induction ps arbitrary: mw)
  case (Cons p ps)
  then obtain mw1 where mw1: "f p mw = Some mw1" "collect_entries f ps mw1 = Some r" by (auto split: option.splits)
  then have "snd mw1 = snd mw" using assms [of "snd mw" p "fst mw" mw1] Cons.prems(1) by simp
  with Cons.IH [OF _ mw1(2)] Cons.prems(1) show ?case by simp
qed simp

lemma collectMetadata_same: "w_script w = [] \<Longrightarrow> collectMetadata fuel M w d = Some r \<Longrightarrow> snd r = w"
proof (induction fuel arbitrary: w d r)
  case (Suc n)
  have entry: "snd r = w" if "w_script w = []" "collect_entry M (collectMetadata n M) p (m, w) = Some r" for p m w r
  proof -
    have "snd (calculateMD5 M w p) = w" using md5_loop_nominal [OF that(1), of M]
      by (auto simp: calculateMD5_def split: option.splits prod.splits) (metis snd_conv)
    then show ?thesis using that Suc.IH
      by (fastforce simp: collect_entry_def Let_def split: option.splits prod.splits if_splits)
  qed
  have "snd r = snd (([], w) :: meta_map \<times> world)"
    using collect_entries_same [of "collect_entry M (collectMetadata n M)" "([], w)" "listDirectory w d" r]
      entry Suc.prems by simp
  then show ?case by simp
qed simp

lemma detectChanges_same:
  assumes "w_script w = []" "detectChanges fuel M ord w s d = Some (ts, w')"
  shows "w' = w"
proof -
  from assms(2) obtain m1 w1 m2 where m: "collectMetadata fuel M w s = Some (m1, w1)" "collectMetadata fuel M w1 d = Some (m2, w')"
    by (auto simp: detectChanges_def split: option.splits)
  from collectMetadata_same [OF assms(1) m(1)] have "w1 = w" by simp
  with collectMetadata_same [OF assms(1)] m(2) show ?thesis by fastforce
qed

section \<open>Both ends\<close>

lemma remote_sync_meets_server:
  assumes client: "world_wf w" "w_script w = []" "0 \<le> w_nextfd w" "w_out w (w_nextfd w) = []"
      "inet_pton_ok (cstr host)" "w_peer w (cstr host) (port16 port) = Some ''ACK''"
      "detectChanges fuel M ord (dialled w ''ACK'') srcDir destDir = Some (tasks, dialled w ''ACK'')"
      "int (length tasks) < 2 ^ 31" "list_all (task_ready w) tasks" "progress_apart w tasks"
    and server: "world_wf v" "w_script v = []" "0 \<le> sfd" "w_out v sfd = []" "int maxvec < 2 ^ 63"
      "list_all (\<lambda>t. sendable maxvec (fst (item_of w t))) tasks"
      "list_all (item_ok v (sv_baseDirectory srv)) (map (item_of w) tasks)" "compatible v (sv_baseDirectory srv) (map (item_of w) tasks)"
  shows "\<exists>w' v'. syncRemote fuel M ord fs evs handler w srcDir destDir host port False = Some (True, handler, w')
     \<and> handleClient sfuel pb N maxvec srv sfd (feed v sfd (w_out w' (w_nextfd w))) =
         Some (Got True, srv\<lparr>sv_processedTasks := sv_processedTasks srv + length tasks\<rparr>, v')
     \<and> w_out v' sfd = ''ACK'' \<and> list_all (\<lambda>t. delivered v (sv_baseDirectory srv) v' (item_of w t)) tasks"
proof -
  obtain w' where w': "syncRemote fuel M ord fs evs handler w srcDir destDir host port False = Some (True, handler, w')"
    "w_out w' (w_nextfd w) = wire (map (item_of w) tasks)"
    using syncRemote_nominal [OF client(1-3,5-10), of fs evs handler] client(4) by auto
  let ?v = "feed v sfd (wire (map (item_of w) tasks))"
  have "\<exists>v'. handleClient sfuel pb N maxvec srv sfd ?v =
      Some (Got True, srv\<lparr>sv_processedTasks := sv_processedTasks srv + length (map (item_of w) tasks)\<rparr>, v')
    \<and> list_all (delivered ?v (sv_baseDirectory srv) v') (map (item_of w) tasks)
    \<and> w_out v' = (w_out ?v)(sfd := w_out ?v sfd @ ''ACK'')"
    using handleClient_delivers [of ?v sfd "map (item_of w) tasks" maxvec "sv_baseDirectory srv" srv sfuel pb N] client(8) server
    by (auto simp: list_all_iff)
  then obtain v' where "handleClient sfuel pb N maxvec srv sfd ?v =
      Some (Got True, srv\<lparr>sv_processedTasks := sv_processedTasks srv + length tasks\<rparr>, v')"
    "list_all (delivered v (sv_baseDirectory srv) v') (map (item_of w) tasks)" "w_out v' sfd = ''ACK''"
    using server(4) by auto
  with w' show ?thesis by (auto simp: list_all_iff)
qed

text \<open>One task resumed at both ends: the server holds the first part, the client's progress file says how much.\<close>

lemma resumed_task_completes:
  assumes client: "world_wf w" "w_script w = []" "tc_connected c" "task_ready w t" "\<not> tk_isDirectory t"
      "loadProgress w (tk_destPath t) = (\<lparr>sp_filePath = tk_destPath t, sp_offset = off, sp_totalSize = tot\<rparr>, w)"
      "0 < off" "0 < tot" "off < int (length (file_bytes w t))"
      "\<And>k. resolve w (getProgressFilePath (tk_destPath t)) = Some k \<Longrightarrow> \<not> is_dir (w_fs w) k"
    and server: "world_wf v" "w_script v = []" "base @ tk_destPath t = q @ ''/'' @ n" "plain_path q" "path_free v q" "valid_name n"
      "k = path_key v q @ [n]" "\<not> is_dir (w_fs v) k" "data_at v k = Some (take (nat off) (file_bytes w t))"
  shows "\<exists>w' bs v' m. send_content fs fuel evs True t handler (c, w) = Some (True, handler, c, w')
     \<and> w_out w' (tc_sockfd c) = w_out w (tc_sockfd c) @ bs \<and> length bs = 8 + (length (file_bytes w t) - nat off)
     \<and> handle_task base sfd (feed v sfd (bs @ rest)) (fst (item_of w t)) = (True, v') \<and> w_in v' sfd = rest
     \<and> content v' k = Some (m, file_bytes w t) \<and> perm_bits m = perm_bits (tk_mode t)"
proof -
  let ?d = "file_bytes w t"
  let ?bs = "enc_off_t off @ drop (nat off) ?d"
  have small: "int (length ?d) < LARGE_FILE_THRESHOLD" using task_ready_file(3) [OF client(4,5)] .
  obtain w' where w': "send_content fs fuel evs True t handler (c, w) = Some (True, handler, c, w')"
    "sends (tc_sockfd c) ?bs (progress_files w (tk_destPath t)) w w'"
    using send_content_resume [OF client(1-5,6-10)] by blast
  have "\<exists>v' m. handle_task base sfd (feed v sfd (?bs @ rest)) (fst (item_of w t)) = (True, v') \<and> w_script v' = []
    \<and> serve sfd (enc_off_t off @ drop (nat off) ?d) {k} (path_prefixes (feed v sfd (?bs @ rest)) q) (feed v sfd (?bs @ rest)) v'
    \<and> content v' k = Some (m, take (nat off) ?d @ drop (nat off) ?d) \<and> \<not> S_ISDIR m \<and> perm_bits m = perm_bits (ss_mode (fst (item_of w t)))"
    using server client(5,7,9) small
    by (intro handle_task_data [where r = rest and n = n])
       (simp_all add: item_of_def LARGE_FILE_THRESHOLD_def data_at_content)
  then obtain v' m where v': "handle_task base sfd (feed v sfd (?bs @ rest)) (fst (item_of w t)) = (True, v')"
    "serve sfd ?bs {k} (path_prefixes (feed v sfd (?bs @ rest)) q) (feed v sfd (?bs @ rest)) v'"
    "content v' k = Some (m, ?d)" "perm_bits m = perm_bits (tk_mode t)" by (auto simp: item_of_def)
  have "w_in v' sfd = rest" using serveD(10) [OF v'(2)] by simp
  moreover have "length ?bs = 8 + (length ?d - nat off)" by simp
  moreover have "w_out w' (tc_sockfd c) = w_out w (tc_sockfd c) @ ?bs" using w'(2) by (simp add: sends_def)
  ultimately show ?thesis using w'(1) v' by blast
qed

end
