(* ===== verification/RpcListing.thy ===== *)
theory RpcListing
  imports Rpc
begin

text \<open>
  What a listing sent by the RPC server contains: \<^verbatim>\<open>handleListFiles\<close> and \<^verbatim>\<open>listDirectory\<close> answer with
  one entry for each entry of the directory, at every depth when the request is recursive.
\<close>

section \<open>Directory names that end with a slash\<close>

definition slash_dir :: "world \<Rightarrow> string \<Rightarrow> fpath \<Rightarrow> bool" where
  "slash_dir w p k \<longleftrightarrow> p \<noteq> [] \<and> last p = CHR ''/'' \<and> dir_at w p k"

lemma with_slash_cases: "with_slash s = s \<or> with_slash s = s @ ''/''"
  by (simp add: with_slash_def)

lemma last_with_slash: "s \<noteq> [] \<Longrightarrow> with_slash s \<noteq> [] \<and> last (with_slash s) = CHR ''/''"
  by (simp add: with_slash_def)

lemma with_slash_name: "valid_name n \<Longrightarrow> with_slash (s @ n) = s @ n @ ''/''"
  by (auto simp: with_slash_def valid_name_def dest: last_in_set)

lemma dir_at_slash:
  assumes "dir_at w p k"
  shows "dir_at w (p @ ''/'') k"
proof -
  from assms have p: "p \<noteq> []" "cstr p = p" "walk (w_fs w) (path_start w p) (split_slash p) = Some k" "is_dir (w_fs w) k"
    by (auto simp: dir_at_def resolve_def Let_def cstr_id split: if_splits)
  have "split_slash (p @ ''/'') = split_slash p @ [[]]" using split_slash_append [of p "[]"] by simp
  moreover have "cstr (p @ ''/'') = p @ ''/''" using assms by (simp add: cstr_id dir_at_def)
  moreover have "path_start w (p @ ''/'') = path_start w p" using p(1) by (simp add: path_start_def)
  ultimately show ?thesis
    using p assms by (simp add: dir_at_def resolve_def Let_def walk_snoc)
qed

lemma slash_dir_child:
  assumes d: "slash_dir w p k" and n: "valid_name n"
  shows "resolve w (p @ n) = Some (k @ [n])"
proof -
  obtain q where p: "p = q @ ''/''" using d by (metis slash_dir_def append_butlast_last_id)
  have s: "split_slash p = split_slash q @ [[]]" "split_slash (p @ n) = split_slash q @ [n]"
    using split_slash_append [of q "[]"] split_slash_append [of q n] n
    by (simp_all add: p split_slash_plain valid_name_def)
  from d have k: "cstr p = p" "walk (w_fs w) (path_start w p) (split_slash p) = Some k" "is_dir (w_fs w) k" "p \<noteq> []"
    by (auto simp: slash_dir_def dir_at_def resolve_def Let_def cstr_id split: if_splits)
  have "walk (w_fs w) (path_start w p) (split_slash q) = Some k"
    using k(2) unfolding s(1) walk_snoc by (auto simp: bind_eq_Some_conv split: if_splits)
  moreover have "path_start w (p @ n) = path_start w p" using k(4) by (simp add: path_start_def)
  moreover have "cstr (p @ n) = p @ n" using d n by (auto simp: cstr_id slash_dir_def dir_at_def valid_name_def)
  ultimately show ?thesis using s(2) k(3,4) n by (simp add: resolve_def Let_def walk_snoc valid_name_def)
qed

lemma slash_dir_step:
  assumes "slash_dir w p k" "valid_name n" "is_dir (w_fs w) (k @ [n])"
  shows "slash_dir w (p @ n @ ''/'') (k @ [n])"
proof -
  have "dir_at w (p @ n) (k @ [n])"
    using slash_dir_child [OF assms(1,2)] assms by (auto simp: slash_dir_def dir_at_def valid_name_def)
  from dir_at_slash [OF this] show ?thesis by (simp add: slash_dir_def)
qed

section \<open>Entries and responses\<close>

definition entry_at :: "world \<Rightarrow> string \<Rightarrow> fpath \<Rightarrow> string list \<Rightarrow> FileEntry" where
  "entry_at w full k rel = (let st = stat_of w (k @ rel) (the (map_of (w_fs w) (k @ rel))) in
     \<lparr>fe_name = last rel, fe_path = join (full @ hd rel) (tl rel), fe_is_directory = S_ISDIR (st_mode st),
      fe_size = st_size st, fe_mtime = st_mtime st, fe_mode = st_mode st\<rparr>)"

lemma entry_at_below: "rel \<noteq> [] \<Longrightarrow> entry_at w full k (n # rel) = entry_at w (full @ n @ ''/'') (k @ [n]) rel"
  by (cases rel) (simp_all add: entry_at_def)

definition add_file :: "FileEntry \<Rightarrow> ListFilesResponse \<Rightarrow> ListFilesResponse" where
  "add_file e r = r\<lparr>lr_files := lr_files r @ [e], lr_total_count := to_int32 (lr_total_count r + 1)\<rparr>"

lemma to_int32_step: "to_int32 (to_int32 a + b) = to_int32 (a + b)"
proof -
  let ?m = "2 ^ 32 :: int"
  have "to_int32 a mod ?m = a mod ?m"
    unfolding to_int32_def to_signed_def of_signed_def by (cases "nat (a mod ?m) < 2 ^ (32 - 1)") simp_all
  then have "(to_int32 a + b) mod ?m = (a + b) mod ?m" by (rule mod_add_cong) simp
  then show ?thesis by (simp only: to_int32_def [of "to_int32 a + b"] to_int32_def [of "a + b"] of_signed_def)
qed

lemma add_files [simp]:
  "lr_files (fold add_file es r) = lr_files r @ es" "lr_directory (fold add_file es r) = lr_directory r"
  by (induction es arbitrary: r) (simp_all add: add_file_def)

lemma add_files_count:
  "lr_total_count r = to_int32 c \<Longrightarrow> lr_total_count (fold add_file es r) = to_int32 (c + int (length es))"
proof (induction es arbitrary: r c)
  case (Cons e es)
  have "lr_total_count (add_file e r) = to_int32 (c + 1)" using Cons.prems by (simp add: add_file_def to_int32_step)
  from Cons.IH [OF this] show ?case by (simp add: add.assoc)
qed simp

text \<open>The relative names of what lies below \<open>k\<close>, beginning with a name in \<open>A\<close>; only one level when the
  listing is not recursive.\<close>

definition below :: "world \<Rightarrow> fpath \<Rightarrow> bool \<Rightarrow> string set \<Rightarrow> string list set" where
  "below w k recursive A = {rel. rel \<noteq> [] \<and> hd rel \<in> A \<and> (recursive \<or> length rel = 1) \<and> map_of (w_fs w) (k @ rel) \<noteq> None}"

lemma below_name:
  assumes wf: "fs_wf (w_fs w)" and i: "map_of (w_fs w) (k @ [n]) = Some i"
  shows "below w k r {n} = insert [n] (if r \<and> S_ISDIR (i_mode i) then (\<lambda>rel. n # rel) ` below w (k @ [n]) True UNIV else {})"
proof -
  have d: "S_ISDIR (i_mode i)" if "map_of (w_fs w) (k @ n # rel) = Some j" "rel \<noteq> []" for rel j
    using fs_wf_below [OF wf, of "k @ [n]" rel j] that i by (simp add: is_dir_at)
  have all: "below w (k @ [n]) True UNIV = {rel. rel \<noteq> [] \<and> map_of (w_fs w) (k @ n # rel) \<noteq> None}"
    by (auto simp: below_def)
  have "x \<in> below w k r {n} \<longleftrightarrow> x = [n] \<or> (r \<and> S_ISDIR (i_mode i) \<and> x \<in> (\<lambda>rel. n # rel) ` below w (k @ [n]) True UNIV)" for x
  proof (cases "\<exists>rel. x = n # rel \<and> rel \<noteq> []")
    case True
    then obtain rel where "x = n # rel" "rel \<noteq> []" by blast
    with d [of rel] show ?thesis unfolding all by (auto simp: below_def)
  next
    case False
    with i show ?thesis unfolding all by (cases x) (auto simp: below_def)
  qed
  then show ?thesis by (auto simp: set_eq_iff)
qed

lemma below_union: "below w k r (A \<union> B) = below w k r A \<union> below w k r B"
  by (auto simp: below_def)

text \<open>A listing of these names adds their entries, each once.\<close>

definition lists :: "world \<Rightarrow> string \<Rightarrow> fpath \<Rightarrow> bool \<Rightarrow> string set \<Rightarrow> ListFilesResponse \<Rightarrow> ListFilesResponse option \<Rightarrow> bool" where
  "lists w full k recursive A r r' \<longleftrightarrow>
     (\<exists>rels. distinct rels \<and> set rels = below w k recursive A \<and> r' = Some (fold add_file (map (entry_at w full k) rels) r))"

lemma rpc_list_entries_lists:
  assumes wf: "fs_wf (w_fs w)" and d: "slash_dir w (base @ full) k"
    and rec: "\<And>n r i. recursive \<Longrightarrow> map_of (w_fs w) (k @ [n]) = Some i \<Longrightarrow> S_ISDIR (i_mode i) \<Longrightarrow>
        lists w (full @ n @ ''/'') (k @ [n]) True UNIV r (f (full @ n) r)"
  shows "distinct ns \<Longrightarrow> (\<And>n. n \<in> set ns \<Longrightarrow> map_of (w_fs w) (k @ [n]) \<noteq> None) \<Longrightarrow>
    lists w full k recursive (set ns) r (rpc_list_entries f w base full recursive ns r)"
proof (induction ns arbitrary: r)
  case Nil
  show ?case by (simp add: lists_def below_def)
next
  case (Cons n ns)
  from Cons.prems(2) obtain i where i: "map_of (w_fs w) (k @ [n]) = Some i" by fastforce
  have v: "valid_name n" using fs_wf_below [OF wf i] by (simp add: plain_names_def)
  have st: "sys_stat w (base @ full @ n) = Some (stat_of w (k @ [n]) i)"
    using slash_dir_child [OF d v] i by (simp add: sys_stat_def)
  have e: "entry_at w full k [n] = \<lparr>fe_name = n, fe_path = full @ n, fe_is_directory = S_ISDIR (i_mode i),
      fe_size = st_size (stat_of w (k @ [n]) i), fe_mtime = i_mtime i, fe_mode = i_mode i\<rparr>"
    using i by (simp add: entry_at_def stat_of_def)
  let ?r1 = "add_file (entry_at w full k [n]) r"
  have step: "rpc_list_entries f w base full recursive (n # ns) r =
      (if recursive \<and> S_ISDIR (i_mode i) then (case f (full @ n) ?r1 of None \<Rightarrow> None
         | Some r2 \<Rightarrow> rpc_list_entries f w base full recursive ns r2)
       else rpc_list_entries f w base full recursive ns ?r1)"
    using st v e by (auto simp: valid_name_def add_file_def stat_of_def split: option.splits)
  obtain sub r2 where sub: "distinct sub" "set sub = (if recursive \<and> S_ISDIR (i_mode i) then below w (k @ [n]) True UNIV else {})"
    "r2 = fold add_file (map (entry_at w full k) (map (\<lambda>rel. n # rel) sub)) ?r1"
    "rpc_list_entries f w base full recursive (n # ns) r = rpc_list_entries f w base full recursive ns r2"
  proof (cases "recursive \<and> S_ISDIR (i_mode i)")
    case True
    with rec [of n i ?r1] i obtain rels where rels: "distinct rels" "set rels = below w (k @ [n]) True UNIV"
      "f (full @ n) ?r1 = Some (fold add_file (map (entry_at w (full @ n @ ''/'') (k @ [n])) rels) ?r1)"
      by (auto simp: lists_def)
    have eq: "map (entry_at w full k) (map (\<lambda>rel. n # rel) rels) = map (entry_at w (full @ n @ ''/'') (k @ [n])) rels"
      using rels(2) by (auto simp: below_def entry_at_below)
    have "rpc_list_entries f w base full recursive (n # ns) r = rpc_list_entries f w base full recursive ns
        (fold add_file (map (entry_at w full k) (map (\<lambda>rel. n # rel) rels)) ?r1)"
      unfolding eq step using rels(3) True by simp
    with True rels show ?thesis by (intro that [OF rels(1) _ refl]) simp_all
  next
    case False
    show ?thesis by (rule that [of "[]", OF _ _ refl]) (auto simp: False step simp del: rpc_list_entries.simps)
  qed
  have "lists w full k recursive (set ns) r2 (rpc_list_entries f w base full recursive ns r2)"
    using Cons.prems by (intro Cons.IH) auto
  then obtain rels where rels: "distinct rels" "set rels = below w k recursive (set ns)"
    "rpc_list_entries f w base full recursive ns r2 = Some (fold add_file (map (entry_at w full k) rels) r2)"
    by (auto simp: lists_def)
  let ?all = "([n] # map (\<lambda>rel. n # rel) sub) @ rels"
  have first: "set ([n] # map (\<lambda>rel. n # rel) sub) = below w k recursive {n}"
    using sub(2) by (simp add: below_name [OF wf i])
  have "distinct ([n] # map (\<lambda>rel. n # rel) sub)"
    using sub(1,2) by (auto simp: distinct_map inj_on_def below_def split: if_splits)
  moreover have "below w k recursive {n} \<inter> below w k recursive (set ns) = {}" using Cons.prems(1) by (auto simp: below_def)
  ultimately have "distinct ?all" unfolding distinct_append first using rels(1,2) by simp
  moreover have "set ?all = below w k recursive (set (n # ns))"
    unfolding set_append first using rels(2) below_union [of w k recursive "{n}" "set ns"] by simp
  moreover have "rpc_list_entries f w base full recursive (n # ns) r = Some (fold add_file (map (entry_at w full k) ?all) r)"
    using sub(3,4) rels(3) by simp
  ultimately show ?case unfolding lists_def by blast
qed

lemma listDirectory_lists:
  assumes wf: "fs_wf (w_fs w)"
  shows "slash_dir w (base @ with_slash rel) k \<Longrightarrow> deep_enough fuel w k \<Longrightarrow>
    lists w (with_slash rel) k recursive UNIV r (RpcServer_listDirectory fuel w base rel recursive r)"
proof (induction fuel arbitrary: rel k recursive r)
  case 0
  then obtain i where "map_of (w_fs w) (k @ []) = Some i" by (auto simp: slash_dir_def dir_at_def dest: is_dir_dom)
  with 0 show ?case by (auto simp: deep_enough_def dest: spec [of _ "[]"])
next
  case (Suc fuel)
  let ?full = "with_slash rel" and ?f = "\<lambda>d r. RpcServer_listDirectory fuel w base d recursive r"
  have d: "resolve w (base @ ?full) = Some k" "is_dir (w_fs w) k" using Suc.prems(1) by (auto simp: slash_dir_def dir_at_def)
  note e = entries_props [OF wf d(2)]
  have rec: "lists w (?full @ n @ ''/'') (k @ [n]) True UNIV r' (?f (?full @ n) r')"
    if "recursive" "map_of (w_fs w) (k @ [n]) = Some i" "S_ISDIR (i_mode i)" for n r' i
  proof -
    have v: "valid_name n" using fs_wf_below [OF wf that(2)] by (simp add: plain_names_def)
    have "slash_dir w (base @ ?full @ n @ ''/'') (k @ [n])"
      using slash_dir_step [OF Suc.prems(1) v] that(2,3) by (simp add: is_dir_at)
    moreover have "deep_enough fuel w (k @ [n])"
      using Suc.prems(2) unfolding deep_enough_def by (auto dest: spec [of _ "n # _"])
    ultimately show ?thesis
      using Suc.IH [of "?full @ n" "k @ [n]" True r'] that(1) by (simp add: with_slash_name [OF v])
  qed
  have "lists w ?full k recursive (set (entries (w_fs w) k)) r
      (rpc_list_entries ?f w base ?full recursive (entries (w_fs w) k) r)"
    using e by (intro rpc_list_entries_lists [OF wf Suc.prems(1) rec]) auto
  moreover have "below w k recursive (set (entries (w_fs w) k)) = below w k recursive UNIV"
  proof -
    have "hd x \<in> set (entries (w_fs w) k)" if x: "x \<in> below w k recursive UNIV" for x
    proof -
      obtain n xs where nx: "x = n # xs" using x by (cases x) (auto simp: below_def)
      have "map_of (w_fs w) (k @ [n]) \<noteq> None"
      proof (cases xs)
        case (Cons a as)
        then show ?thesis using x nx fs_wf_below [OF wf, of "k @ [n]" xs] by (fastforce simp: below_def dest: is_dir_dom)
      qed (use x nx in \<open>auto simp: below_def\<close>)
      with e(2) nx show ?thesis by simp
    qed
    then show ?thesis by (auto simp: below_def)
  qed
  ultimately show ?case using d by (simp add: sys_opendir_def lists_def)
qed

lemma entry_path_inj:
  assumes wf: "fs_wf (w_fs w)"
  shows "inj_on (\<lambda>rel. fe_path (entry_at w full k rel)) (below w k recursive A)"
proof (rule inj_onI)
  fix x y assume xy: "x \<in> below w k recursive A" "y \<in> below w k recursive A"
    and eq: "fe_path (entry_at w full k x) = fe_path (entry_at w full k y)"
  have s: "join (full @ hd r) (tl r) = full @ tl (join [] r)" "plain_names r" "r \<noteq> []" if "r \<in> below w k recursive A" for r
    using that fs_wf_below [OF wf] by (cases r; auto simp: below_def join_def)+
  have "join [] r = CHR ''/'' # tl (join [] r)" if "r \<noteq> []" for r using that by (cases r) (auto simp: join_def)
  moreover have "tl (join [] x) = tl (join [] y)" using eq s(1) [OF xy(1)] s(1) [OF xy(2)] by (simp add: entry_at_def Let_def)
  ultimately have "join [] x = join [] y" using s(3) [OF xy(1)] s(3) [OF xy(2)] by metis
  then show "x = y" using join_inject [OF s(2) [OF xy(1)] s(2) [OF xy(2)]] by simp
qed

text \<open>The answer to a request for a directory that exists.\<close>

lemma handleListFiles_lists:
  assumes wf: "fs_wf (w_fs w)" and d: "dir_at w (rs_baseDirectory s @ dir) k" and deep: "deep_enough fuel w k"
    and slash: "last (rs_baseDirectory s @ dir) = CHR ''/'' \<or> dir \<noteq> []"
  shows "\<exists>resp rels. handleListFiles fuel s w \<lparr>lf_directory = dir, lf_recursive = recursive\<rparr> = Some (Some resp)
     \<and> lr_directory resp = dir \<and> lr_files resp = map (entry_at w (with_slash dir) k) rels
     \<and> lr_total_count resp = to_int32 (int (length rels))
     \<and> distinct rels \<and> set rels = below w k recursive UNIV \<and> distinct (map fe_path (lr_files resp))"
proof -
  let ?b = "rs_baseDirectory s" and ?r0 = "\<lparr>lr_files = [], lr_directory = dir, lr_total_count = 0\<rparr>"
  have "dir_at w (?b @ with_slash dir) k" using d dir_at_slash [OF d] with_slash_cases [of dir] by auto
  moreover have "?b @ with_slash dir \<noteq> [] \<and> last (?b @ with_slash dir) = CHR ''/''"
    using slash d last_with_slash [of dir] by (cases "dir = []") (auto simp: with_slash_def dir_at_def resolve_def cstr_def)
  ultimately have "lists w (with_slash dir) k recursive UNIV ?r0 (RpcServer_listDirectory fuel w ?b dir recursive ?r0)"
    by (intro listDirectory_lists [OF wf _ deep]) (simp add: slash_dir_def)
  then obtain rels where rels: "distinct rels" "set rels = below w k recursive UNIV"
    "RpcServer_listDirectory fuel w ?b dir recursive ?r0 = Some (fold add_file (map (entry_at w (with_slash dir) k) rels) ?r0)"
    by (auto simp: lists_def)
  obtain i where i: "map_of (w_fs w) k = Some i" "S_ISDIR (i_mode i)" using d by (auto simp: dir_at_def is_dir_def split: option.splits)
  have "handleListFiles fuel s w \<lparr>lf_directory = dir, lf_recursive = recursive\<rparr> =
      Some (Some (fold add_file (map (entry_at w (with_slash dir) k) rels) ?r0))"
    using d i rels(3) by (simp add: handleListFiles_def sys_stat_def dir_at_def stat_of_def)
  moreover have "lr_total_count (fold add_file (map (entry_at w (with_slash dir) k) rels) ?r0) = to_int32 (int (length rels))"
    using add_files_count [of ?r0 0 "map (entry_at w (with_slash dir) k) rels"] by (simp add: to_int32_id)
  moreover have "distinct (map fe_path (map (entry_at w (with_slash dir) k) rels))"
    using rels(1,2) entry_path_inj [OF wf, of "with_slash dir" k recursive UNIV] by (simp add: distinct_map comp_def)
  ultimately show ?thesis using rels(1,2) by (intro exI [of _ "fold add_file (map (entry_at w (with_slash dir) k) rels) ?r0"] exI [of _ rels]) simp
qed

end
