(* ===== verification/NetProperties.thy ===== *)
theory NetProperties
  imports Samples ClientSession RpcListing
begin

text \<open>
  The properties of the networked half of the program: the RPC sessions and listings, the sync
  protocol seen from the server, from the client and from both, and the paths that do not return.
\<close>

section \<open>Concrete ends\<close>

text \<open>A client's world whose peer answers \<^verbatim>\<open>ACK\<close>, and a server's world with an empty stream.\<close>

definition sample_client :: world where
  "sample_client = (sample_world ''yo'' [])\<lparr>w_peer := (\<lambda>_ _. Some ''ACK'')\<rparr>"

definition sample_server :: world where
  "sample_server = sample_world ''hello'' []"

lemma sample_client_simps [simp]:
  "w_script sample_client = []" "w_nextfd sample_client = 3" "w_out sample_client fd = []" "w_in sample_client fd = []"
  "w_peer sample_client h p = Some ''ACK''"
  by (simp_all add: sample_client_def sample_world_def)

lemma sample_server_simps [simp]:
  "w_script sample_server = []" "w_out sample_server fd = []" "w_in sample_server fd = []"
  by (simp_all add: sample_server_def sample_world_def)

lemma sample_wf [simp]: "world_wf sample_client" "world_wf sample_server"
  using sample_big_wf [of "''yo''" "[]"] sample_big_wf [of "''hello''" "[]"]
  by (simp_all add: sample_client_def sample_server_def world_wf_def)

section \<open>Remote procedure calls\<close>

text \<open>C28: Fed any sequence of well-framed requests, the server's session answers each one, in order, with the frame
  of the response that the request has on this file system, then closes the socket; it reports true
  only when there was no request at all.\<close>

theorem rpc_session:
  assumes "w_script w = []" "list_all (exchange_ok fuel pb M srv w) xs" "w_in w sock = concat (map in_frame xs)"
  shows "handleRpcClient fuel pb M srv sock w = Some (xs = [],
     sys_close (w\<lparr>w_in := (w_in w)(sock := []),
       w_out := (w_out w)(sock := w_out w sock @ concat (map out_frame xs))\<rparr>) sock)"
proof -
  have "w = w\<lparr>w_in := w_in w, w_out := w_out w\<rparr>" by simp
  from rpc_loop_session [OF assms this, of True] show ?thesis by (simp add: handleRpcClient_def)
qed

text \<open>What a file's metadata is does not depend on what is left to read.\<close>

lemma handleGetFileMeta_feed:
  assumes "w_script v = []"
  shows "handleGetFileMeta M srv (feed v fd bs) q = (fst (handleGetFileMeta M srv v q), feed v fd bs)"
proof -
  let ?r = "\<lparr>rq_type = RPC_GET_FILE_META, rq_payload = GetFileMetaOf q\<rparr>"
  let ?m = "handleGetFileMeta M srv v q"
  have a: "rpc_answer 1 M srv v ?r = Some (\<lparr>rp_type = RPC_GET_FILE_META, rp_success = True, rp_error = [],
      rp_payload = GetFileMetaResult (fst ?m)\<rparr>, snd ?m)"
    by (simp add: rpc_answer_def request_get_file_meta_def RPC_LIST_FILES_def RPC_GET_FILE_META_def split: prod.splits)
  have f: "feed v fd bs = v\<lparr>w_in := (w_in v)(fd := bs), w_out := w_out v\<rparr>"
    by (simp add: feed_def)
  from rpc_answer_nominal(2) [OF assms a, where a = "(w_in v)(fd := bs)" and b = "w_out v"]
  show ?thesis unfolding f [symmetric]
    by (simp add: rpc_answer_def request_get_file_meta_def RPC_LIST_FILES_def RPC_GET_FILE_META_def split: prod.splits)
qed

definition sample_question :: RpcRequest where
  "sample_question = \<lparr>rq_type = RPC_GET_FILE_META, rq_payload = GetFileMetaOf \<lparr>gm_file_path = ''s/a''\<rparr>\<rparr>"

definition sample_rpc :: RpcServer where
  "sample_rpc = RpcServer_setBaseDirectory \<lparr>rs_baseDirectory = []\<rparr> ''/''"

definition sample_meta :: GetFileMetaResponse where
  "sample_meta = fst (handleGetFileMeta (md5_of (\<lambda>x. x)) sample_rpc sample_server \<lparr>gm_file_path = ''s/a''\<rparr>)"

definition sample_answer :: RpcResponse where
  "sample_answer = \<lparr>rp_type = RPC_GET_FILE_META, rp_success = True, rp_error = [], rp_payload = GetFileMetaResult sample_meta\<rparr>"

definition sample_pb :: protobuf where
  "sample_pb = \<lparr>pb_ser_request = (\<lambda>_. Some ''ask''), pb_parse_request = (\<lambda>p. if p = ''ask'' then Some sample_question else None),
     pb_ser_response = (\<lambda>_. Some ''answer''), pb_parse_response = (\<lambda>p. if p = ''answer'' then Some sample_answer else None)\<rparr>"

lemma sample_handle: "handleGetFileMeta (md5_of (\<lambda>x. x)) sample_rpc (feed sample_server fd bs) \<lparr>gm_file_path = ''s/a''\<rparr>
    = (sample_meta, feed sample_server fd bs)"
  by (simp add: handleGetFileMeta_feed sample_meta_def)

lemma sample_exchange:
  "exchange_ok 1 sample_pb (md5_of (\<lambda>x. x)) sample_rpc (feed sample_server fd bs) (RPC_GET_FILE_META, ''ask'', sample_answer, ''answer'')"
  by (simp add: exchange_ok_def frame_ok_def sample_pb_def rpc_answer_def sample_question_def sample_answer_def
      request_get_file_meta_def RPC_LIST_FILES_def RPC_GET_FILE_META_def sample_handle)

theorem rpc_session_witness:
  "\<exists>w'. handleRpcClient 1 sample_pb (md5_of (\<lambda>x. x)) sample_rpc 5
      (feed sample_server 5 (rpc_frame RPC_GET_FILE_META ''ask'' @ rpc_frame RPC_GET_FILE_META ''ask'')) = Some (False, w')
    \<and> w_out w' 5 = rpc_frame RPC_GET_FILE_META ''answer'' @ rpc_frame RPC_GET_FILE_META ''answer''"
  using rpc_session [of "feed sample_server 5 (rpc_frame RPC_GET_FILE_META ''ask'' @ rpc_frame RPC_GET_FILE_META ''ask'')" 1 sample_pb
      "md5_of (\<lambda>x. x)" sample_rpc "replicate 2 (RPC_GET_FILE_META, ''ask'', sample_answer, ''answer'')" 5] sample_exchange
  by (simp add: numeral_2_eq_2 in_frame_def out_frame_def sys_close_def) (simp add: sample_answer_def)

text \<open>C14: A remote \<^verbatim>\<open>getFileMeta\<close> returns what \<^verbatim>\<open>handleGetFileMeta\<close> computes on the server: the client's request,
  fed to a server session, makes it send a reply, and that reply makes the client's call return the
  server's answer.  Of the message codec only the two messages exchanged have to survive it.\<close>

theorem rpc_call_is_local:
  assumes client: "w_script w = []" "rc_connected c" and server: "w_script v = []"
    and request: "request = \<lparr>rq_type = RPC_GET_FILE_META, rq_payload = GetFileMetaOf \<lparr>gm_file_path = path\<rparr>\<rparr>"
      "pb_ser_request pb request = Some p" "pb_parse_request pb p = Some request" "frame_ok p"
    and answer: "answer = \<lparr>rp_type = RPC_GET_FILE_META, rp_success = True, rp_error = [],
        rp_payload = GetFileMetaResult (fst (handleGetFileMeta M srv v \<lparr>gm_file_path = path\<rparr>))\<rparr>"
      "pb_ser_response pb answer = Some r" "pb_parse_response pb r = Some answer" "frame_ok r"
  shows "\<exists>question reply v' w'.
     handleRpcClient fuel pb M srv sock (feed v sock question) = Some (False, v') \<and> w_out v' sock = w_out v sock @ reply
     \<and> RpcClient_getFileMeta pb (feed w (rc_sockFd c) reply) c path =
         (Some (fst (handleGetFileMeta M srv v \<lparr>gm_file_path = path\<rparr>)), w')
     \<and> w_out w' (rc_sockFd c) = w_out w (rc_sockFd c) @ question"
proof -
  let ?f = "rpc_frame RPC_GET_FILE_META p"
  let ?e = "(RPC_GET_FILE_META, p, answer, r)"
  have "exchange_ok fuel pb M srv (feed v sock ?f) ?e"
    using request answer
    by (simp add: exchange_ok_def rpc_answer_def handleGetFileMeta_feed [OF server] request_get_file_meta_def
        RPC_LIST_FILES_def RPC_GET_FILE_META_def)
  then have ok: "list_all (exchange_ok fuel pb M srv (feed v sock ?f)) [?e]" by simp
  have v: "feed v sock ?f = (feed v sock ?f)\<lparr>w_in := w_in (feed v sock ?f), w_out := w_out (feed v sock ?f)\<rparr>" by simp
  have "rp_type answer = RPC_GET_FILE_META" using answer(1) by simp
  then have "\<exists>v'. handleRpcClient fuel pb M srv sock (feed v sock ?f) = Some (False, v')
     \<and> w_out v' sock = w_out v sock @ rpc_frame RPC_GET_FILE_META r"
    using rpc_loop_session [OF _ ok _ v, of sock True] server
    by (simp add: handleRpcClient_def in_frame_def out_frame_def sys_close_def)
  then obtain v' where v': "handleRpcClient fuel pb M srv sock (feed v sock ?f) = Some (False, v')"
    "w_out v' sock = w_out v sock @ rpc_frame RPC_GET_FILE_META r" by blast
  let ?w = "feed (w\<lparr>w_out := (w_out w)(rc_sockFd c := w_out w (rc_sockFd c) @ ?f)\<rparr>) (rc_sockFd c) []"
  have "RpcClient_sendRequest pb (feed w (rc_sockFd c) (rpc_frame RPC_GET_FILE_META r)) c p RPC_GET_FILE_META = (Some answer, ?w)"
    using sendRequest_frame [of "feed w (rc_sockFd c) (rpc_frame RPC_GET_FILE_META r)" c p RPC_GET_FILE_META r "[]" pb RPC_GET_FILE_META]
      client request answer by (simp add: feed_def)
  then have "RpcClient_getFileMeta pb (feed w (rc_sockFd c) (rpc_frame RPC_GET_FILE_META r)) c path =
      (Some (fst (handleGetFileMeta M srv v \<lparr>gm_file_path = path\<rparr>)), ?w)"
    using request(1,2) answer(1) by (simp add: RpcClient_getFileMeta_def)
  moreover have "w_out ?w (rc_sockFd c) = w_out w (rc_sockFd c) @ ?f" by simp
  ultimately show ?thesis using v' by blast
qed

theorem rpc_call_is_local_witness:
  "\<exists>question reply v' w'.
     handleRpcClient 1 sample_pb (md5_of (\<lambda>x. x)) sample_rpc 5 (feed sample_server 5 question) = Some (False, v')
     \<and> w_out v' 5 = w_out sample_server 5 @ reply
     \<and> RpcClient_getFileMeta sample_pb (feed sample_client 3 reply) \<lparr>rc_sockFd = 3, rc_connected = True\<rparr> ''s/a'' =
         (Some sample_meta, w')
     \<and> w_out w' 3 = w_out sample_client 3 @ question"
proof -
  have "pb_parse_request sample_pb ''ask'' = Some sample_question" "pb_parse_response sample_pb ''answer'' = Some sample_answer"
    "pb_ser_request sample_pb sample_question = Some ''ask''" "pb_ser_response sample_pb sample_answer = Some ''answer''"
    "frame_ok ''ask''" "frame_ok ''answer''"
    by (simp_all add: sample_pb_def frame_ok_def)
  with rpc_call_is_local [of sample_client "\<lparr>rc_sockFd = 3, rc_connected = True\<rparr>" sample_server sample_question "''s/a''" sample_pb "''ask''"
      sample_answer "md5_of (\<lambda>x. x)" sample_rpc "''answer''" 1 5]
  show ?thesis by (simp add: sample_question_def sample_answer_def sample_meta_def)
qed

text \<open>C29: A listing of a directory that exists is exact: with enough fuel for its depth it has one entry for each
  entry of the directory, at every depth when the request is recursive, each with its own path and the
  metadata of the file system, and the total is their number as a 32-bit integer.\<close>

theorem rpc_listing_exact:
  assumes "fs_wf (w_fs w)" "s = RpcServer_setBaseDirectory s0 base" "base \<noteq> []"
    and "dir_at w (rs_baseDirectory s @ dir) k" "deep_enough fuel w k"
  shows "\<exists>resp rels. handleListFiles fuel s w \<lparr>lf_directory = dir, lf_recursive = recursive\<rparr> = Some (Some resp)
     \<and> lr_directory resp = dir \<and> lr_files resp = map (entry_at w (with_slash dir) k) rels
     \<and> lr_total_count resp = to_int32 (int (length rels)) \<and> distinct (map fe_path (lr_files resp))
     \<and> distinct rels \<and> set rels = {rel. rel \<noteq> [] \<and> (recursive \<or> length rel = 1) \<and> map_of (w_fs w) (k @ rel) \<noteq> None}"
proof -
  have "last (rs_baseDirectory s @ dir) = CHR ''/'' \<or> dir \<noteq> []"
    using assms(2,3) last_with_slash [of base] by (cases "dir = []") (simp_all add: RpcServer_setBaseDirectory_def)
  from handleListFiles_lists [OF assms(1,4,5) this, of recursive] show ?thesis by (auto simp: below_def)
qed

theorem rpc_listing_exact_witness:
  "\<exists>resp rels. handleListFiles 5 sample_rpc sample_server \<lparr>lf_directory = ''s'', lf_recursive = True\<rparr> = Some (Some resp)
     \<and> lr_files resp = map (entry_at sample_server ''s/'' [''s'']) rels \<and> distinct rels
     \<and> set rels = {[''a''], [''d''], [''d'', ''b'']}"
proof -
  have wf: "fs_wf (w_fs sample_server)" using sample_big_wf by (simp add: world_wf_def sample_server_def)
  have d: "dir_at sample_server (rs_baseDirectory sample_rpc @ ''s'') [''s'']" "with_slash ''s'' = ''s/''" by code_simp+
  have l: "length p < 5" if "map_of (w_fs sample_server) p \<noteq> None" for p
    using that by (auto simp: sample_fs_def sample_server_def split: if_splits)
  have e: "deep_enough 5 sample_server [''s'']"
    unfolding deep_enough_def using l [of "[''s''] @ _"] by fastforce
  have "{rel. rel \<noteq> [] \<and> (True \<or> length rel = 1) \<and> map_of (w_fs sample_server) ([''s''] @ rel) \<noteq> None}
      = {[''a''], [''d''], [''d'', ''b'']}"
    by (auto simp: sample_server_def sample_fs_def split: if_splits)
  with rpc_listing_exact [OF wf sample_rpc_def _ d(1) e, of True] d(2) show ?thesis by auto
qed
section \<open>The server's side of the sync protocol\<close>

text \<open>C20: What the client writes for the metadata of its tasks, the server reads back as the same list of tasks,
  and it leaves what follows on the stream untouched.\<close>

theorem task_metadata_roundtrip:
  assumes "w_script w = []" "tc_connected c" "list_all (task_ready w) tasks" "w_script v = []"
    and "list_all (\<lambda>t. sendable maxvec (fst (item_of w t))) tasks" "int maxvec < 2 ^ 63"
  shows "\<exists>bs. fold send_metadata tasks (c, w) = (c, emit w (tc_sockfd c) bs)
     \<and> (\<forall>rest. receiveTaskMetadata maxvec fd (feed v fd (bs @ rest)) (int (length tasks)) =
          (Got (map (\<lambda>t. fst (item_of w t)) tasks), feed v fd rest))"
proof (intro exI conjI allI)
  let ?ts = "map (\<lambda>t. fst (item_of w t)) tasks"
  show "fold send_metadata tasks (c, w) = (c, emit w (tc_sockfd c) (concat (map enc_task ?ts)))"
    using send_metadata_all [OF assms(1-3)] by (simp add: comp_def)
  show "receiveTaskMetadata maxvec fd (feed v fd (concat (map enc_task ?ts) @ rest)) (int (length tasks)) = (Got ?ts, feed v fd rest)" for rest
    using receive_tasks_enc [of "feed v fd (concat (map enc_task ?ts) @ rest)" fd ?ts rest maxvec] assms(4-6)
    by (simp add: receiveTaskMetadata_def list_all_iff)
qed

definition sample_tasks :: "SyncTask list" where
  "sample_tasks = [\<lparr>tk_srcPath = ''/s/d/b'', tk_destPath = ''/t/b'', tk_isDirectory = False, tk_mode = 0x81A4\<rparr>]"

lemma sample_ready: "list_all (task_ready sample_client) sample_tasks"
  by code_simp

lemma sample_items: "map (item_of sample_client) sample_tasks =
    [(\<lparr>ss_destPath = ''/t/b'', ss_srcPath = ''/s/d/b'', ss_isDirectory = False, ss_mode = 0x81A4, ss_fileSize = 2\<rparr>, ''yo'')]"
  by code_simp

lemma sample_sendable: "list_all (\<lambda>t. sendable 1000 (fst (item_of sample_client t))) sample_tasks"
proof -
  have "list_all (\<lambda>it. sendable 1000 (fst it)) (map (item_of sample_client) sample_tasks)"
    unfolding sample_items by (simp add: sendable_def path_sendable_def)
  then show ?thesis by (simp add: list_all_iff)
qed

theorem task_metadata_roundtrip_witness:
  "\<exists>bs. receiveTaskMetadata 1000 5 (feed sample_server 5 (bs @ ''rest'')) 1 =
     (Got [\<lparr>ss_destPath = ''/t/b'', ss_srcPath = ''/s/d/b'', ss_isDirectory = False, ss_mode = 0x81A4, ss_fileSize = 2\<rparr>],
      feed sample_server 5 ''rest'')"
proof -
  have "map (\<lambda>t. fst (item_of sample_client t)) sample_tasks =
    [\<lparr>ss_destPath = ''/t/b'', ss_srcPath = ''/s/d/b'', ss_isDirectory = False, ss_mode = 0x81A4, ss_fileSize = 2\<rparr>]"
    using arg_cong [OF sample_items, of "map fst"] by (simp add: comp_def)
  moreover have "length sample_tasks = 1" by (simp add: sample_tasks_def)
  ultimately show ?thesis
    using task_metadata_roundtrip [of sample_client "TcpClient_new\<lparr>tc_connected := True\<rparr>" sample_tasks sample_server 1000 5]
      sample_ready sample_sendable by (simp, fast)
qed

text \<open>C11: Whatever the kernel does, \<^verbatim>\<open>receiveFileData\<close> changes no file but the destination; when it reports success
  the destination holds the bytes just taken from the stream, as many as the announced size demands,
  after the old content when the transfer was resumed.\<close>

theorem received_file_exact:
  assumes "receiveFileData base fd w t off = (ok, w')"
    and "world_wf w" "resolve w (base @ ss_destPath t) = Some k" "\<not> is_dir (w_fs w) k"
  shows "\<exists>cs. w_in w fd = cs @ w_in w' fd \<and> (\<forall>p. p \<noteq> k \<longrightarrow> content w' p = content w p)
     \<and> (ok \<longrightarrow> length cs = nat (ss_fileSize t - start_offset w k off)
           \<and> data_at w' k = Some ((if start_offset w k off > 0 then old_bytes w k else []) @ cs))"
proof -
  from receiveFileData_facts [OF assms] obtain cs where cs: "serve fd cs {k} {} w w'"
    "ok \<longrightarrow> length cs = nat (ss_fileSize t - start_offset w k off)
        \<and> data_at w' k = Some ((if start_offset w k off > 0 then old_bytes w k else []) @ cs)" by blast
  with serveD(8) [OF cs(1)] serveD(10) [OF cs(1)] show ?thesis by auto
qed

definition sample_item :: ServerSyncTask where
  "sample_item = \<lparr>ss_destPath = ''/t'', ss_srcPath = ''/s/a'', ss_isDirectory = False, ss_mode = 0x81A4, ss_fileSize = 5\<rparr>"

lemma sample_dest: "resolve (feed sample_server fd bs) ([] @ ss_destPath sample_item) = Some [''t'']"
    "\<not> is_dir (w_fs (feed sample_server fd bs)) [''t'']"
  by (simp_all add: feed_def sample_item_def resolve_def cstr_def path_start_def sample_server_def sample_world_def sample_defs)

theorem received_file_exact_witness:
  "\<exists>w'. receiveFileData [] 5 (feed sample_server 5 ''hello!'') sample_item 0 = (True, w') \<and> data_at w' [''t''] = Some ''hello''"
proof -
  obtain ok w' where r: "receiveFileData [] 5 (feed sample_server 5 ''hello!'') sample_item 0 = (ok, w')" by fastforce
  have ok using receiveFileData_facts [OF r] sample_dest [of 5 "''hello!''"] by (auto simp: start_offset_def sample_item_def)
  then have w': "receiveFileData [] 5 (feed sample_server 5 ''hello!'') sample_item 0 = (True, w')" using r by simp
  from received_file_exact [OF w'] sample_dest [of 5 "''hello!''"] obtain cs where
    cs: "''hello!'' = cs @ w_in w' 5" "length cs = 5" "data_at w' [''t''] = Some cs"
    by (auto simp: start_offset_def sample_item_def)
  from arg_cong [OF cs(1), of "take 5"] cs(2) have "cs = ''hello''" by simp
  with cs(3) w' show ?thesis by simp
qed

text \<open>C32: A resume offset that is not the size the destination has on the server makes the server start over and
  wait for the whole file: with only the rest of it on the stream the transfer fails.\<close>

theorem stale_resume_fails:
  assumes "receiveFileData base fd w t off = (ok, w')"
    and "world_wf w" "resolve w (base @ ss_destPath t) = Some k" "\<not> is_dir (w_fs w) k"
    and "0 < off" "int (length (old_bytes w k)) \<noteq> off" "int (length (w_in w fd)) = ss_fileSize t - off"
  shows "\<not> ok"
proof
  assume ok: ok
  from receiveFileData_facts [OF assms(1-4)] ok obtain cs where cs: "serve fd cs {k} {} w w'"
    "length cs = nat (ss_fileSize t - start_offset w k off)" by blast
  from serveD(10) [OF cs(1)] have "length cs \<le> length (w_in w fd)" by simp
  with cs(2) assms(5-7) show False by (simp add: start_offset_def)
qed

theorem stale_resume_fails_witness:
  "fst (receiveFileData [] 5 (feed sample_server 5 ''llo'') sample_item 2) = False"
proof -
  let ?r = "receiveFileData [] 5 (feed sample_server 5 ''llo'') sample_item 2"
  have "old_bytes (feed sample_server 5 ''llo'') [''t''] = []"
    by (simp add: old_bytes_def feed_def data_at_def sample_server_def sample_world_def sample_defs)
  with stale_resume_fails [of "[]" 5 "feed sample_server 5 ''llo''" sample_item 2 "fst ?r" "snd ?r"] sample_dest [of 5 "''llo''"]
  show ?thesis by (simp add: sample_item_def)
qed

text \<open>C19: However a session ends, by success, by a broken stream or by a kernel fault, its socket is closed, except
  when an exception leaves the handler: then the socket stays open.\<close>

theorem session_closes_socket:
  assumes "handleClient fuel pb M maxvec s fd w = Some (res, s', w')" "fd \<ge> 0"
  shows "w_open w' = (case res of Threw \<Rightarrow> w_open w | _ \<Rightarrow> removeAll fd (w_open w))"
  by (rule handleClient_sockets [OF assms])

theorem session_closes_socket_witness:
  "\<exists>w'. handleClient 1 sample_pb (md5_of (\<lambda>x. x)) 10 SyncServer_new 5
       (feed (sample_server\<lparr>w_open := [5]\<rparr>) 5 [CHR 0x07]) = Some (Got False, SyncServer_new, w') \<and> w_open w' = []"
proof -
  let ?r = "handleClient 1 sample_pb (md5_of (\<lambda>x. x)) 10 SyncServer_new 5 (feed (sample_server\<lparr>w_open := [5]\<rparr>) 5 [CHR 0x07])"
  have "receiveBytes 5 (feed (sample_server\<lparr>w_open := [5]\<rparr>) 5 [CHR 0x07]) 1 = (Some [CHR 0x07], feed (sample_server\<lparr>w_open := [5]\<rparr>) 5 [])"
    using receiveBytes_feed [of "feed (sample_server\<lparr>w_open := [5]\<rparr>) 5 [CHR 0x07]" 5 "[CHR 0x07]" "[]" 1] by simp
  then obtain w' where "?r = Some (Got False, SyncServer_new, w')" by (simp add: handleClient_def)
  with session_closes_socket [OF this] show ?thesis by (auto simp: sample_server_def sample_world_def)
qed

text \<open>A sync session answers once: it returns true after sending \<^verbatim>\<open>ACK\<close>, or the part of it that the kernel took,
  and false after \<^verbatim>\<open>NAK\<close>; only an exception leaves the client without an answer.\<close>

theorem ack_tells_result:
  assumes "handle_sync maxvec s fd w = (res, s', w')" "fd \<ge> 0"
  shows "case res of
       Got b \<Rightarrow> w_open w' = removeAll fd (w_open w)
         \<and> (\<exists>n\<le>3. w_out w' = (w_out w)(fd := w_out w fd @ take n (if b then ''ACK'' else ''NAK'')))
     | Lost \<Rightarrow> False
     | Threw \<Rightarrow> w_open w' = w_open w \<and> w_out w' = w_out w"
  using handle_sync_end [OF assms] by (simp add: session_end_def)

theorem ack_tells_result_witness:
  "\<exists>w' n. handle_sync 10 SyncServer_new 5 (feed sample_server 5 ''xy'') = (Got False, SyncServer_new, w')
     \<and> w_out w' 5 = take n ''NAK''"
proof -
  let ?v = "feed sample_server 5 ''xy''"
  obtain v1 where "receiveBytes 5 ?v 4 = (None, v1)" using server_reader.rd_short [of ?v 5 4] by auto
  then have "handle_sync 10 SyncServer_new 5 ?v = (Got False, SyncServer_new, nak_and_close 5 v1)"
    by (simp add: handle_sync_def receiveInt_def)
  with ack_tells_result [OF this] show ?thesis by auto
qed

text \<open>C7: A well-formed stream from a client is carried out: the session succeeds, counts its tasks, acknowledges and
  closes, every directory exists, every file has the bytes and permission bits sent, and nothing
  else changes but missing parent directories.\<close>

theorem server_delivers:
  assumes "world_wf w" "w_script w = []" "w_in w fd = wire its" "fd \<ge> 0"
    and "int (length its) < 2 ^ 31" "int maxvec < 2 ^ 63" "list_all (\<lambda>it. sendable maxvec (fst it)) its"
    and "base = sv_baseDirectory srv" "list_all (item_ok w base) its" "compatible w base its"
  shows "\<exists>w'. handleClient fuel pb M maxvec srv fd w =
      Some (Got True, srv\<lparr>sv_processedTasks := sv_processedTasks srv + length its\<rparr>, w')
    \<and> list_all (delivered w base w') its
    \<and> w_out w' = (w_out w)(fd := w_out w fd @ ''ACK'') \<and> w_open w' = removeAll fd (w_open w)
    \<and> (\<forall>p. p \<notin> (\<Union>it\<in>set its. file_keys w base it) \<and> p \<notin> (\<Union>it\<in>set its. path_prefixes w (dir_path base (fst it)))
         \<longrightarrow> content w' p = content w p)"
  by (rule handleClient_delivers [OF assms])

definition sample_srv :: SyncServer where
  "sample_srv = SyncServer_setBaseDirectory SyncServer_new ''/srv''"

lemma sample_base: "sv_baseDirectory sample_srv = ''/srv/''" "sv_processedTasks sample_srv = 0"
  by (simp_all add: sample_srv_def SyncServer_setBaseDirectory_def SyncServer_new_def with_slash_def)

definition sample_its :: "item list" where
  "sample_its = [(\<lparr>ss_destPath = ''/t/d'', ss_srcPath = ''/s/d'', ss_isDirectory = True, ss_mode = 0x41ED, ss_fileSize = 0\<rparr>, []),
     (\<lparr>ss_destPath = ''/t/d/b'', ss_srcPath = ''/s/d/b'', ss_isDirectory = False, ss_mode = 0x81A4, ss_fileSize = 2\<rparr>, ''yo'')]"

lemma sample_its_ok: "list_all (item_ok sample_server ''/srv/'') sample_its" "compatible sample_server ''/srv/'' sample_its"
  by code_simp+

theorem server_delivers_witness:
  "\<exists>w'. handleClient 1 sample_pb (md5_of (\<lambda>x. x)) 1000 sample_srv 5 (feed sample_server 5 (wire sample_its)) =
      Some (Got True, sample_srv\<lparr>sv_processedTasks := 2\<rparr>, w') \<and> w_out w' 5 = ''ACK''
     \<and> list_all (delivered sample_server ''/srv/'' w') sample_its"
proof -
  have "list_all (\<lambda>it. sendable 1000 (fst it)) sample_its" "length sample_its = 2"
    by (simp_all add: sample_its_def sendable_def path_sendable_def)
  with server_delivers [of "feed sample_server 5 (wire sample_its)" 5 sample_its 1000 "''/srv/''" sample_srv 1 sample_pb "md5_of (\<lambda>x. x)"]
    sample_its_ok sample_base
  show ?thesis by auto
qed

section \<open>The client's side and both ends\<close>


lemma sample_detect:
  "detectChanges 3 (md5_of (\<lambda>x. x)) rev (dialled sample_client ''ACK'') ''/s/d'' ''/t'' = Some (sample_tasks, dialled sample_client ''ACK'')"
proof -
  have "map_option fst (detectChanges 3 (md5_of (\<lambda>x. x)) rev (dialled sample_client ''ACK'') ''/s/d'' ''/t'') = Some sample_tasks"
    by code_simp
  then obtain w' where w': "detectChanges 3 (md5_of (\<lambda>x. x)) rev (dialled sample_client ''ACK'') ''/s/d'' ''/t'' = Some (sample_tasks, w')"
    by auto
  from detectChanges_same [OF _ this] w' show ?thesis by simp
qed

lemma sample_apart: "progress_apart sample_client sample_tasks"
  by code_simp

lemma sample_host: "inet_pton_ok (cstr ''10.0.0.1'')"
  by code_simp

lemmas sample_dial = sample_wf(1) sample_client_simps(1) sample_host sample_detect sample_ready sample_apart



lemma sample_items_ok: "list_all (item_ok sample_server ''/srv/'') (map (item_of sample_client) sample_tasks)"
  "compatible sample_server ''/srv/'' (map (item_of sample_client) sample_tasks)"
  unfolding sample_items by code_simp+


text \<open>C24: A file whose first part the server already has is completed by a resumed transfer: the client takes
  the offset from its progress file and sends it with the rest of the bytes only; the server appends
  them, leaves the stream at the next task, and ends with the client's whole file and its
  permission bits.\<close>

theorem resumed_file_completes:
  assumes "world_wf w" "w_script w = []" "tc_connected c" "task_ready w t" "\<not> tk_isDirectory t"
    and "loadProgress w (tk_destPath t) = (\<lparr>sp_filePath = tk_destPath t, sp_offset = off, sp_totalSize = tot\<rparr>, w)"
      "0 < off" "0 < tot" "off < int (length (file_bytes w t))"
    and "\<And>k. resolve w (getProgressFilePath (tk_destPath t)) = Some k \<Longrightarrow> \<not> is_dir (w_fs w) k"
    and "world_wf v" "w_script v = []" "base @ tk_destPath t = q @ ''/'' @ n" "plain_path q" "path_free v q" "valid_name n"
      "k = path_key v q @ [n]" "\<not> is_dir (w_fs v) k" "data_at v k = Some (take (nat off) (file_bytes w t))"
  shows "\<exists>w' bs v' m. send_content fs fuel evs True t handler (c, w) = Some (True, handler, c, w')
     \<and> w_out w' (tc_sockfd c) = w_out w (tc_sockfd c) @ bs \<and> length bs = 8 + (length (file_bytes w t) - nat off)
     \<and> handle_task base sfd (feed v sfd (bs @ rest)) (fst (item_of w t)) = (True, v') \<and> w_in v' sfd = rest
     \<and> content v' k = Some (m, file_bytes w t) \<and> perm_bits m = perm_bits (tk_mode t)"
  by (rule resumed_task_completes [OF assms])

definition half_task :: SyncTask where
  "half_task = \<lparr>tk_srcPath = ''/s/a'', tk_destPath = ''/s/z'', tk_isDirectory = False, tk_mode = 0x81A4\<rparr>"

definition half_client :: world where
  "half_client = sample_client\<lparr>w_fs := sample_fs ''yo'' @ [([''s'', ''z.sync_progress''], sample_file (progress_text ''/s/z'' 1 2))]\<rparr>"

definition half_server :: world where
  "half_server = sample_server\<lparr>w_fs := sample_fs ''hello'' @ [([''s'', ''z''], sample_file ''h'')]\<rparr>"

lemma half_wf: "world_wf half_client" "world_wf half_server"
  by (simp_all add: half_client_def half_server_def sample_client_def sample_server_def world_wf_def fs_wf_def valid_name_def
    sample_world_def sample_defs)

lemma half_ready: "task_ready half_client half_task" "file_bytes half_client half_task = ''hi''"
  "resolve half_client (getProgressFilePath ''/s/z'') = Some [''s'', ''z.sync_progress'']"
  "plain_path ''/s''" "path_free half_server ''/s''" "path_key half_server ''/s'' = [''s'']"
  "\<not> is_dir (w_fs half_server) [''s'', ''z'']" "data_at half_server [''s'', ''z''] = Some ''h''"
  by code_simp+

lemma half_progress: "loadProgress half_client ''/s/z'' = (\<lparr>sp_filePath = ''/s/z'', sp_offset = 1, sp_totalSize = 2\<rparr>, half_client)"
proof (rule loadProgress_nominal [OF _ half_ready(3)])
  show "data_at half_client [''s'', ''z.sync_progress''] = Some (progress_text ''/s/z'' 1 2)"
    by (simp add: half_client_def data_at_def sample_fs_def sample_file_def S_ISDIR_def S_IFMT_def S_IFDIR_def)
  show "list_all (\<lambda>c. \<not> is_space c) ''/s/z''" by code_simp
qed (simp_all add: half_client_def sample_client_def)

theorem resumed_file_completes_witness:
  "\<exists>w' bs v' m. send_content FileSync_new 9 [] True half_task None (TcpClient_new\<lparr>tc_connected := True\<rparr>, half_client) =
       Some (True, None, TcpClient_new\<lparr>tc_connected := True\<rparr>, w')
     \<and> length bs = 9 \<and> handle_task [] 5 (feed half_server 5 (bs @ ''next'')) (fst (item_of half_client half_task)) = (True, v')
     \<and> w_in v' 5 = ''next'' \<and> content v' [''s'', ''z''] = Some (m, ''hi'') \<and> perm_bits m = perm_bits 0x81A4"
proof -
  have nd: "\<not> is_dir (w_fs half_client) k" if "resolve half_client (getProgressFilePath ''/s/z'') = Some k" for k
    using that half_ready(3) by (auto simp: is_dir_def half_client_def sample_fs_def sample_file_def S_ISDIR_def S_IFMT_def S_IFDIR_def)
  have v: "valid_name ''z''" by code_simp
  have s: "w_script half_client = []" "w_script half_server = []" "w_out half_client fd = []" for fd
    by (simp_all add: half_client_def half_server_def sample_client_def sample_server_def sample_world_def)
  have t: "\<not> tk_isDirectory half_task" "tk_destPath half_task = ''/s/z''" "tk_mode half_task = 0x81A4"
    by (simp_all add: half_task_def)
  show ?thesis
    using resumed_file_completes [of half_client "TcpClient_new\<lparr>tc_connected := True\<rparr>" half_task 1 2 half_server "[]" "''/s''" "''z''"
      "[''s'', ''z'']" FileSync_new 9 "[]" None 5 "''next''"] half_wf half_ready half_progress nd v s t
    by (simp, fast)
qed

section \<open>Calls that never return\<close>

text \<open>C33: When a block cannot be read before the end of the file, \<^verbatim>\<open>sendFileSync\<close> never returns: the stream stays
  bad, reads deliver nothing and the loop waits for bytes.\<close>

theorem send_stuck_on_read_error:
  assumes "ev1 w = Fail" "ifs_open w src = Some d" "off < int (length d)"
  shows "sendFileSync fs w src dest c off = None"
  by (rule read_error_never_returns [OF assms])

lemma sample_open: "ifs_open (sample_world big sc) ''/s/d/b'' = Some big"
  using sample_big_resolve(1) [of big sc] by (simp add: ifs_open_def data_at_def sample_defs)

theorem send_stuck_on_read_error_witness:
  "sendFileSync FileSync_new (sample_world ''yo'' [Fail]) ''/s/d/b'' ''/t'' TcpClient_new 0 = None"
  by (rule send_stuck_on_read_error [OF _ sample_open]) (simp_all add: ev1_def)

text \<open>C27: A file longer than one buffer is never finished by \<^verbatim>\<open>sendFileViaAsyncIO\<close>: the write callback registers the
  descriptor again while it is still watched, which epoll refuses, and then takes it out, so that the
  caller waits for ever, whatever events the I/O thread sees.\<close>

theorem async_send_stuck:
  assumes "AsyncIOHandler_isRunning h" "ah_interest h sock = None" "ah_writeCallbacks h = (\<lambda>_. None)"
    and "getFileStat w src \<noteq> None" "ifs_open w src = Some d" "8192 < length d"
    and "list_all (\<lambda>e. e \<noteq> Fail) (w_script w)"
  shows "sendFileViaAsyncIO fuel evs (Some h) w src sock = None"
  by (rule async_send_waits_forever [OF assms])

theorem async_send_stuck_witness:
  "sendFileViaAsyncIO 9 [\<lparr>ie_fd = 7, ie_in = False, ie_out = True\<rparr>, \<lparr>ie_fd = 7, ie_in = False, ie_out = True\<rparr>]
     (Some (AsyncIOHandler_start (AsyncIOHandler_new 3))) (sample_world (replicate 8193 CHR ''x'') [Nominal]) ''/s/d/b'' 7 = None"
proof (rule async_send_stuck [OF _ _ _ _ sample_open])
  show "getFileStat (sample_world (replicate 8193 CHR ''x'') [Nominal]) ''/s/d/b'' \<noteq> None"
    using sample_big_resolve(1) [of "replicate 8193 CHR ''x''" "[Nominal]"] by (simp add: getFileStat_def sys_stat_def sample_defs)
qed (simp_all add: AsyncIOHandler_isRunning_def AsyncIOHandler_start_def AsyncIOHandler_new_def)

end
