(* ===== verification/ThreadPool.thy ===== *)
theory ThreadPool
  imports Prelude "HOL-Library.Multiset"
begin

text \<open>
  The thread pool of \<^verbatim>\<open>src/thread/ThreadPool.cpp\<close> as a step relation.  Every worker is at one point of
  \<^verbatim>\<open>workerThread\<close>; the mutex is held by the worker that is testing the wait condition or about to block.
  \<^verbatim>\<open>notify_one\<close> happens after the lock is released, \<^verbatim>\<open>stop\<close> sets its flag without the lock: both are
  steps of their own.  The tasks are of any type.  Wake-ups without a notification are left out.
\<close>

section \<open>The pool and its steps\<close>

datatype 't worker = AtLoop | Locking | Testing | Parking | Asleep | Executing 't | Finishing | Exited

text \<open>How far a call of \<^verbatim>\<open>stop\<close> is; the option is the new size when \<^verbatim>\<open>setThreadCount\<close> makes the call.\<close>

datatype stop_stage = NoStop | Broadcast "nat option" | Joining "nat option"

record 't ThreadPool =
  tp_threads :: "'t worker list"
  tp_taskQueue :: "'t list"
  tp_running :: bool
  tp_activeTasks :: "64 word"
  tp_pending :: nat
  tp_stop :: stop_stage

definition ThreadPool_new :: "nat \<Rightarrow> 't ThreadPool" where
  "ThreadPool_new threadCount = \<lparr>tp_threads = replicate threadCount AtLoop, tp_taskQueue = [], tp_running = True,
     tp_activeTasks = 0, tp_pending = 0, tp_stop = NoStop\<rparr>"

definition getThreadCount :: "'t ThreadPool \<Rightarrow> nat" where
  "getThreadCount p = length (tp_threads p)"

definition ThreadPool_isRunning :: "'t ThreadPool \<Rightarrow> bool" where
  "ThreadPool_isRunning p = tp_running p"

definition waitForCompletion_returns :: "'t ThreadPool \<Rightarrow> bool" where
  "waitForCompletion_returns p \<longleftrightarrow> \<not> tp_activeTasks p > 0"

fun holds_lock :: "'t worker \<Rightarrow> nat" where
  "holds_lock Testing = 1"
| "holds_lock Parking = 1"
| "holds_lock _ = 0"

fun busy :: "'t worker \<Rightarrow> nat" where
  "busy (Executing t) = 1"
| "busy Finishing = 1"
| "busy _ = 0"

definition tally :: "('t worker \<Rightarrow> 'b) \<Rightarrow> 't ThreadPool \<Rightarrow> ('b :: comm_monoid_add)" where
  "tally f p = sum_list (map f (tp_threads p))"

definition worker_at :: "'t ThreadPool \<Rightarrow> nat \<Rightarrow> 't worker \<Rightarrow> bool" where
  "worker_at p i x \<longleftrightarrow> i < length (tp_threads p) \<and> tp_threads p ! i = x"

definition move :: "'t ThreadPool \<Rightarrow> nat \<Rightarrow> 't worker \<Rightarrow> 't ThreadPool" where
  "move p i x = p\<lparr>tp_threads := (tp_threads p)[i := x]\<rparr>"

definition wake_all :: "'t worker list \<Rightarrow> 't worker list" where
  "wake_all ts = map (\<lambda>x. if x = Asleep then Locking else x) ts"

text \<open>What \<^verbatim>\<open>submit\<close> does while it holds the mutex; the notification is pending from then on.\<close>

definition ThreadPool_submit :: "'t \<Rightarrow> 't ThreadPool \<Rightarrow> 't ThreadPool" where
  [simp]: "ThreadPool_submit t p =
     p\<lparr>tp_taskQueue := tp_taskQueue p @ [t], tp_activeTasks := tp_activeTasks p + 1, tp_pending := Suc (tp_pending p)\<rparr>"

text \<open>What an observer sees of a step.\<close>

datatype 't label = Tau | Start 't | Finish 't | Submit 't | Stopping "nat option"

inductive pool_step :: "'t ThreadPool \<Rightarrow> 't label \<Rightarrow> 't ThreadPool \<Rightarrow> bool" where
  enter: "worker_at p i AtLoop \<Longrightarrow> tp_running p \<Longrightarrow> pool_step p Tau (move p i Locking)"
| leave: "worker_at p i AtLoop \<Longrightarrow> \<not> tp_running p \<Longrightarrow> pool_step p Tau (move p i Exited)"
| lock: "worker_at p i Locking \<Longrightarrow> tally holds_lock p = 0 \<Longrightarrow> pool_step p Tau (move p i Testing)"
| park: "worker_at p i Testing \<Longrightarrow> tp_running p \<Longrightarrow> tp_taskQueue p = [] \<Longrightarrow> pool_step p Tau (move p i Parking)"
| sleep: "worker_at p i Parking \<Longrightarrow> pool_step p Tau (move p i Asleep)"
| quit: "worker_at p i Testing \<Longrightarrow> \<not> tp_running p \<Longrightarrow> tp_taskQueue p = [] \<Longrightarrow> pool_step p Tau (move p i Exited)"
| take: "worker_at p i Testing \<Longrightarrow> tp_taskQueue p = t # q \<Longrightarrow> pool_step p (Start t) (move (p\<lparr>tp_taskQueue := q\<rparr>) i (Executing t))"
| perform: "worker_at p i (Executing t) \<Longrightarrow> pool_step p (Finish t) (move p i Finishing)"
| count: "worker_at p i Finishing \<Longrightarrow> pool_step p Tau (move (p\<lparr>tp_activeTasks := tp_activeTasks p - 1\<rparr>) i AtLoop)"
| notify: "worker_at p i Asleep \<Longrightarrow> tp_pending p = Suc n \<Longrightarrow> pool_step p Tau (move (p\<lparr>tp_pending := n\<rparr>) i Locking)"
| notify_none: "Asleep \<notin> set (tp_threads p) \<Longrightarrow> tp_pending p = Suc n \<Longrightarrow> pool_step p Tau (p\<lparr>tp_pending := n\<rparr>)"
| notify_all: "tp_stop p = Broadcast r \<Longrightarrow>
    pool_step p Tau (p\<lparr>tp_threads := wake_all (tp_threads p), tp_stop := Joining r\<rparr>)"
| join: "tp_stop p = Joining None \<Longrightarrow> set (tp_threads p) \<subseteq> {Exited} \<Longrightarrow> pool_step p Tau (p\<lparr>tp_stop := NoStop\<rparr>)"
| restart: "tp_stop p = Joining (Some n) \<Longrightarrow> set (tp_threads p) \<subseteq> {Exited} \<Longrightarrow>
    pool_step p Tau (p\<lparr>tp_stop := NoStop, tp_running := True, tp_threads := replicate n AtLoop\<rparr>)"
| submit: "tally holds_lock p = 0 \<Longrightarrow> pool_step p (Submit t) (ThreadPool_submit t p)"
| stop: "tp_stop p = NoStop \<Longrightarrow> (\<forall>n. r = Some n \<longrightarrow> n \<noteq> getThreadCount p) \<Longrightarrow>
    pool_step p (Stopping r) (p\<lparr>tp_running := False, tp_stop := Broadcast r\<rparr>)"

inductive_cases submitE: "pool_step p (Submit t) p'"
inductive_cases stoppingE: "pool_step p (Stopping r) p'"

inductive run :: "'t ThreadPool \<Rightarrow> 't label list \<Rightarrow> 't ThreadPool \<Rightarrow> bool" where
  run_nil: "run p [] p"
| run_snoc: "run p ls p1 \<Longrightarrow> pool_step p1 l p2 \<Longrightarrow> run p (ls @ [l]) p2"

inductive_cases run_snocE: "run p (ls @ [l]) p'"

text \<open>\<^verbatim>\<open>stop\<close> and \<^verbatim>\<open>setThreadCount\<close> relate the pool before and after the call, while the workers go on and
  other threads may submit.\<close>

fun calls_stop :: "'t label \<Rightarrow> bool" where
  "calls_stop (Stopping r) = True"
| "calls_stop _ = False"

definition stopped_by :: "nat option \<Rightarrow> 't ThreadPool \<Rightarrow> 't ThreadPool \<Rightarrow> bool" where
  "stopped_by r p p' \<longleftrightarrow> (\<exists>p1 ls. pool_step p (Stopping r) p1 \<and> run p1 ls p' \<and> list_all (\<lambda>l. \<not> calls_stop l) ls \<and> tp_stop p' = NoStop)"

definition ThreadPool_stop :: "'t ThreadPool \<Rightarrow> 't ThreadPool \<Rightarrow> bool" where
  "ThreadPool_stop p p' \<longleftrightarrow> stopped_by None p p'"

definition setThreadCount :: "'t ThreadPool \<Rightarrow> nat \<Rightarrow> 't ThreadPool \<Rightarrow> bool" where
  "setThreadCount p threadCount p' \<longleftrightarrow> (if threadCount = getThreadCount p then p' = p else stopped_by (Some threadCount) p p')"

definition reachable :: "'t ThreadPool \<Rightarrow> bool" where
  "reachable p \<longleftrightarrow> (\<exists>n ls. run (ThreadPool_new n) ls p)"

section \<open>Counting workers\<close>

lemma sum_list_map_update:
  "i < length xs \<Longrightarrow> sum_list (map f (xs[i := y])) + f (xs ! i) = sum_list (map f xs) + (f y :: 'b :: comm_monoid_add)"
proof (induction xs arbitrary: i)
  case (Cons x xs)
  then show ?case by (cases i) (auto simp: ac_simps)
qed simp

lemma move_simps [simp]:
  "tp_threads (move p i x) = (tp_threads p)[i := x]" "tp_taskQueue (move p i x) = tp_taskQueue p"
  "tp_running (move p i x) = tp_running p" "tp_activeTasks (move p i x) = tp_activeTasks p"
  "tp_pending (move p i x) = tp_pending p" "tp_stop (move p i x) = tp_stop p"
  by (simp_all add: move_def)

lemma at_update [simp]:
  "worker_at (p\<lparr>tp_taskQueue := q\<rparr>) = worker_at p" "worker_at (p\<lparr>tp_activeTasks := a\<rparr>) = worker_at p" "worker_at (p\<lparr>tp_pending := n\<rparr>) = worker_at p"
  by (simp_all add: worker_at_def fun_eq_iff)

lemma tally_update [simp]:
  "tally f (p\<lparr>tp_taskQueue := q\<rparr>) = tally f p" "tally f (p\<lparr>tp_activeTasks := a\<rparr>) = tally f p"
  "tally f (p\<lparr>tp_pending := n\<rparr>) = tally f p" "tally f (p\<lparr>tp_running := b\<rparr>) = tally f p" "tally f (p\<lparr>tp_stop := s\<rparr>) = tally f p"
  by (simp_all add: tally_def)

lemma tally_move: "worker_at p i x \<Longrightarrow> tally f (move p i y) + f x = tally f p + f y"
  using sum_list_map_update [of i "tp_threads p" f y] by (auto simp: worker_at_def tally_def)

lemma tally_same:
  "worker_at p i x \<Longrightarrow> f x = f y \<Longrightarrow> tally f (move p i y) = (tally f p :: 'b :: cancel_comm_monoid_add)"
  using tally_move [of p i x f y] by simp

lemma at_in_set: "worker_at p i x \<Longrightarrow> x \<in> set (tp_threads p)"
  by (auto simp: worker_at_def)

lemma at_move_in_set: "worker_at p i x \<Longrightarrow> y \<in> set ((tp_threads p)[i := y])"
  by (simp add: worker_at_def set_update_memI)

lemma set_move: "z \<in> set ((tp_threads p)[i := y]) \<Longrightarrow> z = y \<or> z \<in> set (tp_threads p)"
  using set_update_subset_insert [of "tp_threads p" i y] by auto

lemma tally_in_set: "x \<in> set (tp_threads p) \<Longrightarrow> f x \<le> (tally f p :: nat)"
  unfolding tally_def by (induction "tp_threads p" arbitrary: p) (auto intro: member_le_sum_list)

lemma wake_all_totals [simp]:
  "sum_list (map holds_lock (wake_all ts)) = sum_list (map holds_lock ts)" "sum_list (map busy (wake_all ts)) = sum_list (map busy ts)"
  by (induction ts) (auto simp: wake_all_def)

lemma wake_all_set: "x \<in> set (wake_all ts) \<Longrightarrow> x = Locking \<or> (x \<noteq> Asleep \<and> x \<in> set ts)"
  by (auto simp: wake_all_def split: if_splits)

lemma idle_totals: "set ts \<subseteq> {Exited} \<Longrightarrow> sum_list (map holds_lock ts) = 0 \<and> sum_list (map busy ts) = 0"
  by (induction ts) auto

section \<open>The invariant\<close>

lemma move_awake: "worker_at p i x \<Longrightarrow> y \<noteq> Asleep \<Longrightarrow> \<not> set ((tp_threads p)[i := y]) \<subseteq> {Asleep}"
  using at_move_in_set [of p i x y] by blast

lemma tally_replicate [simp]: "sum_list (replicate n (0::nat)) = 0"
  by (induction n) auto

lemma no_lock_no_parking: "tally holds_lock p = 0 \<Longrightarrow> Parking \<notin> set (tp_threads p)"
  using tally_in_set [of Parking p holds_lock] by auto

lemma testing_no_parking:
  assumes "worker_at p i Testing" "tally holds_lock p \<le> 1" "y \<noteq> Parking"
  shows "Parking \<notin> set ((tp_threads p)[i := y])"
proof -
  have "Parking \<notin> set ((tp_threads p)[i := Exited])"
    using tally_move [OF assms(1), of holds_lock Exited] assms(2) no_lock_no_parking [of "move p i Exited"] by simp
  then have "Parking \<notin> set (((tp_threads p)[i := Exited])[i := y])"
    using assms(3) set_update_subset_insert [of "(tp_threads p)[i := Exited]" i y] by auto
  then show ?thesis by simp
qed

definition counted :: "'t ThreadPool \<Rightarrow> bool" where
  "counted p \<longleftrightarrow> tp_activeTasks p = of_nat (length (tp_taskQueue p) + tally busy p)"

lemma counted_step:
  assumes "pool_step p l p'" "counted p"
  shows "counted p'"
  using assms(1)
proof (cases rule: pool_step.cases)
  case (take i t q)
  with assms(2) tally_move [of p i Testing busy "Executing t"] show ?thesis by (simp add: counted_def tally_def)
next
  case (perform i t)
  with assms(2) tally_move [of p i "Executing t" busy Finishing] show ?thesis by (simp add: counted_def)
next
  case (count i)
  then have "tally busy p = Suc (tally busy (move p i AtLoop))" using tally_move [of p i Finishing busy AtLoop] by simp
  with count assms(2) show ?thesis by (simp add: counted_def tally_def)
next
  case (notify_all r)
  with assms(2) show ?thesis by (simp add: counted_def tally_def)
next
  case (restart n)
  with assms(2) idle_totals [of "tp_threads p"] show ?thesis by (simp add: counted_def tally_def)
qed (use assms(2) in \<open>auto simp: counted_def tally_same\<close>)


definition exclusive :: "'t ThreadPool \<Rightarrow> bool" where
  "exclusive p \<longleftrightarrow> tally holds_lock p \<le> 1 \<and> (Parking \<in> set (tp_threads p) \<longrightarrow> tp_taskQueue p = [])"

lemma exclusive_step:
  assumes "pool_step p l p'" "exclusive p"
  shows "exclusive p'"
  using assms(1)
proof (cases rule: pool_step.cases)
  case (lock i)
  with assms(2) tally_move [of p i Locking holds_lock Testing] show ?thesis
    by (auto simp: exclusive_def dest: set_move)
next
  case (park i)
  with assms(2) tally_move [of p i Testing holds_lock Parking] show ?thesis by (auto simp: exclusive_def)
next
  case (sleep i)
  with assms(2) tally_move [of p i Parking holds_lock Asleep] show ?thesis by (auto simp: exclusive_def dest: at_in_set)
next
  case (quit i)
  with assms(2) tally_move [of p i Testing holds_lock Exited] show ?thesis by (auto simp: exclusive_def)
next
  case (take i t q)
  with assms(2) tally_move [of p i Testing holds_lock "Executing t"] testing_no_parking [of p i "Executing t"] show ?thesis
    by (auto simp: exclusive_def tally_def)
next
  case (enter i)
  with assms(2) tally_move [of p i AtLoop holds_lock Locking] show ?thesis by (auto simp: exclusive_def dest: set_move)
next
  case (leave i)
  with assms(2) tally_move [of p i AtLoop holds_lock Exited] show ?thesis by (auto simp: exclusive_def dest: set_move)
next
  case (perform i t)
  with assms(2) tally_move [of p i "Executing t" holds_lock Finishing] show ?thesis by (auto simp: exclusive_def dest: set_move)
next
  case (count i)
  with assms(2) tally_move [of p i Finishing holds_lock AtLoop] show ?thesis by (auto simp: exclusive_def tally_def dest: set_move)
next
  case (notify i n)
  with assms(2) tally_move [of p i Asleep holds_lock Locking] show ?thesis by (auto simp: exclusive_def tally_def dest: set_move)
next
  case (notify_all r)
  with assms(2) show ?thesis by (auto simp: exclusive_def tally_def dest: wake_all_set)
next
  case (restart n)
  with assms(2) show ?thesis by (auto simp: exclusive_def tally_def)
next
  case (submit t)
  with assms(2) no_lock_no_parking [of p] show ?thesis by (auto simp: exclusive_def tally_def)
qed (use assms(2) in \<open>auto simp: exclusive_def tally_def\<close>)

text \<open>While the pool runs no worker has left, and a task in the queue finds a worker that is awake or a
  notification that is still to come: no wake-up is lost between \<^verbatim>\<open>submit\<close> and the workers.\<close>

definition served :: "'t ThreadPool \<Rightarrow> bool" where
  "served p \<longleftrightarrow> (tp_running p \<longrightarrow> Exited \<notin> set (tp_threads p) \<and> (tp_threads p \<noteq> [] \<longrightarrow> tp_taskQueue p \<noteq> [] \<longrightarrow>
     tp_pending p > 0 \<or> \<not> set (tp_threads p) \<subseteq> {Asleep}))"

lemma served_step:
  assumes "pool_step p l p'" "served p" "exclusive p"
  shows "served p'"
  using assms(1)
proof (cases rule: pool_step.cases)
  case (enter i)
  with assms(2) move_awake [of p i AtLoop Locking] show ?thesis by (auto simp: served_def dest: set_move)
next
  case (lock i)
  with assms(2) move_awake [of p i Locking Testing] show ?thesis by (auto simp: served_def dest: set_move)
next
  case (park i)
  with assms(2) show ?thesis by (auto simp: served_def dest: set_move)
next
  case (sleep i)
  with assms(2,3) show ?thesis by (auto simp: served_def exclusive_def dest: set_move at_in_set)
next
  case (take i t q)
  with assms(2) move_awake [of p i Testing "Executing t"] show ?thesis by (auto simp: served_def dest: set_move)
next
  case (perform i t)
  with assms(2) move_awake [of p i "Executing t" Finishing] show ?thesis by (auto simp: served_def dest: set_move)
next
  case (count i)
  with assms(2) move_awake [of p i Finishing AtLoop] show ?thesis by (auto simp: served_def dest: set_move)
next
  case (notify i n)
  with assms(2) move_awake [of p i Asleep Locking] show ?thesis by (auto simp: served_def dest: set_move)
next
  case (notify_none n)
  then have "tp_threads p \<noteq> [] \<Longrightarrow> \<not> set (tp_threads p) \<subseteq> {Asleep}" by (cases "tp_threads p") auto
  with notify_none assms(2) show ?thesis by (auto simp: served_def)
next
  case (notify_all r)
  with assms(2) show ?thesis by (auto simp: served_def wake_all_def split: if_splits)
next
  case (restart n)
  then show ?thesis by (auto simp: served_def)
qed (use assms(2) in \<open>auto simp: served_def\<close>)

lemma reachable_inv:
  assumes "reachable p"
  shows "counted p" "exclusive p" "served p"
proof -
  have "counted q \<and> exclusive q \<and> served q" if "run p0 ls q" "counted p0 \<and> exclusive p0 \<and> served p0" for p0 ls and q :: "'a ThreadPool"
    using that by (induction rule: run.induct) (auto intro: counted_step exclusive_step served_step)
  moreover have "counted (ThreadPool_new n) \<and> exclusive (ThreadPool_new n) \<and> served (ThreadPool_new n)" for n
    by (auto simp: counted_def exclusive_def served_def ThreadPool_new_def tally_def)
  ultimately have "counted p \<and> exclusive p \<and> served p" using assms unfolding reachable_def by blast
  then show "counted p" "exclusive p" "served p" by simp_all
qed


section \<open>First in, first out, each task once\<close>

fun submitted :: "'t label list \<Rightarrow> 't list" where
  "submitted [] = []" | "submitted (Submit t # ls) = t # submitted ls" | "submitted (_ # ls) = submitted ls"

fun started :: "'t label list \<Rightarrow> 't list" where
  "started [] = []" | "started (Start t # ls) = t # started ls" | "started (_ # ls) = started ls"

fun finished :: "'t label list \<Rightarrow> 't list" where
  "finished [] = []" | "finished (Finish t # ls) = t # finished ls" | "finished (_ # ls) = finished ls"

fun current :: "'t worker \<Rightarrow> 't multiset" where
  "current (Executing t) = {#t#}"
| "current _ = {#}"

lemma labels_append [simp]:
  "submitted (ls @ ms) = submitted ls @ submitted ms" "started (ls @ ms) = started ls @ started ms"
  "finished (ls @ ms) = finished ls @ finished ms"
  by (induction ls rule: submitted.induct) simp_all

lemma fifo_step:
  assumes "pool_step p l p'"
  shows "tp_taskQueue p @ submitted [l] = started [l] @ tp_taskQueue p'"
  using assms by (cases rule: pool_step.cases) auto

lemma current_step:
  assumes "pool_step p l p'"
  shows "tally current p + mset (started [l]) = tally current p' + mset (finished [l])"
  using assms
proof (cases rule: pool_step.cases)
  case (take i t q)
  with tally_move [of p i Testing current "Executing t"] show ?thesis by (simp add: tally_def)
next
  case (perform i t)
  with tally_move [of p i "Executing t" current Finishing] show ?thesis by simp
next
  case (notify_all r)
  have "sum_list (map current (wake_all ts)) = sum_list (map current ts)" for ts :: "'a worker list"
    by (induction ts) (auto simp: wake_all_def)
  with notify_all show ?thesis by (simp add: tally_def)
next
  case (restart n)
  have "sum_list (map current (replicate n AtLoop)) = ({#} :: 'a multiset)" by (induction n) auto
  moreover have "set ts \<subseteq> {Exited} \<Longrightarrow> sum_list (map current ts) = {#}" for ts :: "'a worker list"
    by (induction ts) auto
  ultimately show ?thesis using restart by (simp add: tally_def)
qed (simp_all add: tally_same)

lemma run_account:
  assumes "run p ls q"
  shows "tp_taskQueue p @ submitted ls = started ls @ tp_taskQueue q"
    "tally current p + mset (started ls) = tally current q + mset (finished ls)"
proof -
  have "tp_taskQueue p @ submitted ls = started ls @ tp_taskQueue q \<and>
      tally current p + mset (started ls) = tally current q + mset (finished ls)"
    using assms
  proof (induction rule: run.induct)
    case (run_snoc p ls p1 l p2)
    from fifo_step [OF run_snoc(2)] run_snoc(3)
    have "tp_taskQueue p @ submitted (ls @ [l]) = started (ls @ [l]) @ tp_taskQueue p2"
      by (metis append.assoc labels_append(1,2))
    moreover have "tally current p + mset (started (ls @ [l])) = tally current p2 + mset (finished (ls @ [l]))"
      using current_step [OF run_snoc(2)] run_snoc(3) by (simp del: started.simps finished.simps) (metis add.assoc add.commute)
    ultimately show ?case by blast
  qed simp
  then show "tp_taskQueue p @ submitted ls = started ls @ tp_taskQueue q"
    "tally current p + mset (started ls) = tally current q + mset (finished ls)" by simp_all
qed

definition outstanding :: "'t ThreadPool \<Rightarrow> nat" where
  "outstanding p = length (tp_taskQueue p) + tally busy p"

lemma new_pool_current [simp]: "tally current (ThreadPool_new n) = {#}"
  unfolding tally_def by (induction n) (auto simp: ThreadPool_new_def)

lemma new_pool [simp]: "tp_taskQueue (ThreadPool_new n) = []" "tally busy (ThreadPool_new n) = 0"
  "tally holds_lock (ThreadPool_new n) = 0" "tp_running (ThreadPool_new n)" "tp_stop (ThreadPool_new n) = NoStop"
  "length (tp_threads (ThreadPool_new n)) = n" "outstanding (ThreadPool_new n) = 0"
  by (simp_all add: ThreadPool_new_def tally_def outstanding_def)

lemma idle_current: "tally busy p = 0 \<Longrightarrow> tally current p = {#}"
proof -
  have "sum_list (map busy ts) = 0 \<Longrightarrow> sum_list (map current ts) = {#}" for ts :: "'a worker list"
  proof (induction ts)
    case (Cons x ts)
    then show ?case by (cases x) auto
  qed simp
  then show "tally busy p = 0 \<Longrightarrow> tally current p = {#}" by (simp add: tally_def)
qed

lemma busy_le_current: "tally busy p = size (tally current p) + length (filter (\<lambda>x. x = Finishing) (tp_threads p))"
proof -
  have "sum_list (map busy ts) = size (sum_list (map current ts)) + length (filter (\<lambda>x. x = Finishing) ts)" for ts :: "'a worker list"
  proof (induction ts)
    case (Cons x ts)
    then show ?case by (cases x) auto
  qed simp
  then show ?thesis by (simp add: tally_def)
qed

text \<open>\<^verbatim>\<open>activeTasks\<close> is zero exactly when nothing is queued and nothing runs, short of \<open>2 ^ 64\<close> tasks.\<close>

lemma small_of_nat_zero: "n < 2 ^ 64 \<Longrightarrow> of_nat n = (0 :: 64 word) \<longleftrightarrow> n = 0"
  by (auto simp: word_of_nat_eq_0_iff dest: nat_dvd_not_less)

lemma waitForCompletion_iff:
  assumes "reachable p" "outstanding p < 2 ^ 64"
  shows "waitForCompletion_returns p \<longleftrightarrow> outstanding p = 0"
proof -
  have "waitForCompletion_returns p \<longleftrightarrow> of_nat (outstanding p) = (0 :: 64 word)"
    using reachable_inv(1) [OF assms(1)]
    by (metis counted_def outstanding_def waitForCompletion_returns_def word_neq_0_conv)
  also have "\<dots> \<longleftrightarrow> outstanding p = 0" by (rule small_of_nat_zero [OF assms(2)])
  finally show ?thesis .
qed

lemma run_trans: "run q ms r \<Longrightarrow> run p ls q \<Longrightarrow> run p (ls @ ms) r"
proof (induction rule: run.induct)
  case (run_snoc q ms r1 l r2)
  then show ?case using run.run_snoc [of p "ls @ ms" r1 l r2] by simp
qed simp

lemma reachable_run: "reachable p \<Longrightarrow> run p ls q \<Longrightarrow> reachable q"
  unfolding reachable_def using run_trans by blast

lemma reachable_new [simp]: "reachable (ThreadPool_new n)"
  unfolding reachable_def using run_nil by blast

text \<open>A pool that is idle does all that is submitted, in order, each task once.\<close>

lemma waitForCompletion_all_done:
  assumes "reachable p" "outstanding p = 0" "run p ls q" "waitForCompletion_returns q" "outstanding q < 2 ^ 64"
  shows "started ls = submitted ls \<and> mset (finished ls) = mset (submitted ls) \<and> outstanding q = 0"
proof -
  from waitForCompletion_iff [OF reachable_run [OF assms(1,3)] assms(5)] assms(4) have "outstanding q = 0" by simp
  with run_account [OF assms(3)] idle_current [of p] idle_current [of q] assms(2) show ?thesis by (simp add: outstanding_def)
qed

lemma outstanding_run:
  assumes "run p ls q"
  shows "outstanding q \<le> outstanding p + length (submitted ls)"
  using assms
proof (induction rule: run.induct)
  case (run_snoc p ls p1 l p2)
  have "outstanding p2 \<le> outstanding p1 + length (submitted [l])"
    using run_snoc(2)
  proof (cases rule: pool_step.cases)
    case (take i t q)
    with tally_move [of p1 i Testing busy "Executing t"] show ?thesis by (simp add: outstanding_def tally_def)
  next
    case (count i)
    with tally_move [of p1 i Finishing busy AtLoop] show ?thesis by (simp add: outstanding_def tally_def)
  next
    case (restart n)
    then show ?thesis by (simp add: outstanding_def tally_def)
  next
    case (notify_all r)
    then show ?thesis by (simp add: outstanding_def tally_def)
  qed (simp_all add: outstanding_def tally_same)
  with run_snoc(3) show ?case by simp
qed simp

section \<open>Completion\<close>

text \<open>The steps of the workers themselves, and a bound on how many of them there can be.\<close>

fun own_step :: "'t label \<Rightarrow> bool" where
  "own_step (Submit t) = False"
| "own_step (Stopping r) = False"
| "own_step _ = True"

fun weight :: "'t worker \<Rightarrow> nat" where
  "weight (Executing t) = 7" | "weight Finishing = 6" | "weight AtLoop = 5" | "weight Locking = 4" | "weight Testing = 3"
| "weight Parking = 2" | "weight Asleep = 1" | "weight Exited = 0"

definition effort :: "'t ThreadPool \<Rightarrow> nat" where
  "effort p = tally weight p + 5 * length (tp_taskQueue p) + 4 * tp_pending p"

lemma effort_step:
  assumes "pool_step p l p'" "own_step l" "tp_stop p = NoStop"
  shows "effort p' < effort p \<and> tp_stop p' = NoStop \<and> tp_running p' = tp_running p \<and> length (tp_threads p') = length (tp_threads p)"
  using assms(1)
proof (cases rule: pool_step.cases)
  case (enter i)
  with assms(3) tally_move [of p i AtLoop weight Locking] show ?thesis by (simp add: effort_def)
next
  case (leave i)
  with assms(3) tally_move [of p i AtLoop weight Exited] show ?thesis by (simp add: effort_def)
next
  case (lock i)
  with assms(3) tally_move [of p i Locking weight Testing] show ?thesis by (simp add: effort_def)
next
  case (park i)
  with assms(3) tally_move [of p i Testing weight Parking] show ?thesis by (simp add: effort_def)
next
  case (sleep i)
  with assms(3) tally_move [of p i Parking weight Asleep] show ?thesis by (simp add: effort_def)
next
  case (quit i)
  with assms(3) tally_move [of p i Testing weight Exited] show ?thesis by (simp add: effort_def)
next
  case (take i t q)
  with assms(3) tally_move [of p i Testing weight "Executing t"] show ?thesis by (simp add: effort_def tally_def)
next
  case (perform i t)
  with assms(3) tally_move [of p i "Executing t" weight Finishing] show ?thesis by (simp add: effort_def)
next
  case (count i)
  with assms(3) tally_move [of p i Finishing weight AtLoop] show ?thesis by (simp add: effort_def tally_def)
next
  case (notify i n)
  with assms(3) tally_move [of p i Asleep weight Locking] show ?thesis by (simp add: effort_def tally_def)
qed (use assms(2,3) in \<open>auto simp: effort_def tally_def\<close>)

lemma worker_progress:
  assumes "x \<in> set (tp_threads p)" "x \<noteq> Asleep" "x \<noteq> Exited" "tp_running p"
  shows "\<exists>l p'. own_step l \<and> pool_step p l p'"
proof -
  have step: "\<exists>l p'. own_step l \<and> pool_step p l p'" if "worker_at p i x" "x \<noteq> Asleep" "x \<noteq> Exited" "x \<noteq> Locking" for i x
  proof (cases x)
    case Testing
    show ?thesis
    proof (cases "tp_taskQueue p")
      case Nil
      with that Testing assms(4) show ?thesis by (metis own_step.simps(3) pool_step.park)
    next
      case (Cons t q)
      with that Testing show ?thesis by (metis own_step.simps(4) pool_step.take)
    qed
  next
    case AtLoop
    with that assms(4) show ?thesis by (metis own_step.simps(3) pool_step.enter)
  next
    case Parking
    with that show ?thesis by (metis own_step.simps(3) pool_step.sleep)
  next
    case (Executing t)
    with that show ?thesis by (metis own_step.simps(5) pool_step.perform)
  next
    case Finishing
    with that show ?thesis by (metis own_step.simps(3) pool_step.count)
  qed (use that in auto)
  obtain i where i: "worker_at p i x" using assms(1) by (auto simp: worker_at_def in_set_conv_nth)
  show ?thesis
  proof (cases "x = Locking")
    case True
    show ?thesis
    proof (cases "tally holds_lock p = 0")
      case True
      with i \<open>x = Locking\<close> show ?thesis by (metis own_step.simps(3) pool_step.lock)
    next
      case False
      then obtain y where y: "y \<in> set (tp_threads p)" "holds_lock y \<noteq> 0" by (auto simp: tally_def)
      then obtain j where "worker_at p j y" by (auto simp: worker_at_def in_set_conv_nth)
      moreover have "y \<noteq> Asleep" "y \<noteq> Exited" "y \<noteq> Locking" using y(2) by auto
      ultimately show ?thesis by (rule step)
    qed
  qed (use step [OF i assms(2,3)] in simp)
qed

lemma pool_progress:
  assumes r: "reachable p" and run: "tp_running p" and th: "tp_threads p \<noteq> []" and w: "\<not> waitForCompletion_returns p"
  shows "\<exists>l p'. own_step l \<and> pool_step p l p'"
proof -
  note inv = reachable_inv [OF r]
  have out: "outstanding p \<noteq> 0"
    using w inv(1) by (intro notI) (simp add: counted_def waitForCompletion_returns_def outstanding_def)
  show ?thesis
  proof (cases "set (tp_threads p) \<subseteq> {Asleep}")
    case False
    then obtain x where "x \<in> set (tp_threads p)" "x \<noteq> Asleep" by blast
    moreover have "Exited \<notin> set (tp_threads p)" using inv(3) run by (simp add: served_def)
    ultimately show ?thesis using worker_progress run by metis
  next
    case True
    have "busy x = 0" if "x \<in> set (tp_threads p)" for x using True that by auto
    then have "tp_taskQueue p \<noteq> []" using out by (auto simp: outstanding_def tally_def)
    with True inv(3) run th obtain n where n: "tp_pending p = Suc n" by (auto simp: served_def gr0_conv_Suc)
    have "worker_at p 0 Asleep" using True th by (cases "tp_threads p") (auto simp: worker_at_def)
    from pool_step.notify [OF this n] show ?thesis by (metis own_step.simps(3))
  qed
qed

lemma pool_completes:
  assumes "reachable p" "tp_running p" "tp_stop p = NoStop" "tp_threads p \<noteq> []" "run p ls q" "list_all own_step ls"
  shows "length ls \<le> effort p \<and> (waitForCompletion_returns q \<or> (\<exists>l q'. own_step l \<and> pool_step q l q'))"
proof -
  have "length ls + effort q \<le> effort p \<and> tp_stop q = NoStop \<and> tp_running q = tp_running p \<and> length (tp_threads q) = length (tp_threads p)"
    using assms(5,6,3)
  proof (induction rule: run.induct)
    case (run_snoc p ls p1 l p2)
    with effort_step [OF run_snoc(2)] show ?case by auto
  qed simp
  with assms pool_progress [OF reachable_run [OF assms(1,5)]] show ?thesis by (metis add_leD1 length_0_conv)
qed

text \<open>Left alone, the workers can always come to rest, with everything done.\<close>

definition at_rest :: "'t ThreadPool \<Rightarrow> bool" where
  "at_rest p \<longleftrightarrow> set (tp_threads p) \<subseteq> {Asleep} \<and> tp_taskQueue p = [] \<and> tp_running p \<and> tp_stop p = NoStop"

lemma settling_run:
  assumes "reachable p" "tp_running p" "tp_stop p = NoStop" "tp_threads p \<noteq> []"
  shows "\<exists>ls q. run p ls q \<and> list_all own_step ls \<and> waitForCompletion_returns q \<and> at_rest q"
  using assms
proof (induction "effort p" arbitrary: p rule: less_induct)
  case less
  show ?case
  proof (cases "\<exists>l p'. own_step l \<and> pool_step p l p'")
    case False
    note inv = reachable_inv [OF less.prems(1)]
    have "x = Asleep" if "x \<in> set (tp_threads p)" for x
    proof (rule ccontr)
      assume "x \<noteq> Asleep"
      moreover have "x \<noteq> Exited" using inv(3) less.prems(2) that by (auto simp: served_def)
      ultimately show False using worker_progress [OF that _ _ less.prems(2)] False by blast
    qed
    then have a: "set (tp_threads p) \<subseteq> {Asleep}" by blast
    then have "worker_at p 0 Asleep" using less.prems(4) by (cases "tp_threads p") (auto simp: worker_at_def)
    then have "tp_pending p = 0" using False pool_step.notify [of p 0] by (cases "tp_pending p") (metis own_step.simps(3))+
    then have "tp_taskQueue p = []" using inv(3) a less.prems(2,4) by (auto simp: served_def)
    with False a pool_progress [OF less.prems(1,2,4)] less.prems(2,3) show ?thesis
      using run_nil [of p] by (intro exI [of _ "[]"] exI [of _ p]) (auto simp: at_rest_def)
  next
    case True
    then obtain l p1 where s: "own_step l" "pool_step p l p1" by blast
    have r: "run p [l] p1" using run_snoc [OF run_nil s(2)] by simp
    note e = effort_step [OF s(2,1) less.prems(3)]
    obtain ls q where "run p1 ls q" "list_all own_step ls" "waitForCompletion_returns q" "at_rest q"
      using less.hyps [of p1] e reachable_run [OF less.prems(1) r] less.prems(2,4) by (metis length_0_conv)
    with run_trans [OF _ r] s(1) show ?thesis by (intro exI [of _ "l # ls"] exI [of _ q]) simp
  qed
qed

lemma submit_all:
  assumes "tally holds_lock p = 0"
  shows "\<exists>q. run p (map Submit ts) q \<and> tally holds_lock q = 0 \<and> tp_running q = tp_running p \<and> tp_stop q = tp_stop p
     \<and> tp_threads q = tp_threads p"
proof (induction ts rule: rev_induct)
  case Nil
  then show ?case using run_nil [of p] assms by (intro exI [of _ p]) simp
next
  case (snoc t ts)
  then obtain q where q: "run p (map Submit ts) q" "tally holds_lock q = 0" "tp_running q = tp_running p" "tp_stop q = tp_stop p"
    "tp_threads q = tp_threads p" by blast
  from run_snoc [OF q(1) pool_step.submit [OF q(2), of t]] q(2-) show ?case by (intro exI) (rule conjI, simp, simp)
qed

section \<open>What stopping can leave behind\<close>

text \<open>A worker that has found the queue empty and is about to block misses the notification of a \<^verbatim>\<open>stop\<close> that does
  not take the lock.\<close>

lemma stop_hangs:
  "\<exists>p. reachable p \<and> tp_stop p = Joining None \<and> tp_activeTasks p = 0 \<and>
     (\<forall>l p'. pool_step p l (p' :: 't ThreadPool) \<longrightarrow> (\<exists>t. l = Submit t))"
proof -
  let ?s = "\<lambda>x run stop. \<lparr>tp_threads = [x], tp_taskQueue = [], tp_running = run, tp_activeTasks = 0, tp_pending = 0, tp_stop = stop\<rparr> :: 't ThreadPool"
  have 1: "pool_step (?s AtLoop True NoStop) Tau (?s Locking True NoStop)"
    using pool_step.enter [of "?s AtLoop True NoStop" 0] by (simp add: worker_at_def move_def)
  have 2: "pool_step (?s Locking True NoStop) Tau (?s Testing True NoStop)"
    using pool_step.lock [of "?s Locking True NoStop" 0] by (simp add: worker_at_def move_def tally_def)
  have 3: "pool_step (?s Testing True NoStop) Tau (?s Parking True NoStop)"
    using pool_step.park [of "?s Testing True NoStop" 0] by (simp add: worker_at_def move_def)
  have 4: "pool_step (?s Parking True NoStop) (Stopping None) (?s Parking False (Broadcast None))"
    using pool_step.stop [of "?s Parking True NoStop" None] by simp
  have 5: "pool_step (?s Parking False (Broadcast None)) Tau (?s Parking False (Joining None))"
    using pool_step.notify_all [of "?s Parking False (Broadcast None)" None] by (simp add: wake_all_def)
  have 6: "pool_step (?s Parking False (Joining None)) Tau (?s Asleep False (Joining None))"
    using pool_step.sleep [of "?s Parking False (Joining None)" 0] by (simp add: worker_at_def move_def)
  have "ThreadPool_new 1 = ?s AtLoop True NoStop" by (simp add: ThreadPool_new_def)
  with run_snoc [OF run_snoc [OF run_snoc [OF run_snoc [OF run_snoc [OF run_snoc [OF run_nil 1] 2] 3] 4] 5] 6]
  have "reachable (?s Asleep False (Joining None))" unfolding reachable_def by metis
  moreover have "\<exists>t. l = Submit t" if "pool_step (?s Asleep False (Joining None)) l p'" for l p'
    using that by (cases rule: pool_step.cases) (auto simp: worker_at_def)
  ultimately show ?thesis by (intro exI [of _ "?s Asleep False (Joining None)"]) simp
qed

text \<open>No worker left but tasks in the queue: they stay there until \<^verbatim>\<open>setThreadCount\<close> makes new workers.\<close>

fun restarts :: "'t label \<Rightarrow> bool" where
  "restarts (Stopping (Some n)) = True"
| "restarts _ = False"

definition deserted :: "'t ThreadPool \<Rightarrow> bool" where
  "deserted p \<longleftrightarrow> set (tp_threads p) \<subseteq> {Exited} \<and> tp_taskQueue p \<noteq> [] \<and> tp_stop p \<in> {NoStop, Broadcast None, Joining None}"

lemma deserted_step:
  assumes "pool_step p l p'" "deserted p" "\<not> restarts l"
  shows "deserted p' \<and> started [l] = []"
  using assms
proof (cases rule: pool_step.cases)
  case (stop r)
  with assms(2,3) show ?thesis by (cases r) (auto simp: deserted_def)
next
  case (notify_all r)
  with assms(2) show ?thesis by (auto simp: deserted_def wake_all_def split: if_splits)
qed (auto simp: deserted_def dest: at_in_set)

lemma deserted_waits:
  assumes "reachable p" "deserted p" "run p ls q" "list_all (\<lambda>l. \<not> restarts l) ls" "outstanding q < 2 ^ 64"
  shows "\<not> waitForCompletion_returns q \<and> started ls = []"
proof -
  have "deserted q \<and> started ls = []"
    using assms(3,2,4)
  proof (induction rule: run.induct)
    case (run_snoc p ls p1 l p2)
    with deserted_step [OF run_snoc(2)] show ?case by simp
  qed simp
  with waitForCompletion_iff [OF reachable_run [OF assms(1,3)] assms(5)] show ?thesis
    by (auto simp: deserted_def outstanding_def)
qed


lemma stop_phase:
  assumes "run p1 ls q" "list_all (\<lambda>l. \<not> calls_stop l) ls" "tp_stop p1 = Broadcast None" "\<not> tp_running p1"
  shows "\<not> tp_running q \<and> (tp_stop q \<in> {Broadcast None, Joining None} \<or> tp_stop q = NoStop \<and> set (tp_threads q) \<subseteq> {Exited})"
  using assms
proof (induction rule: run.induct)
  case (run_snoc p ls p1 l p2)
  then have *: "\<not> tp_running p1 \<and> (tp_stop p1 \<in> {Broadcast None, Joining None} \<or> tp_stop p1 = NoStop \<and> set (tp_threads p1) \<subseteq> {Exited})"
    and l: "\<not> calls_stop l" by simp_all
  from run_snoc(2) show ?case
    by (cases rule: pool_step.cases) (use * l in \<open>auto dest: at_in_set\<close>)
qed simp

text \<open>When \<^verbatim>\<open>stop\<close> returns every worker has left; tasks that were still queued are deserted.\<close>

lemma stop_returns:
  assumes "ThreadPool_stop p p'"
  shows "\<not> tp_running p' \<and> set (tp_threads p') \<subseteq> {Exited} \<and> (tp_taskQueue p' \<noteq> [] \<longrightarrow> deserted p')"
proof -
  obtain p1 ls where p1: "pool_step p (Stopping None) p1" "run p1 ls p'" "list_all (\<lambda>l. \<not> calls_stop l) ls" "tp_stop p' = NoStop"
    using assms by (auto simp: ThreadPool_stop_def stopped_by_def)
  from p1(1) have "tp_stop p1 = Broadcast None" "\<not> tp_running p1" by (auto elim: stoppingE)
  from stop_phase [OF p1(2,3) this] p1(4) show ?thesis by (auto simp: deserted_def)
qed


text \<open>A pool at rest can be stopped: the workers wake up and leave one after the other.\<close>

lemma leave_one:
  assumes "tp_threads p = replicate k Exited @ Locking # ts" "\<not> tp_running p" "tp_taskQueue p = []" "tally holds_lock p = 0"
  shows "run p [Tau, Tau] (p\<lparr>tp_threads := replicate (Suc k) Exited @ ts\<rparr>)"
proof -
  let ?p1 = "move p k Testing"
  have 1: "pool_step p Tau ?p1" using assms(1,4) by (intro pool_step.lock) (simp_all add: worker_at_def nth_append)
  have 2: "pool_step ?p1 Tau (move ?p1 k Exited)"
    using assms by (intro pool_step.quit) (simp_all add: worker_at_def nth_append)
  have "move ?p1 k Exited = p\<lparr>tp_threads := replicate (Suc k) Exited @ ts\<rparr>"
    using assms(1) by (simp add: move_def list_update_append replicate_app_Cons_same)
  with run_snoc [OF run_snoc [OF run_nil 1] 2] show ?thesis by simp
qed

lemma leave_all:
  assumes "tp_threads p = replicate k Exited @ replicate n Locking" "\<not> tp_running p" "tp_taskQueue p = []"
  shows "\<exists>ls. run p ls (p\<lparr>tp_threads := replicate (k + n) Exited\<rparr>) \<and> list_all own_step ls"
  using assms
proof (induction n arbitrary: k p)
  case 0
  then have "p\<lparr>tp_threads := replicate (k + 0) Exited\<rparr> = p" by (cases p) simp
  with run_nil [of p] show ?case by (intro exI [of _ "[]"]) simp
next
  case (Suc n)
  let ?p = "p\<lparr>tp_threads := replicate (Suc k) Exited @ replicate n Locking\<rparr>"
  have "tally holds_lock p = 0" using Suc.prems(1) by (simp add: tally_def)
  with Suc.prems have r: "run p [Tau, Tau] ?p" by (intro leave_one) simp_all
  obtain ls where "run ?p ls (?p\<lparr>tp_threads := replicate (Suc k + n) Exited\<rparr>)" "list_all own_step ls"
    using Suc.IH [of ?p "Suc k"] Suc.prems(2,3) by auto
  with run_trans [OF _ r] show ?case by (intro exI [of _ "[Tau, Tau] @ ls"]) simp
qed

lemma stop_possible:
  assumes "at_rest p"
  shows "\<exists>q. ThreadPool_stop p q"
proof -
  let ?n = "length (tp_threads p)"
  have t: "tp_threads p = replicate ?n Asleep" using assms by (metis at_rest_def replicate_length_same singletonD subsetD)
  let ?p1 = "p\<lparr>tp_running := False, tp_stop := Broadcast None\<rparr>"
  let ?p2 = "?p1\<lparr>tp_threads := wake_all (tp_threads ?p1), tp_stop := Joining None\<rparr>"
  let ?p3 = "?p2\<lparr>tp_threads := replicate (0 + ?n) Exited\<rparr>"
  have 1: "pool_step p (Stopping None) ?p1" using assms by (intro pool_step.stop) (simp_all add: at_rest_def)
  have 2: "pool_step ?p1 Tau ?p2" by (rule pool_step.notify_all) simp
  have "wake_all (tp_threads p) = replicate 0 Exited @ replicate ?n Locking" by (subst t) (simp add: wake_all_def)
  then obtain ls where ls: "run ?p2 ls ?p3" "list_all own_step ls"
    using leave_all [of ?p2 0 ?n] assms by (auto simp: at_rest_def)
  have 3: "pool_step ?p3 Tau (?p3\<lparr>tp_stop := NoStop\<rparr>)" by (rule pool_step.join) (auto simp: set_replicate_conv_if)
  have own: "list_all (\<lambda>l. \<not> calls_stop l) ls" if "list_all own_step ls" for ls :: "'a label list"
    using that by (induction ls) (auto, metis calls_stop.elims(2) own_step.simps(2))
  have "run ?p1 (([Tau] @ ls) @ [Tau]) (?p3\<lparr>tp_stop := NoStop\<rparr>)"
    using run_snoc [OF run_trans [OF ls(1) run_snoc [OF run_nil 2]] 3] by simp
  with 1 own [OF ls(2)] show ?thesis unfolding ThreadPool_stop_def stopped_by_def
    by (intro exI conjI) (assumption, assumption, simp_all)
qed

end
