(* ===== verification/SyncManager.thy ===== *)
theory SyncManager
  imports ThreadPool ClientSession Complex_Main
begin

text \<open>
  \<^verbatim>\<open>src/core/SyncManager.cpp\<close>: the object that owns the thread pool, the I/O handler and the file
  synchroniser.  A local synchronisation is a run of the pool: the caller submits one task per change and
  waits; a task acts on the file system when the pool finishes it, so tasks of different workers do not
  interleave inside one another.  The counter \<^verbatim>\<open>completedTasks\<close> is an ordinary variable that all workers
  increment: its load and its store are separate steps.
\<close>

section \<open>The counter of completed tasks\<close>

datatype bump = Todo | Loaded nat | Stored

inductive bump_step :: "nat \<times> bump list \<Rightarrow> nat \<times> bump list \<Rightarrow> bool" where
  load: "i < length bs \<Longrightarrow> bs ! i = Todo \<Longrightarrow> bump_step (v, bs) (v, bs[i := Loaded v])"
| store: "i < length bs \<Longrightarrow> bs ! i = Loaded x \<Longrightarrow> bump_step (v, bs) (x + 1, bs[i := Stored])"

definition counts_to :: "nat \<Rightarrow> nat \<Rightarrow> bool" where
  "counts_to n c \<longleftrightarrow> bump_step\<^sup>*\<^sup>* (0, replicate n Todo) (c, replicate n Stored)"

definition stores :: "bump list \<Rightarrow> nat" where
  "stores bs = sum_list (map (\<lambda>b. if b = Stored then 1 else 0) bs)"

definition bump_inv :: "nat \<times> bump list \<Rightarrow> bool" where
  "bump_inv s \<longleftrightarrow> fst s \<le> stores (snd s) \<and> (stores (snd s) > 0 \<longrightarrow> fst s > 0)
     \<and> (\<forall>x. Loaded x \<in> set (snd s) \<longrightarrow> x \<le> stores (snd s))"

lemma stores_update: "i < length bs \<Longrightarrow> stores (bs[i := b]) + (if bs ! i = Stored then 1 else 0) = stores bs + (if b = Stored then 1 else 0)"
  using sum_list_map_update [of i bs "\<lambda>b. if b = Stored then 1 else 0" b] by (simp add: stores_def)

lemma bump_inv_step:
  assumes "bump_step s s'" "bump_inv s"
  shows "bump_inv s'"
  using assms(1)
proof cases
  case (load i bs v)
  with stores_update [of i bs "Loaded v"] assms(2) show ?thesis
    by (auto simp: bump_inv_def dest!: set_update_subset_insert [THEN subsetD])
next
  case (store i bs x v)
  then have "x \<le> stores bs" using assms(2) nth_mem [of i bs] by (auto simp: bump_inv_def)
  with store stores_update [of i bs Stored] assms(2) show ?thesis
    by (fastforce simp: bump_inv_def dest!: set_update_subset_insert [THEN subsetD])
qed

lemma stores_replicate [simp]: "stores (replicate n Stored) = n" "stores (replicate n Todo) = 0"
  by (induction n) (auto simp: stores_def)

text \<open>Increments can be lost, but not the first one, and none is counted twice.\<close>

lemma counts_to_bounds:
  assumes "counts_to n c"
  shows "c \<le> n \<and> (0 < n \<longrightarrow> 0 < c)"
proof -
  have "bump_inv (0, replicate n Todo)" by (simp add: bump_inv_def)
  with assms have "bump_inv (c, replicate n Stored)"
    unfolding counts_to_def by (induction rule: rtranclp_induct) (auto intro: bump_inv_step)
  then show ?thesis by (simp add: bump_inv_def)
qed

lemma bump_one:
  assumes "k < n"
  shows "bump_step\<^sup>*\<^sup>* (k, replicate k Stored @ replicate (n - k) Todo) (Suc k, replicate (Suc k) Stored @ replicate (n - Suc k) Todo)"
proof -
  obtain m where m: "n - k = Suc m" using assms by (metis Suc_diff_Suc)
  let ?s = "replicate k Stored" and ?t = "replicate m Todo"
  have 1: "bump_step (k, ?s @ Todo # ?t) (k, ?s @ Loaded k # ?t)"
    using bump_step.load [of k "?s @ Todo # ?t" k] by (simp add: list_update_append nth_append)
  have 2: "bump_step (k, ?s @ Loaded k # ?t) (Suc k, ?s @ Stored # ?t)"
    using bump_step.store [of k "?s @ Loaded k # ?t" k k] by (simp add: list_update_append nth_append)
  have "bump_step\<^sup>*\<^sup>* (k, ?s @ Todo # ?t) (Suc k, ?s @ Stored # ?t)" using 1 2 by (meson r_into_rtranclp rtranclp_trans)
  moreover have "replicate (Suc k) Stored @ ?t = ?s @ Stored # ?t" by (simp add: replicate_app_Cons_same)
  moreover have "n - Suc k = m" using m by simp
  ultimately show ?thesis using m by simp
qed

text \<open>One increment after the other counts right; two at the same time may count one.\<close>

lemma counts_to_all: "counts_to n n"
proof -
  have "k \<le> n \<Longrightarrow> bump_step\<^sup>*\<^sup>* (0, replicate n Todo) (k, replicate k Stored @ replicate (n - k) Todo)" for k
  proof (induction k)
    case (Suc k)
    with bump_one [of k n] show ?case by simp
  qed simp
  from this [of n] show ?thesis by (simp add: counts_to_def)
qed

lemma lost_increment: "counts_to 2 1"
proof -
  have r: "replicate 2 b = [b, b]" for b :: bump by (simp add: numeral_2_eq_2)
  have "bump_step (0, [Todo, Todo]) (0, [Loaded 0, Todo])" using bump_step.load [of 0 "[Todo, Todo]" 0] by simp
  moreover have "bump_step (0, [Loaded 0, Todo]) (0, [Loaded 0, Loaded 0])" using bump_step.load [of 1 "[Loaded 0, Todo]" 0] by simp
  moreover have "bump_step (0, [Loaded 0, Loaded 0]) (1, [Stored, Loaded 0])" using bump_step.store [of 0 "[Loaded 0, Loaded 0]" 0 0] by simp
  moreover have "bump_step (1, [Stored, Loaded 0]) (1, [Stored, Stored])" using bump_step.store [of 1 "[Stored, Loaded 0]" 0 1] by simp
  ultimately show ?thesis unfolding counts_to_def r by (meson r_into_rtranclp rtranclp_trans)
qed

section \<open>The manager\<close>

record SyncManager =
  sm_threadPool :: "SyncTask ThreadPool option"
  sm_asyncIOHandler :: "send_callback AsyncIOHandler option"
  sm_fileSync :: "FileSync option"
  sm_syncing :: bool
  sm_totalTasks :: nat
  sm_completedTasks :: nat

definition SyncManager_new :: SyncManager where
  "SyncManager_new = \<lparr>sm_threadPool = None, sm_asyncIOHandler = None, sm_fileSync = None, sm_syncing = False,
     sm_totalTasks = 0, sm_completedTasks = 0\<rparr>"

definition SyncManager_init :: "int \<Rightarrow> SyncManager \<Rightarrow> nat \<Rightarrow> SyncManager" where
  "SyncManager_init epollFd m threadCount =
     m\<lparr>sm_threadPool := Some (ThreadPool_new threadCount),
       sm_asyncIOHandler := Some (AsyncIOHandler_start (AsyncIOHandler_new epollFd)),
       sm_fileSync := Some (setAsyncIOHandler (setThreadPool FileSync_new True) True)\<rparr>"

text \<open>What a task does to the file system; the result of \<^verbatim>\<open>executeSyncTask\<close> is not looked at.\<close>

definition processSyncTask :: "FileSync \<Rightarrow> nat list \<Rightarrow> SyncTask \<Rightarrow> world \<Rightarrow> world" where
  "processSyncTask fs sched task w = snd (executeSyncTask fs sched w task)"

text \<open>A call of \<^verbatim>\<open>syncLocal\<close> that returns: the run of the pool from the first \<^verbatim>\<open>submit\<close> to the moment
  \<^verbatim>\<open>waitForCompletion\<close> finds no active task.\<close>

inductive SyncManager_syncLocal ::
    "nat \<Rightarrow> 'c md5_api \<Rightarrow> (meta_map \<Rightarrow> meta_map) \<Rightarrow> nat list \<Rightarrow> SyncManager \<Rightarrow> world \<Rightarrow> string \<Rightarrow> string \<Rightarrow> bool \<Rightarrow>
     bool \<Rightarrow> SyncManager \<Rightarrow> world \<Rightarrow> bool"
  for fuel M ord sched m w srcDir destDir recursive where
  completes: "sm_fileSync m = Some fs \<Longrightarrow> sm_threadPool m = Some p \<Longrightarrow>
     detectChanges fuel M ord w srcDir destDir = Some (tasks, w1) \<Longrightarrow>
     run p ls q \<Longrightarrow> submitted ls = tasks \<Longrightarrow> list_all (\<lambda>l. \<not> calls_stop l) ls \<Longrightarrow> waitForCompletion_returns q \<Longrightarrow>
     counts_to (length (finished ls)) c \<Longrightarrow>
     SyncManager_syncLocal fuel M ord sched m w srcDir destDir recursive True
       (m\<lparr>sm_threadPool := Some q, sm_syncing := False, sm_totalTasks := length tasks, sm_completedTasks := c\<rparr>)
       (fold (processSyncTask fs sched) (finished ls) w1)"

inductive_cases manager_syncLocalE: "SyncManager_syncLocal fuel M ord sched m w srcDir destDir recursive r m' w'"

text \<open>The other two synchronisations run on the calling thread; without \<^verbatim>\<open>init\<close> they dereference a null pointer.\<close>

definition SyncManager_syncRemote ::
    "nat \<Rightarrow> 'c md5_api \<Rightarrow> (meta_map \<Rightarrow> meta_map) \<Rightarrow> io_event list \<Rightarrow> SyncManager \<Rightarrow> world \<Rightarrow> string \<Rightarrow> string \<Rightarrow> string \<Rightarrow> int \<Rightarrow> bool \<Rightarrow>
     (bool \<times> SyncManager \<times> world) option" where
  "SyncManager_syncRemote fuel M ord evs m w srcDir destDir host port resume =
     (case sm_fileSync m of None \<Rightarrow> None
      | Some fs \<Rightarrow>
          (case syncRemote fuel M ord fs evs (sm_asyncIOHandler m) w srcDir destDir host port resume of None \<Rightarrow> None
           | Some (result, handler, w1) \<Rightarrow>
               Some (result, m\<lparr>sm_asyncIOHandler := handler, sm_syncing := False, sm_totalTasks := 0, sm_completedTasks := 0\<rparr>, w1)))"

definition SyncManager_resumeSync :: "SyncManager \<Rightarrow> world \<Rightarrow> string \<Rightarrow> string \<Rightarrow> (bool \<times> world) option" where
  "SyncManager_resumeSync m w srcPath destPath = map_option (\<lambda>fs. resumeSync fs w srcPath destPath) (sm_fileSync m)"

definition SyncManager_setSpeedLimit :: "SyncManager \<Rightarrow> nat \<Rightarrow> SyncManager" where
  "SyncManager_setSpeedLimit m limit = m\<lparr>sm_fileSync := map_option (\<lambda>fs. setSpeedLimit fs limit) (sm_fileSync m)\<rparr>"

definition SyncManager_setConflictStrategy :: "SyncManager \<Rightarrow> string \<Rightarrow> SyncManager" where
  "SyncManager_setConflictStrategy m strategy = m\<lparr>sm_fileSync := map_option (\<lambda>fs. setConflictStrategy fs strategy) (sm_fileSync m)\<rparr>"

definition setThreadPoolSize :: "SyncManager \<Rightarrow> nat \<Rightarrow> SyncManager \<Rightarrow> bool" where
  "setThreadPoolSize m sz m' \<longleftrightarrow>
     (case sm_threadPool m of None \<Rightarrow> m' = m
      | Some p \<Rightarrow> (\<exists>q. setThreadCount p sz q \<and> m' = m\<lparr>sm_threadPool := Some q\<rparr>))"

text \<open>The percentage, as the exact quotient.\<close>

definition getSyncProgress :: "SyncManager \<Rightarrow> rat" where
  "getSyncProgress m = (if sm_totalTasks m = 0 then 0 else of_nat (sm_completedTasks m) / of_nat (sm_totalTasks m) * 100)"

definition SyncManager_stop :: "SyncManager \<Rightarrow> SyncManager \<Rightarrow> bool" where
  "SyncManager_stop m m' \<longleftrightarrow>
     (\<exists>pool. (case sm_threadPool m of None \<Rightarrow> pool = None | Some p \<Rightarrow> (\<exists>q. ThreadPool_stop p q \<and> pool = Some q)) \<and>
        m' = m\<lparr>sm_syncing := False, sm_threadPool := pool, sm_asyncIOHandler := map_option AsyncIOHandler_stop (sm_asyncIOHandler m)\<rparr>)"

definition isSyncing :: "SyncManager \<Rightarrow> bool" where
  "isSyncing m = sm_syncing m"

section \<open>A local synchronisation through the pool\<close>

text \<open>The pool of a manager between two calls.\<close>

definition idle_pool :: "SyncManager \<Rightarrow> bool" where
  "idle_pool m \<longleftrightarrow> (\<exists>p. sm_threadPool m = Some p \<and> reachable p \<and> outstanding p = 0)"

lemma manager_syncLocalD:
  assumes "SyncManager_syncLocal fuel M ord sched m w srcDir destDir rec r m' w'"
    and "detectChanges fuel M ord w srcDir destDir = Some (tasks, w1)"
  obtains fs p ls q c where "sm_fileSync m = Some fs" "sm_threadPool m = Some p" "run p ls q" "submitted ls = tasks"
    "list_all (\<lambda>l. \<not> calls_stop l) ls" "waitForCompletion_returns q" "counts_to (length (finished ls)) c" "r = True"
    "m' = m\<lparr>sm_threadPool := Some q, sm_syncing := False, sm_totalTasks := length tasks, sm_completedTasks := c\<rparr>"
    "w' = fold (processSyncTask fs sched) (finished ls) w1"
  using assms by (elim manager_syncLocalE) auto

lemma manager_run:
  assumes s: "SyncManager_syncLocal fuel M ord sched m w srcDir destDir rec r m' w'" and i: "idle_pool m"
    and det: "detectChanges fuel M ord w srcDir destDir = Some (tasks, w1)" and n: "length tasks < 2 ^ 64"
  obtains fs ts c where "r = True" "sm_fileSync m = Some fs" "mset ts = mset tasks" "w' = fold (processSyncTask fs sched) ts w1"
    "sm_totalTasks m' = length tasks" "sm_completedTasks m' = c" "counts_to (length tasks) c" "idle_pool m'" "\<not> isSyncing m'"
    "sm_fileSync m' = sm_fileSync m"
proof -
  from manager_syncLocalD [OF s det] obtain fs p ls q c where e: "sm_fileSync m = Some fs" "sm_threadPool m = Some p"
    "run p ls q" "submitted ls = tasks" "waitForCompletion_returns q" "counts_to (length (finished ls)) c" "r = True"
    "m' = m\<lparr>sm_threadPool := Some q, sm_syncing := False, sm_totalTasks := length tasks, sm_completedTasks := c\<rparr>"
    "w' = fold (processSyncTask fs sched) (finished ls) w1" by metis
  have p: "reachable p" "outstanding p = 0" using i e(2) by (auto simp: idle_pool_def)
  have "outstanding q < 2 ^ 64" using outstanding_run [OF e(3)] p(2) e(4) n by simp
  note d = waitForCompletion_all_done [OF p e(3,5) this]
  have m: "mset (finished ls) = mset tasks" "outstanding q = 0" using d e(4) by simp_all
  then have l: "length (finished ls) = length tasks" by (metis size_mset)
  have "idle_pool m'" using e(8) m(2) reachable_run [OF p(1) e(3)] by (simp add: idle_pool_def)
  with that [of fs "finished ls" c] e m(1) l show thesis by (simp add: isSyncing_def)
qed

text \<open>When every task succeeds in every order, the pool does what the sequential loop does.\<close>

lemma fold_execute: "execute_tasks fs sched w ts = (True, w') \<Longrightarrow> fold (processSyncTask fs sched) ts w = w'"
  by (induction ts arbitrary: w) (auto simp: processSyncTask_def split: prod.splits if_splits)

lemma manager_mirrors:
  assumes s: "SyncManager_syncLocal fuel M ord sched m w srcDir destDir rec r m' w'" and i: "idle_pool m"
    and M: "md5_stream M" and ord: "lists_entries ord" and fs: "sm_fileSync m = Some fs" "fsy_conflictStrategy fs = ''overwrite''"
    and rd: "mirror_ready w srcDir ks destDir fuel" and dest: "resolve w destDir = Some (path_key w destDir)" "is_dir (w_fs w) (path_key w destDir)"
    and n: "\<And>tasks. detectChanges fuel M ord w srcDir destDir = Some (tasks, w) \<Longrightarrow> length tasks < 2 ^ 64"
  shows "r = True \<and> (\<forall>rel x d. rel \<noteq> [] \<and> content w (ks @ rel) = Some (x, d) \<longrightarrow> mirrored M (path_key w destDir) w' rel x d)
     \<and> (\<forall>rel. content w' (ks @ rel) = content w (ks @ rel))
     \<and> grow {path_key w destDir @ rel | rel. rel \<noteq> []} (path_prefixes w destDir) w w'"
proof -
  have sc: "w_script w = []" using rd by (simp add: mirror_ready_def)
  have gr: "grow {} (path_prefixes w destDir) w w" by (simp add: grow_def)
  obtain tasks where tk: "detectChanges fuel M ord w srcDir destDir = Some (tasks, w)"
    "\<forall>ts. set ts = set tasks \<longrightarrow> (\<exists>w'. execute_tasks fs sched w ts = (True, w')
       \<and> (\<forall>rel m d. rel \<noteq> [] \<and> content w (ks @ rel) = Some (m, d) \<longrightarrow> mirrored M (path_key w destDir) w' rel m d)
       \<and> (\<forall>rel. content w' (ks @ rel) = content w (ks @ rel))
       \<and> grow {path_key w destDir @ rel | rel. rel \<noteq> []} (path_prefixes w destDir) w w')"
    using mirror_tasks [OF M ord fs(2) rd sc dest gr] by blast
  obtain ts where ts: "r = True" "mset ts = mset tasks" "w' = fold (processSyncTask fs sched) ts w"
    using manager_run [OF s i tk(1) n [OF tk(1)]] fs(1) by (metis option.inject)
  then have "set ts = set tasks" by (metis set_mset_mset)
  with tk(2) obtain v where v: "execute_tasks fs sched w ts = (True, v)"
    "(\<forall>rel m d. rel \<noteq> [] \<and> content w (ks @ rel) = Some (m, d) \<longrightarrow> mirrored M (path_key w destDir) v rel m d)
       \<and> (\<forall>rel. content v (ks @ rel) = content w (ks @ rel))
       \<and> grow {path_key w destDir @ rel | rel. rel \<noteq> []} (path_prefixes w destDir) w v" by blast
  with fold_execute [OF v(1)] ts show ?thesis by simp
qed

text \<open>With at least one worker the call can always be completed; with none, only if there is nothing to do.\<close>

lemma manager_returns:
  assumes "sm_fileSync m = Some fs" "sm_threadPool m = Some (ThreadPool_new (Suc n))"
    and "detectChanges fuel M ord w srcDir destDir = Some (tasks, w1)"
  shows "\<exists>m' w' q. SyncManager_syncLocal fuel M ord sched m w srcDir destDir rec True m' w' \<and> sm_threadPool m' = Some q \<and> at_rest q"
proof -
  let ?p = "ThreadPool_new (Suc n) :: SyncTask ThreadPool"
  obtain p1 where p1: "run ?p (map Submit tasks) p1" "tp_running p1" "tp_stop p1 = NoStop" "tp_threads p1 = tp_threads ?p"
    using submit_all [of ?p tasks] by auto
  have "reachable p1" using reachable_run [OF reachable_new p1(1)] .
  moreover have "tp_threads p1 \<noteq> []" using p1(4) new_pool(6) [of "Suc n"] by (metis list.size(3) nat.distinct(1))
  ultimately obtain ls q where q: "run p1 ls q" "list_all own_step ls" "waitForCompletion_returns q" "at_rest q"
    using settling_run p1(2,3) by blast
  have own: "submitted ls = []" "list_all (\<lambda>l. \<not> calls_stop l) ls" if "list_all own_step ls" for ls :: "SyncTask label list"
    using that by (induction ls rule: submitted.induct) auto
  have sub: "submitted (map Submit ts) = ts" "list_all (\<lambda>l. \<not> calls_stop l) (map Submit ts)" for ts :: "SyncTask list"
    by (induction ts) auto
  have "SyncManager_syncLocal fuel M ord sched m w srcDir destDir rec True
      (m\<lparr>sm_threadPool := Some q, sm_syncing := False, sm_totalTasks := length tasks,
         sm_completedTasks := length (finished (map Submit tasks @ ls))\<rparr>)
      (fold (processSyncTask fs sched) (finished (map Submit tasks @ ls)) w1)"
    using own [OF q(2)] sub by (intro completes [OF assms run_trans [OF q(1) p1(1)] _ _ q(3) counts_to_all]) (simp_all add: list_all_append)
  with q(4) show ?thesis by (intro exI conjI) (assumption, simp_all)
qed

lemma manager_without_workers:
  assumes s: "SyncManager_syncLocal fuel M ord sched m w srcDir destDir rec r m' w'"
    and p: "sm_threadPool m = Some (ThreadPool_new 0)"
    and det: "detectChanges fuel M ord w srcDir destDir = Some (tasks, w1)" and n: "length tasks < 2 ^ 64"
  shows "tasks = []"
proof -
  from manager_syncLocalD [OF s det] p obtain ls q where r: "run (ThreadPool_new 0) ls q" "submitted ls = tasks"
    "waitForCompletion_returns q" "list_all (\<lambda>l. \<not> calls_stop l) ls" by (metis option.inject)
  have none: "tp_threads q = [] \<and> started ls = [] \<and> tp_stop q = NoStop" if "run (ThreadPool_new 0) ls q" "list_all (\<lambda>l. \<not> calls_stop l) ls"
      for ls and q :: "SyncTask ThreadPool"
      using that
    proof (induction "ThreadPool_new 0 :: SyncTask ThreadPool" ls q rule: run.induct)
      case (run_snoc ls p1 l p2)
      then have p1: "tp_threads p1 = []" "tp_stop p1 = NoStop" "started ls = []" "\<not> calls_stop l" by simp_all
      from run_snoc(3) show ?case by (cases rule: pool_step.cases) (use p1 in \<open>auto simp: worker_at_def\<close>)
    qed (simp add: ThreadPool_new_def)
    have "outstanding q < 2 ^ 64" using outstanding_run [OF r(1)] r(2) n by simp
    from waitForCompletion_all_done [OF reachable_new _ r(1,3) this] none [OF r(1,4)] r(2) show ?thesis by simp
qed

lemma progress_bounds:
  assumes "counts_to n c" "sm_totalTasks m = n" "sm_completedTasks m = c"
  shows "0 \<le> getSyncProgress m \<and> getSyncProgress m \<le> 100 \<and> (0 < n \<longrightarrow> 0 < getSyncProgress m)"
  using counts_to_bounds [OF assms(1)] assms(2,3) by (auto simp: getSyncProgress_def divide_simps)

end
