(* ===== verification/LogUtil.thy ===== *)
theory LogUtil
  imports Prelude
begin

text \<open>
  \<^verbatim>\<open>src/utils/LogUtil.cpp\<close> and \<^verbatim>\<open>src/utils/ExceptionHandler.cpp\<close>: the static logger with its level, its file
  stream and the two console streams, and the handlers that log an exception.  The time stamp that
  \<^verbatim>\<open>strftime\<close> makes is an argument.
\<close>

section \<open>Levels\<close>

datatype LogLevel = LOG_INFO | LOG_WARN | LOG_ERROR

fun level_value :: "LogLevel \<Rightarrow> nat" where
  "level_value LOG_INFO = 0"
| "level_value LOG_WARN = 1"
| "level_value LOG_ERROR = 2"

lemma level_value_inject [simp]: "level_value a = level_value b \<longleftrightarrow> a = b"
  by (cases a; cases b) simp_all

instantiation LogLevel :: linorder
begin

definition less_eq_LogLevel :: "LogLevel \<Rightarrow> LogLevel \<Rightarrow> bool" where
  "less_eq_LogLevel a b \<longleftrightarrow> level_value a \<le> level_value b"

definition less_LogLevel :: "LogLevel \<Rightarrow> LogLevel \<Rightarrow> bool" where
  "less_LogLevel a b \<longleftrightarrow> level_value a < level_value b"

instance
  by standard (auto simp: less_eq_LogLevel_def less_LogLevel_def)

end

lemma level_bounds [simp]: "LOG_INFO \<le> l" "l \<le> LOG_ERROR"
  by (cases l; simp add: less_eq_LogLevel_def)+

section \<open>The logger\<close>

text \<open>\<open>lu_files\<close> holds the lines of every log file; \<open>lu_failed\<close> is the fail bit of the stream, which
  \<^verbatim>\<open>is_open\<close> does not look at.\<close>

record LogUtil =
  lu_path :: string
  lu_is_open :: bool
  lu_failed :: bool
  lu_files :: "string \<Rightarrow> string list"
  lu_currentLevel :: LogLevel
  lu_consoleOutput :: bool
  lu_cout :: "string list"
  lu_cerr :: "string list"

definition LogUtil_static :: LogUtil where
  "LogUtil_static = \<lparr>lu_path = [], lu_is_open = False, lu_failed = False, lu_files = (\<lambda>_. []), lu_currentLevel = LOG_INFO,
     lu_consoleOutput = True, lu_cout = [], lu_cerr = []\<rparr>"

text \<open>\<^verbatim>\<open>open\<close> fails on a stream that is open; on success it clears the fail bit.\<close>

definition LogUtil_init :: "(string \<Rightarrow> bool) \<Rightarrow> LogUtil \<Rightarrow> string \<Rightarrow> LogLevel \<Rightarrow> LogUtil" where
  "LogUtil_init can_open g logPath level =
     (if lu_is_open g \<or> \<not> can_open logPath then g\<lparr>lu_failed := True\<rparr>
      else g\<lparr>lu_path := logPath, lu_is_open := True, lu_failed := False\<rparr>)
     \<lparr>lu_currentLevel := level, lu_consoleOutput := True\<rparr>"

definition LogUtil_close :: "LogUtil \<Rightarrow> LogUtil" where
  "LogUtil_close g = (if lu_is_open g then g\<lparr>lu_is_open := False\<rparr> else g)"

fun level_str :: "LogLevel \<Rightarrow> string" where
  "level_str LOG_INFO = ''INFO''"
| "level_str LOG_WARN = ''WARN''"
| "level_str LOG_ERROR = ''ERROR''"

definition formatMessage :: "string \<Rightarrow> LogLevel \<Rightarrow> string \<Rightarrow> string" where
  "formatMessage time_buffer level message = time_buffer @ '' ['' @ level_str level @ ''] '' @ message"

text \<open>\<^verbatim>\<open>if (logFile.is_open()) logFile << formatted << std::endl\<close>\<close>

definition log_to_file :: "string \<Rightarrow> LogUtil \<Rightarrow> LogUtil" where
  "log_to_file line g =
     (if lu_is_open g \<and> \<not> lu_failed g then g\<lparr>lu_files := (lu_files g)(lu_path g := lu_files g (lu_path g) @ [line])\<rparr> else g)"

definition LogUtil_info :: "string \<Rightarrow> string \<Rightarrow> LogUtil \<Rightarrow> LogUtil" where
  "LogUtil_info now message g =
     (if lu_currentLevel g \<le> LOG_INFO then
        (let formatted = formatMessage now LOG_INFO message;
             g1 = (if lu_consoleOutput g then g\<lparr>lu_cout := lu_cout g @ [formatted]\<rparr> else g)
         in log_to_file formatted g1)
      else g)"

definition LogUtil_warn :: "string \<Rightarrow> string \<Rightarrow> LogUtil \<Rightarrow> LogUtil" where
  "LogUtil_warn now message g =
     (if lu_currentLevel g \<le> LOG_WARN then
        (let formatted = formatMessage now LOG_WARN message;
             g1 = (if lu_consoleOutput g then g\<lparr>lu_cout := lu_cout g @ [formatted]\<rparr> else g)
         in log_to_file formatted g1)
      else g)"

definition LogUtil_error :: "string \<Rightarrow> string \<Rightarrow> LogUtil \<Rightarrow> LogUtil" where
  "LogUtil_error now message g =
     (if lu_currentLevel g \<le> LOG_ERROR then
        (let formatted = formatMessage now LOG_ERROR message;
             g1 = (if lu_consoleOutput g then g\<lparr>lu_cerr := lu_cerr g @ [formatted]\<rparr> else g)
         in log_to_file formatted g1)
      else g)"

definition setLogLevel :: "LogLevel \<Rightarrow> LogUtil \<Rightarrow> LogUtil" where
  "setLogLevel level g = g\<lparr>lu_currentLevel := level\<rparr>"

definition enableConsoleOutput :: "bool \<Rightarrow> LogUtil \<Rightarrow> LogUtil" where
  "enableConsoleOutput enable g = g\<lparr>lu_consoleOutput := enable\<rparr>"

section \<open>Exceptions\<close>

text \<open>\<^verbatim>\<open>NetworkException\<close> and \<^verbatim>\<open>FileException\<close> are kinds of \<^verbatim>\<open>SyncException\<close>; all carry a message.\<close>

datatype SyncException = PlainSyncException (ex_what: string) | NetworkException (ex_what: string) | FileException (ex_what: string)

definition handleException :: "string \<Rightarrow> SyncException \<Rightarrow> LogUtil \<Rightarrow> LogUtil" where
  "handleException now e = LogUtil_error now (''Sync Exception: '' @ ex_what e)"

definition handleNetworkException :: "string \<Rightarrow> SyncException \<Rightarrow> LogUtil \<Rightarrow> LogUtil" where
  "handleNetworkException now e = LogUtil_error now (''Network Exception: '' @ ex_what e)"

definition handleFileException :: "string \<Rightarrow> SyncException \<Rightarrow> LogUtil \<Rightarrow> LogUtil" where
  "handleFileException now e = LogUtil_error now (''File Exception: '' @ ex_what e)"

definition handleUnknownException :: "string \<Rightarrow> LogUtil \<Rightarrow> LogUtil" where
  "handleUnknownException now = LogUtil_error now ''Unknown Exception occurred''"

section \<open>What gets through\<close>

text \<open>A session of log calls.\<close>

fun log_at :: "LogLevel \<Rightarrow> string \<Rightarrow> string \<Rightarrow> LogUtil \<Rightarrow> LogUtil" where
  "log_at LOG_INFO now msg g = LogUtil_info now msg g"
| "log_at LOG_WARN now msg g = LogUtil_warn now msg g"
| "log_at LOG_ERROR now msg g = LogUtil_error now msg g"

definition log_all :: "string \<Rightarrow> (LogLevel \<times> string) list \<Rightarrow> LogUtil \<Rightarrow> LogUtil" where
  "log_all now ms g = fold (\<lambda>(l, m). log_at l now m) ms g"

definition kept :: "LogUtil \<Rightarrow> (LogLevel \<times> string) list \<Rightarrow> (LogLevel \<times> string) list" where
  "kept g ms = filter (\<lambda>(l, m). lu_currentLevel g \<le> l) ms"

definition lines_of :: "string \<Rightarrow> (LogLevel \<times> string) list \<Rightarrow> string list" where
  "lines_of now ms = map (\<lambda>(l, m). formatMessage now l m) ms"

lemma log_at_eq:
  "log_at l now m g = (if lu_currentLevel g \<le> l then
     log_to_file (formatMessage now l m) (if lu_consoleOutput g
       then (if l = LOG_ERROR then g\<lparr>lu_cerr := lu_cerr g @ [formatMessage now l m]\<rparr> else g\<lparr>lu_cout := lu_cout g @ [formatMessage now l m]\<rparr>)
       else g) else g)"
  by (cases l) (simp_all add: LogUtil_info_def LogUtil_warn_def LogUtil_error_def Let_def)

lemma log_to_file_simps [simp]:
  "lu_currentLevel (log_to_file x g) = lu_currentLevel g" "lu_consoleOutput (log_to_file x g) = lu_consoleOutput g"
  "lu_is_open (log_to_file x g) = lu_is_open g" "lu_failed (log_to_file x g) = lu_failed g" "lu_path (log_to_file x g) = lu_path g"
  "lu_cout (log_to_file x g) = lu_cout g" "lu_cerr (log_to_file x g) = lu_cerr g"
  "lu_files (log_to_file x g) = (if lu_is_open g \<and> \<not> lu_failed g
     then (lu_files g)(lu_path g := lu_files g (lu_path g) @ [x]) else lu_files g)"
  by (simp_all add: log_to_file_def)

lemma kept_one: "kept g [(l, m)] = (if lu_currentLevel g \<le> l then [(l, m)] else [])"
  by (simp add: kept_def)

lemma not_error: "l < LOG_ERROR \<longleftrightarrow> l \<noteq> LOG_ERROR"
  by (simp add: less_le)

lemma log_at_facts:
  "lu_currentLevel (log_at l now m g) = lu_currentLevel g" "lu_consoleOutput (log_at l now m g) = lu_consoleOutput g"
  "lu_is_open (log_at l now m g) = lu_is_open g" "lu_failed (log_at l now m g) = lu_failed g" "lu_path (log_at l now m g) = lu_path g"
  "lu_files (log_at l now m g) = (if lu_is_open g \<and> \<not> lu_failed g
     then (lu_files g)(lu_path g := lu_files g (lu_path g) @ lines_of now (kept g [(l, m)])) else lu_files g)"
  "lu_cout (log_at l now m g) = lu_cout g @ (if lu_consoleOutput g then lines_of now (filter (\<lambda>(l, m). l < LOG_ERROR) (kept g [(l, m)])) else [])"
  "lu_cerr (log_at l now m g) = lu_cerr g @ (if lu_consoleOutput g then lines_of now (filter (\<lambda>(l, m). l = LOG_ERROR) (kept g [(l, m)])) else [])"
  by (auto simp: log_at_eq kept_one lines_of_def not_error)

lemma log_all_filtered:
  "lu_files (log_all now ms g) = (if lu_is_open g \<and> \<not> lu_failed g
     then (lu_files g)(lu_path g := lu_files g (lu_path g) @ lines_of now (kept g ms)) else lu_files g)
   \<and> lu_cout (log_all now ms g) = lu_cout g @ (if lu_consoleOutput g then lines_of now (filter (\<lambda>(l, m). l < LOG_ERROR) (kept g ms)) else [])
   \<and> lu_cerr (log_all now ms g) = lu_cerr g @ (if lu_consoleOutput g then lines_of now (filter (\<lambda>(l, m). l = LOG_ERROR) (kept g ms)) else [])"
proof (induction ms arbitrary: g)
  case Nil
  then show ?case by (simp add: log_all_def kept_def lines_of_def)
next
  case (Cons x ms)
  obtain l m where x: "x = (l, m)" by fastforce
  let ?g = "log_at l now m g"
  have s: "log_all now (x # ms) g = log_all now ms ?g" by (simp add: log_all_def x)
  have k: "kept ?g ms = kept g ms" "kept g (x # ms) = kept g [(l, m)] @ kept g ms" by (simp_all add: kept_def log_at_facts x)
  show ?case unfolding s using Cons.IH [of ?g] by (simp add: log_at_facts k lines_of_def)
qed

text \<open>Initialising a logger that is open silences its file until it is closed and opened again.\<close>

lemma reinit_silent:
  assumes "lu_is_open g"
  shows "lu_files (log_all now ms (LogUtil_init can_open g path level)) = lu_files g"
  using assms log_all_filtered [of now ms "LogUtil_init can_open g path level"] by (simp add: LogUtil_init_def)

end
