(* ===== verification/Cli.thy ===== *)
theory Cli
  imports SyncManager LogUtil
begin

text \<open>
  \<^verbatim>\<open>src/cli/main.cpp\<close>: the command line.  What \<^verbatim>\<open>getopt_long\<close> returns, call by call, is the input; the
  number conversions throw exceptions that nothing catches.  A run of \<^verbatim>\<open>main\<close> that ends is a relation,
  because the runs of the thread pool are.
\<close>

section \<open>Output\<close>

definition printHelp :: "string list" where
  "printHelp =
    [''Usage: sync-tool [options] source destination'',
     ''Options:'',
     ''  -s, --source       Source directory'',
     ''  -d, --destination  Destination directory'',
     ''  -h, --host         Remote host IP'',
     ''  -p, --port         Port number (default: 8888)'',
     ''  -t, --threads      Number of threads (default: 8)'',
     ''  -l, --limit        Speed limit (bytes/sec)'',
     ''  -c, --conflict     Conflict strategy (overwrite/skip/rename)'',
     ''  -r, --resume       Resume sync from breakpoint'',
     ''  --server           Start in server mode'',
     ''  --server-dir DIR   Server base directory for received files'',
     ''  --help             Show this help message'',
     ''  --version          Show version information'']"

definition printVersion :: "string list" where
  "printVersion = [''sync-tool version 1.0.0'']"

section \<open>Numbers\<close>

datatype conv_error = InvalidArgument | OutOfRange

text \<open>The common part of \<^verbatim>\<open>strtol\<close> and \<^verbatim>\<open>strtoul\<close>: sign and magnitude; what follows the digits is ignored.\<close>

definition scan_number :: "string \<Rightarrow> (bool \<times> nat) option" where
  "scan_number s =
     (let t = skip_ws s;
          neg = (t \<noteq> [] \<and> hd t = CHR ''-'');
          u = (if t \<noteq> [] \<and> (hd t = CHR ''-'' \<or> hd t = CHR ''+'') then tl t else t);
          ds = takeWhile is_digit u
      in if ds = [] then None else Some (neg, dec_value ds))"

definition stoi :: "string \<Rightarrow> conv_error + int" where
  "stoi s = (case scan_number s of None \<Rightarrow> Inl InvalidArgument
     | Some (neg, n) \<Rightarrow> let v = (if neg then - int n else int n)
         in if - (2 ^ 31) \<le> v \<and> v < 2 ^ 31 then Inr v else Inl OutOfRange)"

definition stoul :: "string \<Rightarrow> conv_error + nat" where
  "stoul s = (case scan_number s of None \<Rightarrow> Inl InvalidArgument
     | Some (neg, n) \<Rightarrow> if n \<ge> 2 ^ 64 then Inl OutOfRange
         else Inr (if neg then nat ((- int n) mod 2 ^ 64) else n))"

section \<open>Options\<close>

text \<open>One result of \<^verbatim>\<open>getopt_long\<close>: a character with its argument, one of the two values above 255, or 0 with
  the name of the long option.\<close>

datatype getopt_result = Opt char string | Server | ServerDir string | LongName string

record cli_options =
  co_source :: string
  co_destination :: string
  co_host :: string
  co_port :: int
  co_threads :: nat
  co_speedLimit :: nat
  co_conflictStrategy :: string
  co_resume :: bool
  co_remoteSync :: bool
  co_serverMode :: bool
  co_serverDir :: string

definition default_options :: cli_options where
  "default_options = \<lparr>co_source = [], co_destination = [], co_host = [], co_port = 8888, co_threads = 8, co_speedLimit = 0,
     co_conflictStrategy = ''overwrite'', co_resume = False, co_remoteSync = False, co_serverMode = False, co_serverDir = []\<rparr>"

text \<open>How the process ends: an exit code with what \<^verbatim>\<open>main\<close> itself wrote to the two streams (the lines of the
  logger apart), or an exception that nothing catches.\<close>

datatype outcome = Returns int "string list" "string list" | Uncaught conv_error

definition store_number :: "conv_error + 'a \<Rightarrow> ('a \<Rightarrow> cli_options) \<Rightarrow> outcome + cli_options" where
  "store_number r f = (case r of Inl e \<Rightarrow> Inl (Uncaught e) | Inr v \<Rightarrow> Inr (f v))"

fun parse_option :: "getopt_result \<Rightarrow> cli_options \<Rightarrow> outcome + cli_options" where
  "parse_option (Opt c optarg) opts =
     (if c = CHR ''s'' then Inr (opts\<lparr>co_source := optarg\<rparr>)
      else if c = CHR ''d'' then Inr (opts\<lparr>co_destination := optarg\<rparr>)
      else if c = CHR ''h'' then Inr (opts\<lparr>co_host := optarg, co_remoteSync := True\<rparr>)
      else if c = CHR ''p'' then store_number (stoi optarg) (\<lambda>v. opts\<lparr>co_port := v\<rparr>)
      else if c = CHR ''t'' then store_number (stoul optarg) (\<lambda>v. opts\<lparr>co_threads := v\<rparr>)
      else if c = CHR ''l'' then store_number (stoul optarg) (\<lambda>v. opts\<lparr>co_speedLimit := v\<rparr>)
      else if c = CHR ''c'' then Inr (opts\<lparr>co_conflictStrategy := optarg\<rparr>)
      else if c = CHR ''r'' then Inr (opts\<lparr>co_resume := True\<rparr>)
      else Inl (Returns 1 printHelp []))"
| "parse_option Server opts = Inr (opts\<lparr>co_serverMode := True\<rparr>)"
| "parse_option (ServerDir optarg) opts = Inr (opts\<lparr>co_serverDir := optarg\<rparr>)"
| "parse_option (LongName name) opts =
     (if name = ''help'' then Inl (Returns 0 printHelp [])
      else if name = ''version'' then Inl (Returns 0 printVersion [])
      else Inr opts)"

fun parse_options :: "getopt_result list \<Rightarrow> cli_options \<Rightarrow> outcome + cli_options" where
  "parse_options [] opts = Inr opts"
| "parse_options (r # rs) opts = (case parse_option r opts of Inl e \<Rightarrow> Inl e | Inr opts1 \<Rightarrow> parse_options rs opts1)"

section \<open>Server mode\<close>

text \<open>Until the signal arrives the accept thread and the workers serve the clients: after every wait the connections
  that are ready, whose sessions run one after the other.  An exception in a session ends in the worker.  Nobody serves when
  the accept thread cannot set up its epoll instance, which \<^verbatim>\<open>start\<close> does not notice.\<close>

fun handle_clients ::
    "nat \<Rightarrow> protobuf \<Rightarrow> 'c md5_api \<Rightarrow> nat \<Rightarrow> int list \<Rightarrow> SyncServer \<times> world \<Rightarrow> (SyncServer \<times> world) option" where
  "handle_clients fuel pb M maxvec [] sw = Some sw"
| "handle_clients fuel pb M maxvec (fd # fds) (srv, w) =
     (case handleClient fuel pb M maxvec srv fd w of None \<Rightarrow> None
      | Some (_, srv1, w1) \<Rightarrow> handle_clients fuel pb M maxvec fds (srv1, w1))"

fun serve_rounds ::
    "nat \<Rightarrow> protobuf \<Rightarrow> 'c md5_api \<Rightarrow> nat \<Rightarrow> accept_wait list \<Rightarrow> SyncServer \<times> world \<Rightarrow> (SyncServer \<times> world) option" where
  "serve_rounds fuel pb M maxvec [] sw = Some sw"
| "serve_rounds fuel pb M maxvec (x # xs) (srv, w) =
     (if \<not> sv_running srv then Some (srv, w)
      else case x of
        Events events \<Rightarrow>
          (let (fds, w1) = accept_events srv w events in
           case handle_clients fuel pb M maxvec fds (srv, w1) of None \<Rightarrow> None
           | Some sw \<Rightarrow> serve_rounds fuel pb M maxvec xs sw)
      | Interrupted \<Rightarrow> serve_rounds fuel pb M maxvec xs (srv, w)
      | WaitFailed \<Rightarrow> serve_rounds fuel pb M maxvec xs (srv, w)
      | TimedOut \<Rightarrow> serve_rounds fuel pb M maxvec xs (srv, w))"

definition accept_thread ::
    "nat \<Rightarrow> protobuf \<Rightarrow> 'c md5_api \<Rightarrow> nat \<Rightarrow> int \<Rightarrow> accept_wait list \<Rightarrow> SyncServer \<times> world \<Rightarrow> (SyncServer \<times> world) option" where
  "accept_thread fuel pb M maxvec epFd rounds sw =
     (let (srv, w) = sw; (ok, w1) = accept_setup epFd w
      in if \<not> ok then Some (srv, w1) else serve_rounds fuel pb M maxvec rounds (srv, w1))"

definition configured_server :: "cli_options \<Rightarrow> SyncServer" where
  "configured_server opts =
     (if co_serverDir opts \<noteq> [] then SyncServer_setBaseDirectory SyncServer_new (co_serverDir opts) else SyncServer_new)"

section \<open>Client mode\<close>

definition configured_manager :: "int \<Rightarrow> cli_options \<Rightarrow> SyncManager" where
  "configured_manager epollFd opts =
     (let m = SyncManager_init epollFd SyncManager_new (co_threads opts);
          m1 = (if co_speedLimit opts > 0 then SyncManager_setSpeedLimit m (co_speedLimit opts) else m)
      in SyncManager_setConflictStrategy m1 (co_conflictStrategy opts))"

definition run_sync ::
    "nat \<Rightarrow> 'c md5_api \<Rightarrow> (meta_map \<Rightarrow> meta_map) \<Rightarrow> nat list \<Rightarrow> io_event list \<Rightarrow> cli_options \<Rightarrow> SyncManager \<Rightarrow> world \<Rightarrow>
     bool \<Rightarrow> SyncManager \<Rightarrow> world \<Rightarrow> bool" where
  "run_sync fuel M ord sched evs opts m w success m1 w1 \<longleftrightarrow>
     (if co_resume opts \<and> co_remoteSync opts then
        SyncManager_syncRemote fuel M ord evs m w (co_source opts) (co_destination opts) (co_host opts) (co_port opts) True
          = Some (success, m1, w1)
      else if co_resume opts then
        m1 = m \<and> SyncManager_resumeSync m w (co_source opts) (co_destination opts) = Some (success, w1)
      else if co_remoteSync opts then
        SyncManager_syncRemote fuel M ord evs m w (co_source opts) (co_destination opts) (co_host opts) (co_port opts) False
          = Some (success, m1, w1)
      else SyncManager_syncLocal fuel M ord sched m w (co_source opts) (co_destination opts) True success m1 w1)"

section \<open>The program\<close>

definition missing_dirs :: "cli_options \<Rightarrow> bool" where
  "missing_dirs opts \<longleftrightarrow> co_source opts = [] \<or> co_destination opts = []"

inductive main ::
    "nat \<Rightarrow> 'c md5_api \<Rightarrow> (meta_map \<Rightarrow> meta_map) \<Rightarrow> nat list \<Rightarrow> io_event list \<Rightarrow> int \<Rightarrow> protobuf \<Rightarrow> nat \<Rightarrow>
     getopt_result list \<Rightarrow> world \<Rightarrow> outcome \<Rightarrow> world \<Rightarrow> bool"
  for fuel M ord sched evs epollFd pb maxvec rs w where
  early: "parse_options rs default_options = Inl e \<Longrightarrow> main fuel M ord sched evs epollFd pb maxvec rs w e w"
| server_fails: "parse_options rs default_options = Inr opts \<Longrightarrow> co_serverMode opts \<Longrightarrow>
    SyncServer_start w (configured_server opts) (co_port opts) (co_threads opts) = (False, srv, w1) \<Longrightarrow>
    main fuel M ord sched evs epollFd pb maxvec rs w (Returns 1 [] []) w1"
| server_ends: "parse_options rs default_options = Inr opts \<Longrightarrow> co_serverMode opts \<Longrightarrow>
    SyncServer_start w (configured_server opts) (co_port opts) (co_threads opts) = (True, srv, w1) \<Longrightarrow>
    accept_thread fuel pb M maxvec epFd rounds (srv, w1) = Some (srv2, w2) \<Longrightarrow>
    SyncServer_stop (sleep_ms (1000 * seconds) w2) srv2 = (srv3, w3) \<Longrightarrow>
    main fuel M ord sched evs epollFd pb maxvec rs w (Returns 0 [] []) w3"
| no_dirs: "parse_options rs default_options = Inr opts \<Longrightarrow> \<not> co_serverMode opts \<Longrightarrow> missing_dirs opts \<Longrightarrow>
    main fuel M ord sched evs epollFd pb maxvec rs w (Returns 1 printHelp [''Error: Source and destination directories are required'']) w"
| client: "parse_options rs default_options = Inr opts \<Longrightarrow> \<not> co_serverMode opts \<Longrightarrow> \<not> missing_dirs opts \<Longrightarrow>
    run_sync fuel M ord sched evs opts (configured_manager epollFd opts) w success m1 w1 \<Longrightarrow> SyncManager_stop m1 m2 \<Longrightarrow>
    main fuel M ord sched evs epollFd pb maxvec rs w (Returns (if success then 0 else 1) [] []) w1"

inductive_cases mainE: "main fuel M ord sched evs epollFd pb maxvec rs w out w'"

text \<open>The client mode of a given command line.\<close>

lemma main_client:
  assumes "parse_options rs default_options = Inr opts" "\<not> co_serverMode opts" "\<not> missing_dirs opts"
    and "main fuel M ord sched evs epollFd pb maxvec rs w out w'"
  obtains success m1 m2 where "out = Returns (if success then 0 else 1) [] []" "SyncManager_stop m1 m2"
    "run_sync fuel M ord sched evs opts (configured_manager epollFd opts) w success m1 w'"
  using assms(4) by (rule mainE) (use assms(1-3) that in auto)

lemma configured_manager_simps:
  "sm_threadPool (configured_manager e opts) = Some (ThreadPool_new (co_threads opts))"
  "\<exists>fs. sm_fileSync (configured_manager e opts) = Some fs \<and> fsy_conflictStrategy fs = co_conflictStrategy opts"
  by (auto simp: configured_manager_def SyncManager_setConflictStrategy_def SyncManager_setSpeedLimit_def SyncManager_init_def
      setConflictStrategy_def Let_def)

lemma local_run_sync:
  assumes "\<not> co_resume opts" "\<not> co_remoteSync opts"
  shows "run_sync fuel M ord sched evs opts m w s m1 w1 \<longleftrightarrow>
    SyncManager_syncLocal fuel M ord sched m w (co_source opts) (co_destination opts) True s m1 w1"
  using assms by (simp add: run_sync_def)

lemma main_local_mirrors:
  assumes opts: "parse_options rs default_options = Inr opts" "\<not> co_serverMode opts" "\<not> missing_dirs opts"
      "\<not> co_resume opts" "\<not> co_remoteSync opts" "co_conflictStrategy opts = ''overwrite''"
    and main: "main fuel M ord sched evs epollFd pb maxvec rs w out w'"
    and M: "md5_stream M" and ord: "lists_entries ord"
    and rd: "mirror_ready w (co_source opts) ks (co_destination opts) fuel"
    and dest: "resolve w (co_destination opts) = Some (path_key w (co_destination opts))" "is_dir (w_fs w) (path_key w (co_destination opts))"
    and n: "\<And>tasks. detectChanges fuel M ord w (co_source opts) (co_destination opts) = Some (tasks, w) \<Longrightarrow> length tasks < 2 ^ 64"
  shows "out = Returns 0 [] []
     \<and> (\<forall>rel x d. rel \<noteq> [] \<and> content w (ks @ rel) = Some (x, d) \<longrightarrow> mirrored M (path_key w (co_destination opts)) w' rel x d)
     \<and> (\<forall>rel. content w' (ks @ rel) = content w (ks @ rel))
     \<and> grow {path_key w (co_destination opts) @ rel | rel. rel \<noteq> []} (path_prefixes w (co_destination opts)) w w'"
proof -
  obtain s m1 m2 where r: "out = Returns (if s then 0 else 1) [] []"
    "SyncManager_syncLocal fuel M ord sched (configured_manager epollFd opts) w (co_source opts) (co_destination opts) True s m1 w'"
    using main_client [OF opts(1-3) main] local_run_sync [OF opts(4,5)] by metis
  obtain fs where fs: "sm_fileSync (configured_manager epollFd opts) = Some fs" "fsy_conflictStrategy fs = ''overwrite''"
    using configured_manager_simps(2) [of epollFd opts] opts(6) by auto
  have "idle_pool (configured_manager epollFd opts)" by (simp add: idle_pool_def configured_manager_simps(1))
  from manager_mirrors [OF r(2) this M ord fs rd dest n] r(1) show ?thesis by simp
qed

text \<open>With at least one worker the program can reach its end.\<close>

lemma main_local_returns:
  assumes opts: "parse_options rs default_options = Inr opts" "\<not> co_serverMode opts" "\<not> missing_dirs opts"
      "\<not> co_resume opts" "\<not> co_remoteSync opts" "0 < co_threads opts"
    and det: "detectChanges fuel M ord w (co_source opts) (co_destination opts) = Some (tasks, w1)"
  shows "\<exists>w'. main fuel M ord sched evs epollFd pb maxvec rs w (Returns 0 [] []) w'"
proof -
  let ?m = "configured_manager epollFd opts"
  obtain fs where fs: "sm_fileSync ?m = Some fs" using configured_manager_simps(2) [of epollFd opts] by auto
  obtain k where k: "co_threads opts = Suc k" using opts(6) by (metis gr0_conv_Suc)
  obtain m' w' q where r: "SyncManager_syncLocal fuel M ord sched ?m w (co_source opts) (co_destination opts) True True m' w'"
    "sm_threadPool m' = Some q" "at_rest q"
    using manager_returns [OF fs _ det, of k sched True] configured_manager_simps(1) [of epollFd opts] k by auto
  obtain q' where q': "ThreadPool_stop q q'" using stop_possible [OF r(3)] by blast
  have "SyncManager_stop m' (m'\<lparr>sm_syncing := False, sm_threadPool := Some q',
      sm_asyncIOHandler := map_option AsyncIOHandler_stop (sm_asyncIOHandler m')\<rparr>)"
    using r(2) q' by (auto simp: SyncManager_stop_def)
  moreover have "run_sync fuel M ord sched evs opts ?m w True m' w'" using r(1) local_run_sync [OF opts(4,5)] by blast
  ultimately show ?thesis using client [OF opts(1-3)] by fastforce
qed

text \<open>\<^verbatim>\<open>-t 0\<close>: a synchronisation with something to do never ends.\<close>

lemma main_without_workers:
  assumes opts: "parse_options rs default_options = Inr opts" "\<not> co_serverMode opts" "\<not> missing_dirs opts"
      "\<not> co_resume opts" "\<not> co_remoteSync opts" "co_threads opts = 0"
    and det: "detectChanges fuel M ord w (co_source opts) (co_destination opts) = Some (tasks, w1)" "tasks \<noteq> []" "length tasks < 2 ^ 64"
  shows "\<not> main fuel M ord sched evs epollFd pb maxvec rs w out w'"
proof
  assume main: "main fuel M ord sched evs epollFd pb maxvec rs w out w'"
  obtain s m1 where "SyncManager_syncLocal fuel M ord sched (configured_manager epollFd opts) w (co_source opts) (co_destination opts) True s m1 w'"
    using main_client [OF opts(1-3) main] local_run_sync [OF opts(4,5)] by metis
  from manager_without_workers [OF this _ det(1,3)] configured_manager_simps(1) [of epollFd opts] opts(6) det(2)
  show False by simp
qed

section \<open>Number arguments\<close>

lemma scan_digits:
  assumes "ds \<noteq> []" "list_all is_digit ds"
  shows "scan_number ds = Some (False, dec_value ds)" "scan_number (CHR ''-'' # ds) = Some (True, dec_value ds)"
proof -
  obtain c r where ds: "ds = c # r" "is_digit c" using assms by (cases ds) auto
  have c: "\<not> is_space c" "c \<noteq> CHR ''-''" "c \<noteq> CHR ''+''" using ds(2) by (auto simp: is_digit_def is_space_def)
  have t: "takeWhile is_digit ds = ds" using assms(2) by (simp only: list_all_iff takeWhile_eq_all_conv)
  have m: "\<not> is_space CHR ''-''" by code_simp
  show "scan_number ds = Some (False, dec_value ds)" using c t ds(1) by (simp add: scan_number_def skip_ws_def Let_def)
  show "scan_number (CHR ''-'' # ds) = Some (True, dec_value ds)" using m assms(1) by (simp add: scan_number_def skip_ws_def Let_def t)
qed

text \<open>A negative thread count or speed limit wraps around.\<close>

lemma stoul_negative:
  assumes "ds \<noteq> []" "list_all is_digit ds" "0 < dec_value ds" "dec_value ds < 2 ^ 64"
  shows "stoul (CHR ''-'' # ds) = Inr (2 ^ 64 - dec_value ds)"
proof -
  have "(- int (dec_value ds)) mod 2 ^ 64 = 2 ^ 64 - int (dec_value ds)"
    using assms(3,4) by (simp add: zmod_zminus1_eq_if)
  moreover have "nat (2 ^ 64 - int (dec_value ds)) = 2 ^ 64 - dec_value ds" by (simp add: nat_diff_distrib)
  ultimately show ?thesis using scan_digits(2) [OF assms(1,2)] assms(4) by (simp add: stoul_def)
qed

lemma stoi_range: "stoi s = Inr v \<Longrightarrow> - (2 ^ 31) \<le> v \<and> v < 2 ^ 31"
  by (auto simp: stoi_def Let_def split: option.splits prod.splits if_splits)

end
