(* ===== verification/ToolProperties.thy ===== *)
theory ToolProperties
  imports Samples Cli
begin

text \<open>
  The properties of the program around the two halves: the thread pool, the manager that runs the tasks
  of a local synchronisation on it, the command line and the logger.
\<close>

section \<open>The thread pool\<close>

text \<open>C15: In every state the pool can reach, \<^verbatim>\<open>activeTasks\<close> counts the queued and the running tasks modulo the width
  of the counter, at most one worker holds the mutex, a worker about to block has seen an empty queue,
  and while the pool runs a queued task always has a worker that is awake or a notification to come.\<close>

theorem pool_invariant:
  assumes "reachable p"
  shows "counted p \<and> exclusive p \<and> served p"
  using reachable_inv [OF assms] by blast

definition sample_pool :: "nat ThreadPool" where
  "sample_pool = \<lparr>tp_threads = [AtLoop], tp_taskQueue = [7], tp_running = True, tp_activeTasks = 1, tp_pending = 1, tp_stop = NoStop\<rparr>"

lemma sample_pool_run: "run (ThreadPool_new 1) [Submit 7] sample_pool"
proof -
  have "pool_step (ThreadPool_new 1) (Submit 7) sample_pool"
    using pool_step.submit [of "ThreadPool_new 1" "7 :: nat"] by (simp add: ThreadPool_new_def sample_pool_def tally_def)
  from run_snoc [OF run_nil this] show ?thesis by simp
qed

lemma sample_pool_reachable: "reachable sample_pool"
  unfolding reachable_def using sample_pool_run by blast

theorem pool_invariant_witness: "tp_activeTasks sample_pool = of_nat (length (tp_taskQueue sample_pool) + tally busy sample_pool)"
  using pool_invariant [OF sample_pool_reachable] by (simp add: counted_def)

text \<open>C8: From an idle pool, when \<^verbatim>\<open>waitForCompletion\<close> returns after any interleaving of submitters and workers, the
  tasks submitted have been started in the order of submission and each has been finished exactly once.\<close>

theorem pool_each_task_once:
  assumes "reachable p" "outstanding p = 0" "run p ls q" "waitForCompletion_returns q" "outstanding q < 2 ^ 64"
  shows "started ls = submitted ls \<and> mset (finished ls) = mset (submitted ls) \<and> outstanding q = 0"
  by (rule waitForCompletion_all_done [OF assms])

lemma own_run: "list_all own_step ls \<Longrightarrow> submitted ls = []"
  by (induction ls rule: submitted.induct) auto

theorem pool_each_task_once_witness:
  "\<exists>ls q. run (ThreadPool_new 1) ls q \<and> started ls = [7 :: nat] \<and> mset (finished ls) = {#7#} \<and> outstanding q = 0"
proof -
  obtain ls q where q: "run sample_pool ls q" "list_all own_step ls" "waitForCompletion_returns q" "at_rest q"
    using settling_run [OF sample_pool_reachable] by (auto simp: sample_pool_def)
  note r = run_trans [OF q(1) sample_pool_run]
  have "outstanding q \<le> 1" using outstanding_run [OF r] own_run [OF q(2)] by simp
  with pool_each_task_once [OF reachable_new _ r q(3)] own_run [OF q(2)] r show ?thesis
    by (intro exI [of _ "[Submit 7] @ ls"] exI [of _ q]) simp
qed

text \<open>C18: A running pool with at least one worker finishes: left alone, its workers can make only so many steps, and as
  long as \<^verbatim>\<open>waitForCompletion\<close> would not return there is a step that one of them can make.\<close>

theorem pool_never_stalls:
  assumes "reachable p" "tp_running p" "tp_stop p = NoStop" "tp_threads p \<noteq> []" "run p ls q" "list_all own_step ls"
  shows "length ls \<le> effort p \<and> (waitForCompletion_returns q \<or> (\<exists>l q'. own_step l \<and> pool_step q l q'))"
  by (rule pool_completes [OF assms])

theorem pool_never_stalls_witness: "\<exists>l q. own_step l \<and> pool_step sample_pool l q"
  using pool_never_stalls [OF sample_pool_reachable _ _ _ run_nil] by (simp add: sample_pool_def waitForCompletion_returns_def)

text \<open>C25: \<^verbatim>\<open>stop\<close> can hang: it clears the flag and notifies without the mutex, so that a worker between its test and its
  wait misses the notification; then \<^verbatim>\<open>join\<close> waits for a worker that nothing but a further task wakes.\<close>

theorem stop_can_hang:
  "\<exists>p. reachable p \<and> tp_stop p = Joining None \<and> tp_activeTasks p = 0
     \<and> {l. \<exists>p'. pool_step p l (p' :: 't ThreadPool)} \<subseteq> range Submit"
  using stop_hangs [where 't = 't] by blast

text \<open>C31: Tasks that are still queued when \<^verbatim>\<open>stop\<close> returns are never started, and \<^verbatim>\<open>waitForCompletion\<close> never returns,
  whatever is submitted, until \<^verbatim>\<open>setThreadCount\<close> makes new workers.\<close>

theorem stopped_pool_keeps_tasks:
  assumes "reachable p" "ThreadPool_stop p p'" "tp_taskQueue p' \<noteq> []"
    and "run p' ls q" "list_all (\<lambda>l. \<not> restarts l) ls" "outstanding q < 2 ^ 64"
  shows "\<not> waitForCompletion_returns q \<and> started ls = []"
proof -
  obtain p1 ms where p1: "pool_step p (Stopping None) p1" "run p1 ms p'"
    using assms(2) by (auto simp: ThreadPool_stop_def stopped_by_def)
  have "reachable p'" using reachable_run [OF assms(1) run_trans [OF p1(2) run_snoc [OF run_nil p1(1)]]] .
  moreover have "deserted p'" using stop_returns [OF assms(2)] assms(3) by blast
  ultimately show ?thesis using deserted_waits assms(4-6) by blast
qed

definition empty_pool :: "bool \<Rightarrow> stop_stage \<Rightarrow> nat ThreadPool" where
  "empty_pool running stage =
     \<lparr>tp_threads = [], tp_taskQueue = [7], tp_running = running, tp_activeTasks = 1, tp_pending = 1, tp_stop = stage\<rparr>"

theorem stopped_pool_keeps_tasks_witness: "\<not> waitForCompletion_returns (empty_pool False NoStop)"
proof -
  have 0: "pool_step (ThreadPool_new 0) (Submit 7) (empty_pool True NoStop)"
    using pool_step.submit [of "ThreadPool_new 0" "7 :: nat"] by (simp add: ThreadPool_new_def empty_pool_def tally_def)
  have 1: "pool_step (empty_pool True NoStop) (Stopping None) (empty_pool False (Broadcast None))"
    using pool_step.stop [of "empty_pool True NoStop" None] by (simp add: empty_pool_def)
  have 2: "pool_step (empty_pool False (Broadcast None)) Tau (empty_pool False (Joining None))"
    using pool_step.notify_all [of "empty_pool False (Broadcast None)" None] by (simp add: empty_pool_def wake_all_def)
  have 3: "pool_step (empty_pool False (Joining None)) Tau (empty_pool False NoStop)"
    using pool_step.join [of "empty_pool False (Joining None)"] by (simp add: empty_pool_def)
  have "reachable (empty_pool True NoStop)" using reachable_run [OF reachable_new run_snoc [OF run_nil 0]] .
  moreover have "ThreadPool_stop (empty_pool True NoStop) (empty_pool False NoStop)"
    unfolding ThreadPool_stop_def stopped_by_def
    using 1 run_snoc [OF run_snoc [OF run_nil 2] 3] by (intro exI conjI) (assumption+, simp_all add: empty_pool_def)
  moreover have "tp_taskQueue (empty_pool False NoStop) \<noteq> []" "outstanding (empty_pool False NoStop) < 2 ^ 64"
    by (simp_all add: empty_pool_def outstanding_def tally_def)
  ultimately show ?thesis
    using stopped_pool_keeps_tasks [OF _ _ _ run_nil] by simp
qed

section \<open>A local synchronisation from the command line\<close>


definition sample_tool_world :: world where
  "sample_tool_world = (sample_world ''yo'' [])\<lparr>w_fs := sample_fs ''yo'' @ [([''t''], sample_dir)]\<rparr>"

definition sample_command :: "getopt_result list" where
  "sample_command = [Opt CHR ''s'' ''/s/d'', Opt CHR ''d'' ''/t'', Opt CHR ''t'' ''2'']"

definition sample_opts :: cli_options where
  "sample_opts = default_options\<lparr>co_source := ''/s/d'', co_destination := ''/t'', co_threads := 2\<rparr>"

lemma sample_two: "stoul ''2'' = Inr 2"
proof -
  have "list_all is_digit ''2''" "dec_value ''2'' = 2" by code_simp+
  then show ?thesis using scan_digits(1) [of "''2''"] by (simp add: stoul_def)
qed

lemma sample_parse: "parse_options sample_command default_options = Inr sample_opts"
  by (simp add: sample_command_def sample_opts_def sample_two store_number_def)

lemma sample_opts_simps [simp]:
  "\<not> co_serverMode sample_opts" "\<not> missing_dirs sample_opts" "\<not> co_resume sample_opts" "\<not> co_remoteSync sample_opts"
  "co_conflictStrategy sample_opts = ''overwrite''" "co_source sample_opts = ''/s/d''" "co_destination sample_opts = ''/t''"
  "co_threads sample_opts = 2"
  by (simp_all add: sample_opts_def default_options_def missing_dirs_def)

lemma sample_one_task: "map_option (\<lambda>r. length (fst r)) (detectChanges 4 (md5_of (\<lambda>x. x)) rev sample_tool_world ''/s/d'' ''/t'') = Some 1"
  by code_simp

lemma sample_tool_ready: "mirror_ready sample_tool_world ''/s/d'' [''s'', ''d''] ''/t'' 4"
  "path_key sample_tool_world ''/t'' = [''t'']" "resolve sample_tool_world ''/t'' = Some [''t'']"
  "is_dir (w_fs sample_tool_world) [''t'']" "content sample_tool_world ([''s'', ''d''] @ [''b'']) = Some (0x81A4, ''yo'')"
  by code_simp+

lemma sample_main:
  "\<exists>w'. main 4 (md5_of (\<lambda>x. x)) rev [] [] 3 pb 1000 sample_command sample_tool_world (Returns 0 [] []) w'"
proof -
  obtain tasks w1 where "detectChanges 4 (md5_of (\<lambda>x. x)) rev sample_tool_world ''/s/d'' ''/t'' = Some (tasks, w1)"
    using sample_one_task by auto
  with main_local_returns [OF sample_parse] show ?thesis by simp
qed

definition no_messages :: protobuf where
  "no_messages = \<lparr>pb_ser_request = (\<lambda>_. None), pb_parse_request = (\<lambda>_. None), pb_ser_response = (\<lambda>_. None), pb_parse_response = (\<lambda>_. None)\<rparr>"


text \<open>C35: With at least one thread the program can always reach its end and exit with code 0: there is a run in which
  the workers carry out all the tasks, come to rest and are joined.\<close>

theorem cli_local_returns:
  assumes "parse_options rs default_options = Inr opts" "\<not> co_serverMode opts" "\<not> missing_dirs opts"
      "\<not> co_resume opts" "\<not> co_remoteSync opts" "0 < co_threads opts"
    and "detectChanges fuel M ord w (co_source opts) (co_destination opts) = Some (tasks, w1)"
  shows "\<exists>w'. main fuel M ord sched evs epollFd pb maxvec rs w (Returns 0 [] []) w'"
  by (rule main_local_returns [OF assms])

theorem cli_local_returns_witness:
  "\<exists>w'. main 4 (md5_of (\<lambda>x. x)) rev [] [] 3 no_messages 1000 sample_command sample_tool_world (Returns 0 [] []) w'"
proof -
  obtain tasks w1 where "detectChanges 4 (md5_of (\<lambda>x. x)) rev sample_tool_world ''/s/d'' ''/t'' = Some (tasks, w1)"
    using sample_one_task by auto
  with cli_local_returns [OF sample_parse] show ?thesis by simp
qed

text \<open>C40: However the increments of \<^verbatim>\<open>completedTasks\<close> by the workers race, the progress reported after a local
  synchronisation lies between 0 and 100 percent and is positive when there was a task; that it is 100
  does not follow, since two increments may count once.\<close>

theorem progress_within_bounds:
  assumes "SyncManager_syncLocal fuel M ord sched m w srcDir destDir recursive r m' w'" "idle_pool m"
    and "detectChanges fuel M ord w srcDir destDir = Some (tasks, w1)" "length tasks < 2 ^ 64"
  shows "0 \<le> getSyncProgress m' \<and> getSyncProgress m' \<le> 100 \<and> (tasks \<noteq> [] \<longrightarrow> 0 < getSyncProgress m') \<and> counts_to 2 1"
proof -
  obtain c where c: "sm_totalTasks m' = length tasks" "sm_completedTasks m' = c" "counts_to (length tasks) c"
    using manager_run [OF assms] by metis
  from progress_bounds [OF c(3,1,2)] lost_increment show ?thesis by simp
qed

definition sample_manager :: SyncManager where
  "sample_manager = SyncManager_init 3 SyncManager_new 2"

theorem progress_within_bounds_witness:
  "\<exists>m' w'. SyncManager_syncLocal 4 (md5_of (\<lambda>x. x)) rev [] sample_manager sample_tool_world ''/s/d'' ''/t'' True True m' w'
     \<and> 0 < getSyncProgress m' \<and> getSyncProgress m' \<le> 100"
proof -
  obtain tasks w1 where d: "detectChanges 4 (md5_of (\<lambda>x. x)) rev sample_tool_world ''/s/d'' ''/t'' = Some (tasks, w1)" "length tasks = 1"
    using sample_one_task by auto
  have m: "\<exists>fs. sm_fileSync sample_manager = Some fs" "sm_threadPool sample_manager = Some (ThreadPool_new (Suc 1))" "idle_pool sample_manager"
    by (simp_all add: sample_manager_def SyncManager_init_def idle_pool_def numeral_2_eq_2)
  then obtain m' w' where s:
    "SyncManager_syncLocal 4 (md5_of (\<lambda>x. x)) rev [] sample_manager sample_tool_world ''/s/d'' ''/t'' True True m' w'"
    using manager_returns [OF _ m(2) d(1)] by blast
  from progress_within_bounds [OF s m(3) d(1)] d(2) s show ?thesis by fastforce
qed

section \<open>The logger\<close>

text \<open>Of any sequence of messages the log file receives exactly those of the current level or above, formatted and
  in order, when the file is open and not in a failed state; standard output receives the information
  and the warnings among them and standard error the errors, when console output is on.\<close>

theorem log_gets_what_passes:
  "lu_files (log_all now ms g) = (if lu_is_open g \<and> \<not> lu_failed g
     then (lu_files g)(lu_path g := lu_files g (lu_path g) @ lines_of now (kept g ms)) else lu_files g)
   \<and> lu_cout (log_all now ms g) = lu_cout g @ (if lu_consoleOutput g then lines_of now (filter (\<lambda>(l, m). l < LOG_ERROR) (kept g ms)) else [])
   \<and> lu_cerr (log_all now ms g) = lu_cerr g @ (if lu_consoleOutput g then lines_of now (filter (\<lambda>(l, m). l = LOG_ERROR) (kept g ms)) else [])"
  by (rule log_all_filtered)

end
