(* ===== verification/Guard.thy ===== *)
theory Guard
  imports FileTree
begin

text \<open>
  Invariants of the whole program.  The locale \<open>quiet_guard\<close> is about invariants that depend on the file tree and the
  environment only; \<open>world_guard\<close> extends it to the contract between the kernel and the program: an invariant that
  every system call keeps which changes an allowed place (and writes only into something that is not a directory).  What the
  program does with the calls is proved once inside the locales, here and in QuietOps and Conformance; the interpretations
  discharge the contracts for the environment of the process, for the well-formedness of the file tree, and for what lies
  outside a given directory.
\<close>

named_theorems kept "operations that keep a guarded invariant, as equations of their results"
named_theorems kept_intro "operations that keep a guarded invariant, as goals"

text \<open>The invariant \<open>I\<close>, and a bound \<open>D\<close> on the directories there are, which leaves out allowed places only: an
  operation that makes no directory keeps all of it.\<close>

definition guarded :: "(world \<Rightarrow> bool) \<Rightarrow> (fpath \<Rightarrow> bool) \<Rightarrow> (fpath \<Rightarrow> bool) \<Rightarrow> world \<Rightarrow> bool" where
  "guarded I A D w \<longleftrightarrow> I w \<and> (\<forall>p. is_dir (w_fs w) p \<longrightarrow> D p) \<and> (\<forall>k. \<not> D k \<longrightarrow> A k)"

text \<open>What a name stands for is allowed; a directory by that name may be made, or is there.\<close>

definition names :: "(world \<Rightarrow> bool) \<Rightarrow> (fpath \<Rightarrow> bool) \<Rightarrow> string \<Rightarrow> bool" where
  "names I A p \<longleftrightarrow> (\<forall>w k. I w \<longrightarrow> resolve w p = Some k \<or> resolve_mkdir w p = Some k \<longrightarrow> A k)"

definition makes :: "(world \<Rightarrow> bool) \<Rightarrow> (fpath \<Rightarrow> bool) \<Rightarrow> string \<Rightarrow> bool" where
  "makes I A p \<longleftrightarrow> (\<forall>w k. I w \<longrightarrow> resolve_mkdir w p = Some k \<longrightarrow> A k \<or> map_of (w_fs w) k \<noteq> None)"

abbreviation anywhere :: "fpath \<Rightarrow> bool" where
  "anywhere \<equiv> \<lambda>_. True"

lemma guarded_anywhere: "guarded I A anywhere w = I w"
  by (simp add: guarded_def)

lemma names_anywhere [simp]: "names I anywhere p"
  by (simp add: names_def)

lemma makes_anywhere [simp]: "makes I anywhere p"
  by (simp add: makes_def)

text \<open>An open file is no directory and stays none.\<close>

lemma guarded_fresh: "guarded I A D w \<Longrightarrow> A k \<Longrightarrow> \<not> is_dir (w_fs w) k \<Longrightarrow> guarded I A (\<lambda>p. D p \<and> p \<noteq> k) w"
  by (auto simp: guarded_def)

lemma guarded_weaken: "guarded I A (\<lambda>p. D p \<and> p \<noteq> k) w \<Longrightarrow> guarded I A D w"
  by (auto simp: guarded_def)

section \<open>The contract\<close>

locale quiet_guard =
  fixes I :: "world \<Rightarrow> bool"
  assumes I_quiet: "w_fs w' = w_fs w \<Longrightarrow> env_of w' = env_of w \<Longrightarrow> I w \<Longrightarrow> I w'"
begin

lemma guarded_quiet: "w_fs w' = w_fs w \<Longrightarrow> env_of w' = env_of w \<Longrightarrow> guarded I A D w \<Longrightarrow> guarded I A D w'"
  by (auto simp: guarded_def intro: I_quiet)

lemma guarded_script [kept_intro]: "guarded I A D w \<Longrightarrow> guarded I A D (w\<lparr>w_script := s\<rparr>)"
  by (rule guarded_quiet [of "w\<lparr>w_script := s\<rparr>" w]) simp_all

lemma next_ev_kept [kept]: "next_ev w = (e, w') \<Longrightarrow> guarded I A D w \<Longrightarrow> guarded I A D w'"
  by (auto simp: next_ev_eq intro: kept_intro)

lemma sleep_kept [kept_intro]: "guarded I A D w \<Longrightarrow> guarded I A D (sleep_ms n w)"
  by (rule guarded_quiet [of _ w]) (simp_all add: sleep_ms_def env_of_def)

lemma close_kept [kept_intro]: "guarded I A D w \<Longrightarrow> guarded I A D (sys_close w fd)"
  by (rule guarded_quiet [of _ w]) (simp_all add: sys_close_def env_of_def)

lemma net_kept [kept]:
  "sys_socket w = (fd, w') \<Longrightarrow> guarded I A D w \<Longrightarrow> guarded I A D w'"
  "sys_connect w fd' ip port = (ok, w') \<Longrightarrow> guarded I A D w \<Longrightarrow> guarded I A D w'"
  "sys_plain w = (ok, w') \<Longrightarrow> guarded I A D w \<Longrightarrow> guarded I A D w'"
  "sys_accept w = (fd, w') \<Longrightarrow> guarded I A D w \<Longrightarrow> guarded I A D w'"
  "sys_recv w fd' n = (r, w') \<Longrightarrow> guarded I A D w \<Longrightarrow> guarded I A D w'"
  "sys_send w fd' bs = (s, w') \<Longrightarrow> guarded I A D w \<Longrightarrow> guarded I A D w'"
  by (elim guarded_quiet [rotated 2]; auto simp: env_of_def next_ev_eq Let_def sys_socket_def sys_connect_def
      sys_plain_def sys_accept_def sys_recv_def sys_send_def split: if_splits option.splits list.splits ev.splits)+

lemma pread_kept [kept]: "sys_pread w k n off = (r, w') \<Longrightarrow> guarded I A D w \<Longrightarrow> guarded I A D w'"
  by (elim guarded_quiet [rotated 2]; auto simp: sys_pread_def next_ev_eq Let_def split: ev.splits option.splits)

lemma read_kept [kept]: "ifs_read w s n = (bs, s', w') \<Longrightarrow> guarded I A D w \<Longrightarrow> guarded I A D w'"
  by (elim guarded_quiet [rotated 2]; auto simp: ifs_read_def next_ev_eq Let_def split: if_splits)

end

locale world_guard = quiet_guard +
  fixes A :: "fpath \<Rightarrow> bool"
  assumes I_data: "I w \<Longrightarrow> A k \<Longrightarrow> \<not> is_dir (w_fs w) k \<Longrightarrow> I (set_data k f w)"
    and I_open: "perm AND S_IFMT = 0 \<Longrightarrow> names I A p \<Longrightarrow> I w \<Longrightarrow> I (snd (sys_open_w w p perm creat trunc))"
    and I_chmod: "names I A p \<Longrightarrow> I w \<Longrightarrow> I (snd (sys_chmod w p m))"
    and I_remove: "names I A p \<Longrightarrow> I w \<Longrightarrow> I (snd (sys_remove w p))"
    and I_mkdir: "makes I A p \<Longrightarrow> I w \<Longrightarrow> I (snd (sys_mkdir w p m))"
    and I_rename: "names I A p \<Longrightarrow> names I A q \<Longrightarrow> I w \<Longrightarrow> I (snd (sys_rename w p q))"
begin

lemma guarded_data [kept_intro]: "guarded I A D w \<Longrightarrow> \<not> D k \<Longrightarrow> guarded I A D (set_data k f w)"
  by (auto simp: guarded_def intro: I_data)

lemma write_kept [kept]:
  "sys_write w k bs = (r, w') \<Longrightarrow> guarded I A D w \<Longrightarrow> \<not> D k \<Longrightarrow> guarded I A D w'"
  "sys_pwrite w k bs off = (r, w') \<Longrightarrow> guarded I A D w \<Longrightarrow> \<not> D k \<Longrightarrow> guarded I A D w'"
  "sys_ftruncate w k n = (ok, w') \<Longrightarrow> guarded I A D w \<Longrightarrow> \<not> D k \<Longrightarrow> guarded I A D w'"
  "of_write w k bs = (ok, w') \<Longrightarrow> guarded I A D w \<Longrightarrow> \<not> D k \<Longrightarrow> guarded I A D w'"
  by (auto simp: sys_write_def sys_pwrite_def sys_ftruncate_def of_write_def Let_def
      split: ev.splits if_splits prod.splits intro: kept_intro dest: kept)

lemma open_kept [kept]:
  assumes "sys_open_w w p perm creat trunc = (h, w')" "perm AND S_IFMT = 0" "guarded I A D w" "names I A p"
  shows "guarded I A D w'"
  using assms I_open [of perm p w creat trunc] sys_open_w_is_dir [of perm w p creat trunc] by (simp add: guarded_def)

lemma of_open_kept [kept]: "of_open w p app = (h, w') \<Longrightarrow> guarded I A D w \<Longrightarrow> names I A p \<Longrightarrow> guarded I A D w'"
  unfolding of_open_def by (erule open_kept) simp_all

lemma chmod_kept [kept_intro]:
  assumes "guarded I A D w" "names I A p"
  shows "guarded I A D (snd (sys_chmod w p m))"
  using assms I_chmod [of p w m]
  by (cases rule: sys_chmod_cases [of w p m]) (auto simp: guarded_def is_dir_update is_dir_at)

lemma remove_kept [kept_intro]:
  assumes "guarded I A D w" "names I A p"
  shows "guarded I A D (snd (sys_remove w p))"
  using assms I_remove [of p w]
  by (cases rule: sys_remove_cases [of w p]) (auto simp: guarded_def is_dir_delete)

lemma mkdir_kept [kept]: "sys_mkdir w p m = (ok, w') \<Longrightarrow> guarded I A anywhere w \<Longrightarrow> makes I A p \<Longrightarrow> guarded I A anywhere w'"
  using I_mkdir [of p w m] by (simp add: guarded_anywhere)

lemma rename_kept [kept]:
  "sys_rename w p q = (ok, w') \<Longrightarrow> guarded I A anywhere w \<Longrightarrow> names I A p \<Longrightarrow> names I A q \<Longrightarrow> guarded I A anywhere w'"
  using I_rename [of p q w] by (simp add: guarded_anywhere)

text \<open>Working on the file that was opened: the rest of the operation may rely on its not being a directory.\<close>

lemma opened_kept:
  assumes o: "sys_open_w w p perm creat trunc = (Some k, w1)" "perm AND S_IFMT = 0" and g: "guarded I A D w" and p: "names I A p"
    and "guarded I A (\<lambda>p. D p \<and> p \<noteq> k) w1 \<Longrightarrow> guarded I A (\<lambda>p. D p \<and> p \<noteq> k) w'"
  shows "guarded I A D w'"
proof -
  have "resolve w p = Some k" using o(1) by (cases rule: sys_open_w_cases [of w p perm creat trunc]) auto
  then have "A k" using p g by (auto simp: names_def guarded_def)
  from assms(5) [OF guarded_fresh [OF open_kept [OF o g p] this sys_open_w_not_dir [OF o(2,1)]]] show ?thesis by (rule guarded_weaken)
qed

end

section \<open>The environment of the process\<close>

text \<open>Working directory, umask, clock, permissions and peers are never changed.\<close>

interpretation same_env: world_guard "\<lambda>w. env_of w = e" anywhere for e
proof
  show "perm AND S_IFMT = 0 \<Longrightarrow> env_of w = e \<Longrightarrow> env_of (snd (sys_open_w w p perm creat trunc)) = e" for perm w p creat trunc
    using fs_stepD(2) [OF sys_open_w_step] by simp
  show "env_of w = e \<Longrightarrow> env_of (snd (sys_chmod w p m)) = e" for w p m using fs_stepD(2) [OF sys_chmod_step] by simp
  show "env_of w = e \<Longrightarrow> env_of (snd (sys_mkdir w p m)) = e" for w p m using fs_stepD(2) [OF sys_mkdir_step] by simp
  show "env_of w = e \<Longrightarrow> env_of (snd (sys_remove w p)) = e" for w p by (cases rule: sys_remove_cases [of w p]) auto
  show "env_of w = e \<Longrightarrow> env_of (snd (sys_rename w p q)) = e" for w p q
    by (auto simp: sys_rename_def next_ev_eq Let_def split: option.splits)
  show "env_of w = e \<Longrightarrow> env_of (set_data k f w) = e" for w k f by (simp add: set_data_def split: option.splits)
qed auto

section \<open>The tree\<close>

text \<open>A name resolves to a place in the tree, also when the working directory has been removed.\<close>

lemma walk_no_dir: "\<not> is_dir fs k \<Longrightarrow> cs \<noteq> [] \<Longrightarrow> walk fs k cs = None"
  by (cases cs) simp_all

lemma start_slot:
  assumes "fs_wf (w_fs w)" "walk (w_fs w) (path_start w q) cs = Some k" "cs \<noteq> [] \<or> hd q = CHR ''/''"
  shows "good_slot (w_fs w) (path_start w q)"
proof (cases "is_dir (w_fs w) (path_start w q)")
  case True
  then show ?thesis using fs_wf_good_slot [OF assms(1)] by (auto dest!: is_dir_dom)
next
  case False
  then show ?thesis using assms walk_no_dir [OF False, of cs] by (auto simp: path_start_def good_slot_def)
qed

lemma resolve_good:
  assumes wf: "fs_wf (w_fs w)" and r: "resolve w p = Some k"
  shows "good_slot (w_fs w) k"
proof -
  let ?q = "cstr p"
  have w: "walk (w_fs w) (path_start w ?q) (split_slash ?q) = Some k" using r by (simp add: resolve_def Let_def split: if_splits)
  have "split_slash ?q \<noteq> []" using split_slash_ne by blast
  then have "good_slot (w_fs w) (path_start w ?q)" using start_slot [OF wf w] by blast
  from walk_good_slot [OF wf comps_ok_split this w] show ?thesis .
qed

lemma strip_slashes_relative:
  assumes "q \<noteq> []" "hd q \<noteq> CHR ''/''"
  shows "strip_slashes (split_slash q) \<noteq> []"
proof -
  obtain c s where q: "q = c # s" "c \<noteq> CHR ''/''" using assms by (cases q) auto
  have "hd (split_slash q) \<noteq> []" "hd (split_slash q) \<in> set (split_slash q)" using q by simp_all
  then show ?thesis by (auto simp: strip_slashes_def)
qed

lemma resolve_mkdir_good:
  assumes wf: "fs_wf (w_fs w)" and r: "resolve_mkdir w p = Some k"
  shows "good_slot (w_fs w) k"
proof -
  let ?q = "cstr p" and ?cs = "strip_slashes (split_slash (cstr p))"
  have w: "?q \<noteq> []" "walk (w_fs w) (path_start w ?q) ?cs = Some k"
    using r by (simp_all add: resolve_mkdir_def Let_def split: if_splits)
  then have "good_slot (w_fs w) (path_start w ?q)"
    using start_slot [OF wf w(2)] strip_slashes_relative [OF w(1)] by blast
  from walk_good_slot [OF wf comps_ok_strip [OF comps_ok_split] this w(2)] show ?thesis .
qed

lemma is_prefix_iff: "is_prefix k p \<longleftrightarrow> (\<exists>a. p = k @ a)"
  by (metis append_eq_conv_conj append_take_drop_id is_prefix_def)

lemma is_prefix_butlast: "p \<noteq> [] \<Longrightarrow> is_prefix k (butlast p) \<Longrightarrow> is_prefix k p"
  by (metis append_assoc append_butlast_last_id is_prefix_iff)

lemma rebase_append [simp]: "rebase k k' (k @ a) = k' @ a"
  by (simp add: rebase_def is_prefix_def)

lemma rebase_other: "\<not> is_prefix k p \<Longrightarrow> rebase k k' p = p"
  by (simp add: rebase_def)

text \<open>Renaming moves a whole subtree.\<close>

lemma prefix_exists: "fs_wf fs \<Longrightarrow> map_of fs (k @ rest) \<noteq> None \<Longrightarrow> map_of fs k \<noteq> None"
proof (induction rest rule: rev_induct)
  case (snoc n rest)
  then obtain i where "map_of fs (k @ rest @ [n]) = Some i" by auto
  from fs_wf_good_slot [OF snoc.prems(1) this] have "is_dir fs (k @ rest)"
    by (auto simp: good_slot_def butlast_append simp flip: append_assoc)
  with snoc show ?case by (auto dest: is_dir_dom)
qed simp

lemma nothing_below:
  assumes "fs_wf fs" "entries fs k = []" "map_of fs (k @ rest) \<noteq> None"
  shows "rest = []"
proof (cases rest)
  case (Cons n ns)
  with prefix_exists [OF assms(1), of "k @ [n]" ns] assms(2,3) show ?thesis by (auto simp: entries_empty)
qed

lemma map_of_rekeyed:
  "inj_on h (fst ` set xs) \<Longrightarrow> p \<in> fst ` set xs \<Longrightarrow> map_of (map (\<lambda>(p, i). (h p, i)) xs) (h p) = map_of xs p"
proof (induction xs)
  case (Cons x xs)
  obtain q i where x: "x = (q, i)" by fastforce
  show ?case
  proof (cases "p = q")
    case False
    then have "h p \<noteq> h q" "p \<in> fst ` set xs" using Cons.prems x by (auto simp: inj_on_def)
    with False x Cons show ?thesis by simp
  qed (simp add: x)
qed simp

lemma fs_wf_rebase:
  assumes wf: "fs_wf fs" and k: "k \<noteq> []" "\<not> is_prefix k k'" "k' \<noteq> []"
    and slot: "good_slot fs k'" and none: "entries fs k' = []"
  shows "fs_wf (map (\<lambda>(p, i). (rebase k k' p, i)) (AList.delete k' fs))"
proof -
  let ?h = "rebase k k'" and ?f = "AList.delete k' fs"
  let ?g = "map (\<lambda>(p, i). (?h p, i)) ?f"
  have keys: "p \<in> fst ` set ?f \<longleftrightarrow> p \<noteq> k' \<and> map_of fs p \<noteq> None" for p
    using AList.delete_keys [of k' fs] by (auto simp: map_of_eq_None_iff simp flip: set_map)
  have below: "\<not> is_prefix k' p" if "p \<in> fst ` set ?f" for p
  proof
    assume "is_prefix k' p"
    then obtain a where "p = k' @ a" by (auto simp: is_prefix_iff)
    with that nothing_below [OF wf none, of a] show False by (auto simp: keys)
  qed
  have inj: "inj_on ?h (fst ` set ?f)"
  proof (rule inj_onI)
    fix p q assume pq: "p \<in> fst ` set ?f" "q \<in> fst ` set ?f" "?h p = ?h q"
    have "is_prefix k' (k' @ a)" for a by (auto simp: is_prefix_iff)
    with pq(3) below [OF pq(1)] below [OF pq(2)] show "p = q"
      by (cases "is_prefix k p"; cases "is_prefix k q") (auto simp: is_prefix_iff rebase_other)
  qed
  have at: "map_of ?g (?h p) = map_of fs p" if "p \<in> fst ` set ?f" for p
    using map_of_rekeyed [OF inj that] that by (simp add: keys delete_conv')
  have dir: "is_dir ?g (?h p)" if "is_dir fs p" "p \<noteq> k'" for p
    using at [of p] that by (auto simp: is_dir_def keys split: option.splits)
  have root: "?h [] = []" using k(1) by (intro rebase_other) (simp add: is_prefix_def)
  have place: "good_slot ?g (?h p)" if p: "p \<in> fst ` set ?f" for p
  proof (cases "p = [] \<or> p = k")
    case True
    have "?h (butlast k') = butlast k'"
      using k(2) is_prefix_butlast [OF k(3)] rebase_other by blast
    moreover have "?h k = k'" using rebase_append [of k k' "[]"] by simp
    moreover have "butlast k' \<noteq> k'" using k(3) by (metis append_butlast_last_id append_self_conv not_Cons_self2)
    ultimately show ?thesis using True slot k(3) dir [of "butlast k'"] root by (auto simp: good_slot_def)
  next
    case False
    obtain i where i: "map_of fs p = Some i" using p by (auto simp: keys)
    from fs_wf_good_slot [OF wf i] False have g: "is_dir fs (butlast p)" "valid_name (last p)" by (auto simp: good_slot_def)
    have nk: "butlast p \<noteq> k'"
      using below [OF p] False by (metis append_butlast_last_id is_prefix_iff)
    have "?h p \<noteq> [] \<and> butlast (?h p) = ?h (butlast p) \<and> last (?h p) = last p"
    proof (cases "is_prefix k p")
      case True
      then obtain a where a: "p = k @ a" by (auto simp: is_prefix_iff)
      with False have "a \<noteq> []" by simp
      with a show ?thesis by (simp add: butlast_append)
    next
      case np: False
      then have "\<not> is_prefix k (butlast p)"
        using False is_prefix_butlast by blast
      with np False show ?thesis by (simp add: rebase_other)
    qed
    with dir [OF g(1) nk] g(2) show ?thesis by (simp add: good_slot_def)
  qed
  have "distinct (map fst ?f)" using wf by (simp add: fs_wf_iff distinct_delete)
  then have "distinct (map fst ?g)" using inj by (simp add: comp_def case_prod_beta distinct_map inj_on_def)
  moreover have "is_dir ?g []" using dir [of "[]"] wf k(3) root by (simp add: fs_wf_iff)
  moreover have "good_slot ?g x \<and> (S_ISDIR (i_mode i) \<longrightarrow> i_data i = [])" if x: "map_of ?g x = Some i" for x i
  proof -
    from map_of_SomeD [OF x] obtain p where p: "(p, i) \<in> set ?f" "x = ?h p" by auto
    then have "p \<in> fst ` set ?f" by force
    with at [OF this] x p(2) place fs_wf_dir_data [OF wf, of p i] show ?thesis by auto
  qed
  ultimately show ?thesis by (simp add: fs_wf_iff)
qed

lemma sys_rename_wf:
  assumes wf: "fs_wf (w_fs w)"
  shows "fs_wf (w_fs (snd (sys_rename w p q)))"
proof (cases "fst (sys_rename w p q)")
  case False
  then show ?thesis using wf by (auto simp: sys_rename_def next_ev_eq Let_def split: option.splits if_splits)
next
  case True
  then obtain k k' where k: "resolve_mkdir w p = Some k" "resolve_mkdir w q = Some k'" "map_of (w_fs w) k \<noteq> None"
    by (auto simp: sys_rename_def next_ev_eq Let_def split: option.splits if_splits)
  show ?thesis
  proof (cases "k = k' \<or> is_prefix k k' \<or> k = [] \<or> k' = []")
    case True
    with k wf show ?thesis by (auto simp: sys_rename_def next_ev_eq Let_def)
  next
    case False
    have "entries (w_fs w) k' = []" if "map_of (w_fs w) k' = None"
      using prefix_exists [OF wf, of k'] that by (auto simp: entries_empty) (metis append_butlast_last_id option.discI)
    with True k False have "entries (w_fs w) k' = []"
      by (auto simp: sys_rename_def next_ev_eq Let_def split: if_splits)
    from fs_wf_rebase [OF wf _ _ _ resolve_mkdir_good [OF wf k(2)] this] k False wf show ?thesis
      by (auto simp: sys_rename_def next_ev_eq Let_def fs_wf_touch)
  qed
qed

interpretation tree: world_guard "\<lambda>w. fs_wf (w_fs w)" anywhere
proof
  fix w :: world assume wf: "fs_wf (w_fs w)"
  show "fs_wf (w_fs (snd (sys_rename w p q)))" for p q by (rule sys_rename_wf [OF wf])
  show "fs_wf (w_fs (snd (sys_mkdir w p m)))" for p m
    using wf resolve_mkdir_good [OF wf]
    by (cases rule: sys_mkdir_cases [of w p m]) (auto simp: new_inode_def intro!: fs_wf_add_entry)
  show "fs_wf (w_fs (snd (sys_remove w p)))" for p
    using wf by (cases rule: sys_remove_cases [of w p]) (auto simp: fs_wf_touch intro!: fs_wf_delete)
  show "fs_wf (w_fs (snd (sys_chmod w p m)))" for p m
    using wf resolve_good [OF wf] fs_wf_dir_data [OF wf]
    by (cases rule: sys_chmod_cases [of w p m]) (auto simp: is_dir_at intro!: fs_wf_update)
  show "fs_wf (w_fs (snd (sys_open_w w p perm creat trunc)))" if "perm AND S_IFMT = 0" for p perm creat trunc
    using wf resolve_good [OF wf]
    by (cases rule: sys_open_w_cases [of w p perm creat trunc]) (auto simp: is_dir_at new_inode_def intro!: fs_wf_add_entry fs_wf_update)
  show "fs_wf (w_fs (set_data k f w))" if "\<not> is_dir (w_fs w) k" for k f
    using wf that by (auto simp: set_data_def is_dir_at split: option.splits intro!: fs_wf_update intro: fs_wf_good_slot)
qed simp

section \<open>What lies outside a directory\<close>

text \<open>Every change below \<open>kb\<close> keeps what is outside it.\<close>

lemma is_prefix_refl [simp]: "is_prefix k k"
  by (simp add: is_prefix_def)

lemma is_prefix_trans: "is_prefix a b \<Longrightarrow> is_prefix b c \<Longrightarrow> is_prefix a c"
  by (auto simp: is_prefix_iff)

lemma map_of_rebase_outside:
  assumes "is_prefix kb k" "is_prefix kb k'" "\<not> is_prefix kb p"
  shows "map_of (map (\<lambda>(q, i). (rebase k k' q, i)) fs) p = map_of fs p"
proof (induction fs)
  case (Cons x fs)
  have "rebase k k' q = p \<longleftrightarrow> q = p" for q
  proof (cases "is_prefix k q")
    case True
    then obtain a where "q = k @ a" by (auto simp: is_prefix_iff)
    moreover have "is_prefix x (x @ a)" for x :: fpath by (simp add: is_prefix_def)
    then have "is_prefix kb (k @ a)" "is_prefix kb (k' @ a)" using assms(1,2) is_prefix_trans by blast+
    ultimately show ?thesis using assms(3) by fastforce
  qed (simp add: rebase_other)
  then have e: "(p = rebase k k' (fst x)) = (p = fst x)" by metis
  with Cons show ?case by (cases x; cases "p = fst x") simp_all
qed simp

lemma rename_outside:
  assumes "\<And>k. resolve_mkdir w p = Some k \<Longrightarrow> is_prefix kb k" "\<And>k. resolve_mkdir w q = Some k \<Longrightarrow> is_prefix kb k" "\<not> is_prefix kb x"
  shows "content (snd (sys_rename w p q)) x = content w x"
proof (cases "fst (sys_rename w p q)")
  case True
  then obtain k k' where k: "resolve_mkdir w p = Some k" "resolve_mkdir w q = Some k'"
    by (cases "resolve_mkdir w p"; cases "resolve_mkdir w q") (simp_all add: sys_rename_def next_ev_eq Let_def split: if_splits)
  have fs: "w_fs (snd (sys_rename w p q)) = w_fs w \<or> w_fs (snd (sys_rename w p q)) =
       touch (w_clock w) (butlast k') (touch (w_clock w) (butlast k) (map (\<lambda>(p, i). (rebase k k' p, i)) (AList.delete k' (w_fs w))))"
    using True k by (simp add: sys_rename_def next_ev_eq Let_def split: if_splits)
  have "x \<noteq> k'" using assms(2,3) k(2) by auto
  then have "map_of (map (\<lambda>(p, i). (rebase k k' p, i)) (AList.delete k' (w_fs w))) x = map_of (w_fs w) x"
    by (simp add: map_of_rebase_outside [OF assms(1) [OF k(1)] assms(2) [OF k(2)] assms(3)] delete_conv')
  with fs show ?thesis by (auto simp: content_def map_of_touch option.map_comp comp_def)
qed (auto simp: sys_rename_def next_ev_eq Let_def split: option.splits if_splits)

interpretation outside: world_guard "\<lambda>w. fs_wf (w_fs w) \<and> env_of w = e \<and> (\<forall>p. \<not> is_prefix kb p \<longrightarrow> content w p = c p)" "is_prefix kb"
  for e c kb
proof
  fix w :: world
  let ?J = "\<lambda>w. env_of w = e \<and> (\<forall>p. \<not> is_prefix kb p \<longrightarrow> content w p = c p)"
  let ?I = "\<lambda>w. fs_wf (w_fs w) \<and> ?J w"
  have at: "is_prefix kb k" if "names ?I (is_prefix kb) p" "?I w" "resolve w p = Some k \<or> resolve_mkdir w p = Some k" for p k
    using that unfolding names_def by blast
  have step: "?J w'" if "fs_step K w w'" "?I w" "\<And>k. k \<in> K \<Longrightarrow> is_prefix kb k" for K w'
    using that fs_stepD(2,4) [OF that(1)] by metis
  show "?I (set_data k f w)" if "?I w" "is_prefix kb k" "\<not> is_dir (w_fs w) k" for k f
  proof (intro conjI tree.I_data)
    show "env_of (set_data k f w) = e" using that(1) by (simp add: set_data_def split: option.splits)
  qed (use that in \<open>auto simp: content_set_data\<close>)
  show "?I (snd (sys_open_w w p perm creat trunc))" if "perm AND S_IFMT = 0" "names ?I (is_prefix kb) p" "?I w" for p perm creat trunc
    by (intro conjI tree.I_open [OF that(1)] step [OF sys_open_w_step that(3)]) (use at [OF that(2,3)] that(3) in simp_all)
  show "?I (snd (sys_chmod w p m))" if "names ?I (is_prefix kb) p" "?I w" for p m
    by (intro conjI tree.I_chmod step [OF sys_chmod_step that(2)]) (use at [OF that] that(2) in simp_all)
  show "?I (snd (sys_remove w p))" if "names ?I (is_prefix kb) p" "?I w" for p
  proof (rule conjI)
    show "fs_wf (w_fs (snd (sys_remove w p)))" using that(2) tree.I_remove by simp
    show "?J (snd (sys_remove w p))"
    proof (cases rule: sys_remove_cases [of w p])
      case (removed k)
      with at [OF that, of k] that(2) show ?thesis
        by (auto simp: content_def map_of_touch delete_conv' option.map_comp comp_def)
    qed (use that(2) in simp)
  qed
  show "?I (snd (sys_mkdir w p m))" if "makes ?I (is_prefix kb) p" "?I w" for p m
  proof (rule conjI)
    show "fs_wf (w_fs (snd (sys_mkdir w p m)))" using that(2) tree.I_mkdir by simp
    show "?J (snd (sys_mkdir w p m))"
    proof (cases rule: sys_mkdir_cases [of w p m])
      case (made k)
      then have "is_prefix kb k" using that unfolding makes_def by blast
      with made that(2) show ?thesis
        by (auto simp: content_def add_entry_def map_of_touch update_conv' option.map_comp comp_def)
    qed (use that(2) in simp)
  qed
  show "?I (snd (sys_rename w p q))" if "names ?I (is_prefix kb) p" "names ?I (is_prefix kb) q" "?I w" for p q
    using that(3) rename_outside [of w p kb q] at [OF that(1,3)] at [OF that(2,3)] same_env.I_rename [of e p q w] tree.I_rename [of p q w]
    by simp
qed (auto simp: content_def)

end
