(* ===== verification/QuietOps.thy ===== *)
theory QuietOps
  imports Guard Cli
begin

text \<open>
  What only looks at the file tree: hashing and scanning, the connections, the I/O handler, the
  client's and the server's half of the conversation, the remote procedure calls.  All of it keeps every
  invariant that does not depend on more of the world than the tree and the environment.
\<close>

context quiet_guard
begin

section \<open>Files\<close>

lemma md5_loop_kept [kept]: "md5_loop M w f c = (c', w') \<Longrightarrow> guarded I A D w \<Longrightarrow> guarded I A D w'"
  using md5_loop_frame [of M w f c] by (auto intro: kept_intro)

lemma calculateMD5_kept [kept]: "calculateMD5 M w p = (s, w') \<Longrightarrow> guarded I A D w \<Longrightarrow> guarded I A D w'"
  by (auto simp: calculateMD5_def Let_def split: option.splits prod.splits dest: kept)

lemma loadProgress_kept [kept]: "loadProgress w p = (s, w') \<Longrightarrow> guarded I A D w \<Longrightarrow> guarded I A D w'"
  by (auto simp: loadProgress_def Let_def split: option.splits prod.splits dest: kept)

lemma throttle_kept [kept_intro]: "guarded I A D w \<Longrightarrow> guarded I A D (throttle fs w)"
  by (simp add: throttle_def kept_intro)

section \<open>Local synchronisation\<close>

lemma collectMetadata_kept [kept]:
  "collectMetadata fuel M w dir = Some (m, w') \<Longrightarrow> guarded I A D w \<Longrightarrow> guarded I A D w'"
proof (induction fuel arbitrary: w dir m w')
  case (Suc n)
  have entry: "guarded I A D (snd mw')" if "collect_entry M (collectMetadata n M) path mw = Some mw'" "guarded I A D (snd mw)" for path mw mw'
    using that by (auto simp: collect_entry_def Let_def split: prod.splits option.splits if_splits dest: Suc.IH kept)
  have "guarded I A D (snd mw')"
    if "collect_entries (collect_entry M (collectMetadata n M)) files mw = Some mw'" "guarded I A D (snd mw)" for files mw mw'
    using that by (induction files arbitrary: mw) (auto split: option.splits dest: entry)
  from this [of "listDirectory w dir" "([], w)" "(m, w')"] Suc.prems show ?case by simp
qed simp

lemma detectChanges_kept [kept]:
  "detectChanges fuel M ord w src dest = Some (ts, w') \<Longrightarrow> guarded I A D w \<Longrightarrow> guarded I A D w'"
  by (auto simp: detectChanges_def split: option.splits prod.splits dest: kept)

section \<open>Connections\<close>

lemma send_loop_kept [kept]:
  "send_loop r z fd w bs = (ok, w') \<Longrightarrow> guarded I A D w \<Longrightarrow> guarded I A D w'"
proof (induction r z fd w bs arbitrary: ok w' rule: send_loop.induct)
  case (1 r z fd w bs)
  obtain x w1 where x: "sys_send w fd bs = (x, w1)" by fastforce
  note g = net_kept(6) [OF x "1.prems"(2)]
  show ?case
    using "1.prems" x g "1.IH"(1) [OF _ x [symmetric] _ _ _ g] "1.IH"(2) [OF _ x [symmetric] _ _ _ g]
    by (subst (asm) send_loop.simps) (auto split: if_splits wres.splits)
qed

lemma recv_loop_kept [kept]:
  "recv_loop r fd w n = (res, w') \<Longrightarrow> guarded I A D w \<Longrightarrow> guarded I A D w'"
proof (induction r fd w n arbitrary: res w' rule: recv_loop.induct)
  case (1 r fd w n)
  obtain x w1 where x: "sys_recv w fd n = (x, w1)" by fastforce
  note g = net_kept(5) [OF x "1.prems"(2)]
  show ?case
    using "1.prems" x g "1.IH"(1) [OF _ x [symmetric] _ _ _ g] "1.IH"(2) [OF _ x [symmetric] _ _ _ g]
    by (subst (asm) recv_loop.simps) (auto split: if_splits rres.splits prod.splits option.splits)
qed

lemma tcp_client_kept [kept]:
  "TcpClient_connect w c host port = (ok, c', w') \<Longrightarrow> guarded I A D w \<Longrightarrow> guarded I A D w'"
  "TcpClient_send w c bs = (ok, c', w') \<Longrightarrow> guarded I A D w \<Longrightarrow> guarded I A D w'"
  "TcpClient_receive w c n = (bs', c', w') \<Longrightarrow> guarded I A D w \<Longrightarrow> guarded I A D w'"
  by (auto simp: TcpClient_connect_def TcpClient_send_def TcpClient_receive_def Let_def
      split: prod.splits if_splits bool.splits rres.splits dest: kept intro: kept_intro)

lemma disconnect_kept [kept]: "TcpClient_disconnect w c = (c', w') \<Longrightarrow> guarded I A D w \<Longrightarrow> guarded I A D w'"
  by (auto simp: TcpClient_disconnect_def Let_def split: if_splits intro: kept_intro)

lemma disconnect_snd [kept_intro]: "guarded I A D w \<Longrightarrow> guarded I A D (snd (TcpClient_disconnect w c))"
  by (rule disconnect_kept [OF prod.collapse [symmetric]])

lemma tcp_server_kept [kept]:
  "TcpServer_start w s port = (ok, s', w') \<Longrightarrow> guarded I A D w \<Longrightarrow> guarded I A D w'"
  "TcpServer_accept w s = (fd, w') \<Longrightarrow> guarded I A D w \<Longrightarrow> guarded I A D w'"
  "TcpServer_stop w s = (s', w') \<Longrightarrow> guarded I A D w \<Longrightarrow> guarded I A D w'"
  "TcpServer_send w fd' bs = (ok, w') \<Longrightarrow> guarded I A D w \<Longrightarrow> guarded I A D w'"
  by (auto simp: TcpServer_start_def TcpServer_accept_def TcpServer_stop_def TcpServer_send_def Let_def
      split: prod.splits if_splits dest!: kept intro: kept_intro)

lemma closeClient_kept [kept_intro]: "guarded I A D w \<Longrightarrow> guarded I A D (TcpServer_closeClient w fd)"
  by (simp add: TcpServer_closeClient_def kept_intro)

section \<open>The client\<close>

lemma registerWrite_kept [kept]: "registerWrite w h fd bs cb = (h', w') \<Longrightarrow> guarded I A D w \<Longrightarrow> guarded I A D w'"
  by (auto simp: registerWrite_def epoll_add_def Let_def split: prod.splits if_splits dest: kept)

lemma on_written_kept: "on_written cb fd (s, h, w) = (s', h', w') \<Longrightarrow> guarded I A D w \<Longrightarrow> guarded I A D w'"
  by (auto simp: on_written_def Let_def split: send_callback.splits prod.splits if_splits dest: kept)

lemma drain_kept:
  "drain fuel (\<lambda>cb fd bs st. st) fd (s, h, w) = Some (s', h', w') \<Longrightarrow> guarded I A D w \<Longrightarrow> guarded I A D w'"
proof (induction fuel arbitrary: s h w)
  case (Suc fuel)
  obtain x w1 where x: "sys_recv w fd 4096 = (x, w1)" by fastforce
  note g = net_kept(5) [OF x Suc.prems(2)]
  show ?case using Suc.prems(1) x g Suc.IH [OF _ g] by (auto split: rres.splits if_splits option.splits)
qed simp

lemma flush_kept:
  "flush on_written fd (s, h, w) = (s', h', w') \<Longrightarrow> guarded I A D w \<Longrightarrow> guarded I A D w'"
  by (auto simp: flush_def Let_def split: option.splits prod.splits wres.splits if_splits dest: kept on_written_kept)

lemma io_event_kept:
  assumes "io_event_step fuel (\<lambda>cb fd bs st. st) on_written e (s, h, w) = Some (s', h', w')" and g: "guarded I A D w"
  shows "guarded I A D w'"
proof -
  obtain s1 h1 w1 where 1: "(if ie_in e then drain fuel (\<lambda>cb fd bs st. st) (ie_fd e) (s, h, w) else Some (s, h, w)) = Some (s1, h1, w1)"
    using assms(1) by (auto simp: io_event_step_def split: option.splits)
  then have "guarded I A D w1" using g by (auto split: if_splits dest: drain_kept)
  with assms(1) 1 show ?thesis by (auto simp: io_event_step_def split: if_splits dest: flush_kept)
qed

lemma await_transfer_kept:
  "await_transfer fuel evs (s, h, w) = Some (s', h', w') \<Longrightarrow> guarded I A D w \<Longrightarrow> guarded I A D w'"
proof (induction evs arbitrary: s h w)
  case (Cons e evs)
  then show ?case by (auto split: if_splits option.splits dest: io_event_kept)
qed (auto split: if_splits)

lemma await_registered:
  "await_transfer fuel evs (s, registerWrite w h fd bs cb) = Some (s', h', w') \<Longrightarrow> guarded I A D w \<Longrightarrow> guarded I A D w'"
  by (cases "registerWrite w h fd bs cb") (auto simp del: await_transfer.simps dest: await_transfer_kept registerWrite_kept)

lemma sendFileViaAsyncIO_kept [kept]:
  "sendFileViaAsyncIO fuel evs handler w src fd = Some (ok, handler', w') \<Longrightarrow> guarded I A D w \<Longrightarrow> guarded I A D w'"
  by (auto simp: sendFileViaAsyncIO_def Let_def simp del: await_transfer.simps
      split: option.splits if_splits prod.splits dest: kept await_registered)

lemma client_send_kept [kept_intro]: "guarded I A D (snd cw) \<Longrightarrow> guarded I A D (snd (client_send bs cw))"
  by (cases "TcpClient_send (snd cw) (fst cw) bs") (auto simp: client_send_def dest: kept)

lemma client_send_pair [kept]: "client_send bs (c, w) = (c', w') \<Longrightarrow> guarded I A D w \<Longrightarrow> guarded I A D w'"
  using client_send_kept [of A D "(c, w)" bs] by simp

lemma send_metadata_kept: "guarded I A D (snd cw) \<Longrightarrow> guarded I A D (snd (send_metadata t cw))"
  by (auto simp: send_metadata_def Let_def split: option.splits intro!: kept_intro)

lemma send_all_metadata_kept: "guarded I A D (snd cw) \<Longrightarrow> guarded I A D (snd (fold send_metadata ts cw))"
  by (induction ts arbitrary: cw) (simp_all add: send_metadata_kept)

lemma resume_offset_kept [kept]: "resume_offset resume w dest sz = (off, w') \<Longrightarrow> guarded I A D w \<Longrightarrow> guarded I A D w'"
  by (auto simp: resume_offset_def Let_def split: if_splits prod.splits dest: kept)

lemma receive_ack_kept [kept]: "receive_ack (c, w) = (ok, w') \<Longrightarrow> guarded I A D w \<Longrightarrow> guarded I A D w'"
  by (auto simp: receive_ack_def Let_def split: prod.splits dest!: kept)

section \<open>The server\<close>

lemma robustRead_kept [kept]:
  "robustRead fd w n buf = (r, w') \<Longrightarrow> guarded I A D w \<Longrightarrow> guarded I A D w'"
proof (induction fd w n buf arbitrary: r w' rule: robustRead.induct)
  case (1 fd w n buf)
  obtain x w1 where x: "sys_recv w fd (n - length buf) = (x, w1)" by fastforce
  note g = net_kept(5) [OF x "1.prems"(2)]
  show ?case
    using "1.prems" x g "1.IH"(1) [OF _ x [symmetric] _ _ _ g] "1.IH"(2) [OF _ x [symmetric] _ _ g]
    by (subst (asm) robustRead.simps) (auto split: if_splits rres.splits)
qed

lemma receiveBytes_loop_kept:
  "receiveBytes_loop fd w n buf = (r, w') \<Longrightarrow> guarded I A D w \<Longrightarrow> guarded I A D w'"
proof (induction fd w n buf arbitrary: r w' rule: receiveBytes_loop.induct)
  case (1 fd w n buf)
  obtain x w1 where x: "robustRead fd w (n - length buf) [] = (x, w1)" by fastforce
  note g = robustRead_kept [OF x "1.prems"(2)]
  show ?case
    using "1.prems" x g "1.IH" [OF _ x [symmetric] _ _ _ g]
    by (subst (asm) receiveBytes_loop.simps) (auto split: if_splits option.splits)
qed

lemma receive_kept [kept]:
  "receiveBytes fd w n = (bs, w') \<Longrightarrow> guarded I A D w \<Longrightarrow> guarded I A D w'"
  "receiveInt fd w = (i, w') \<Longrightarrow> guarded I A D w \<Longrightarrow> guarded I A D w'"
  "receiveSizeT fd w = (sz, w') \<Longrightarrow> guarded I A D w \<Longrightarrow> guarded I A D w'"
  "receiveOffT fd w = (off, w') \<Longrightarrow> guarded I A D w \<Longrightarrow> guarded I A D w'"
  "receiveModeT fd w = (m, w') \<Longrightarrow> guarded I A D w \<Longrightarrow> guarded I A D w'"
  using receiveBytes_loop_kept
  by (cases "receiveBytes fd w 4"; cases "receiveBytes fd w 8";
      fastforce simp: receiveInt_def receiveSizeT_def receiveOffT_def receiveModeT_def receiveBytes_def)+

lemmas receive_snd [kept_intro] = receive_kept [OF prod.collapse [symmetric]]

lemma of_opt_guarded [kept_intro]: "guarded I A D (snd r) \<Longrightarrow> guarded I A D (snd (of_opt r))"
  by (auto simp: of_opt_def split: prod.splits option.splits)

lemma then_rcv_snd:
  assumes "guarded I A D (snd r)" "\<And>x w1. r = (Got x, w1) \<Longrightarrow> guarded I A D w1 \<Longrightarrow> guarded I A D (snd (f x w1))"
  shows "guarded I A D (snd (then_rcv r f))"
  using assms by (cases r; cases "fst r") (auto simp: then_rcv_def)

lemma receive_path_snd [kept_intro]: "guarded I A D w \<Longrightarrow> guarded I A D (snd (receive_path maxvec fd w))"
  by (auto simp: receive_path_def intro!: then_rcv_snd kept_intro)

lemma receive_task_snd [kept_intro]: "guarded I A D w \<Longrightarrow> guarded I A D (snd (receive_task maxvec fd w))"
  unfolding receive_task_def by (intro then_rcv_snd) (simp_all add: kept_intro)

lemma receive_tasks_snd [kept_intro]: "guarded I A D w \<Longrightarrow> guarded I A D (snd (receive_tasks n maxvec fd w))"
proof (induction n arbitrary: w)
  case (Suc n)
  show ?case unfolding receive_tasks.simps
    by (intro then_rcv_snd receive_task_snd Suc) simp_all
qed simp

lemma receiveTaskMetadata_kept [kept]:
  "receiveTaskMetadata maxvec fd w n = (ts, w') \<Longrightarrow> guarded I A D w \<Longrightarrow> guarded I A D w'"
  using receive_tasks_snd [of A D w "nat n" maxvec fd] by (simp add: receiveTaskMetadata_def)

lemma ack_kept [kept_intro]:
  "guarded I A D w \<Longrightarrow> guarded I A D (snd (sendAck fd w b))" "guarded I A D w \<Longrightarrow> guarded I A D (nak_and_close fd w)"
  using tcp_server_kept(4) [OF prod.collapse [symmetric]] by (simp_all add: sendAck_def nak_and_close_def kept_intro)

section \<open>Remote procedure calls\<close>

lemma rpc_server_kept [kept]:
  "RpcServer_receiveRequest pb fd w = (q, w') \<Longrightarrow> guarded I A D w \<Longrightarrow> guarded I A D w'"
  "RpcServer_sendResponse pb fd w resp = (ok, w') \<Longrightarrow> guarded I A D w \<Longrightarrow> guarded I A D w'"
  by (auto simp: RpcServer_receiveRequest_def RpcServer_sendResponse_def RpcServer_recvAll_def RpcServer_sendAll_def Let_def
      split: option.splits prod.splits if_splits dest!: kept)

lemma rpc_answer_kept [kept]:
  "rpc_answer fuel M s w q = Some (resp, w') \<Longrightarrow> guarded I A D w \<Longrightarrow> guarded I A D w'"
  using rpc_answer_frame [of fuel M s w q resp w'] by (auto intro: kept_intro)

lemma rpc_loop_kept:
  "rpc_loop fuel pb M s fd first w = Some (ok, w') \<Longrightarrow> guarded I A D w \<Longrightarrow> guarded I A D w'"
proof (induction fuel pb M s fd first w arbitrary: ok w' rule: rpc_loop.induct)
  case (1 fuel pb M s fd first w)
  obtain x w1 where x: "RpcServer_receiveRequest pb fd w = (x, w1)" by fastforce
  note g1 = rpc_server_kept(1) [OF x "1.prems"(2)]
  show ?case
  proof (cases x)
    case None
    with "1.prems"(1) x g1 show ?thesis by (subst (asm) rpc_loop.simps) (auto intro: kept_intro)
  next
    case (Some r)
    with "1.prems"(1) x obtain resp w2 where a: "rpc_answer fuel M s w1 r = Some (resp, w2)"
      by (subst (asm) rpc_loop.simps) (auto split: option.splits)
    obtain b w3 where b: "RpcServer_sendResponse pb fd w2 resp = (b, w3)" by fastforce
    note g3 = rpc_server_kept(2) [OF b rpc_answer_kept [OF a g1]]
    show ?thesis
    proof (cases b)
      case True
      with "1.prems"(1) x Some a b have "rpc_loop fuel pb M s fd False w3 = Some (ok, w')"
        by (subst (asm) rpc_loop.simps) auto
      from "1.IH" [OF x [symmetric] Some a _ b [symmetric] eqTrueI [OF True] this g3] show ?thesis by simp
    next
      case False
      with "1.prems"(1) x Some a b g3 show ?thesis by (subst (asm) rpc_loop.simps) (auto intro: kept_intro)
    qed
  qed
qed

section \<open>The program\<close>

lemma server_life_kept [kept]:
  "SyncServer_start w s port n = (ok, s', w') \<Longrightarrow> guarded I A D w \<Longrightarrow> guarded I A D w'"
  "SyncServer_stop w s = (s', w') \<Longrightarrow> guarded I A D w \<Longrightarrow> guarded I A D w'"
  by (auto simp: SyncServer_start_def SyncServer_stop_def Let_def split: if_splits prod.splits bool.splits dest!: kept)

lemma accept_setup_kept [kept]: "accept_setup epFd w = (ok, w') \<Longrightarrow> guarded I A D w \<Longrightarrow> guarded I A D w'"
  by (auto simp: accept_setup_def Let_def split: if_splits prod.splits dest: kept intro: kept_intro)

lemma accept_events_kept [kept]: "accept_events s w es = (fds, w') \<Longrightarrow> guarded I A D w \<Longrightarrow> guarded I A D w'"
proof (induction es arbitrary: w fds)
  case (Cons e es)
  obtain fd readable where e: "e = (fd, readable)" by fastforce
  obtain sock w1 where a: "TcpServer_accept w (sv_tcpServer s) = (sock, w1)" by fastforce
  from Cons.IH Cons.prems e a tcp_server_kept(2) [OF a Cons.prems(2)] show ?case by (auto split: if_splits prod.splits)
qed simp

end

text \<open>In particular it leaves the tree and the environment as they are.\<close>

interpretation still: quiet_guard "\<lambda>w. w_fs w = f \<and> env_of w = e" for f e
  by unfold_locales simp

end
