(* ===== verification/Conformance.thy ===== *)
theory Conformance
  imports QuietOps
begin

text \<open>
  Every operation of the program keeps every invariant that the system calls keep, as long as it is given destinations in
  allowed places: the extension of the locale \<open>world_guard\<close> over the components, in the order in which they call
  each other, up to \<^verbatim>\<open>main\<close>.
\<close>

text \<open>A destination is allowed with its progress file, its backup, and the directories on the way to it.\<close>

definition makes_path :: "(world \<Rightarrow> bool) \<Rightarrow> (fpath \<Rightarrow> bool) \<Rightarrow> string \<Rightarrow> bool" where
  "makes_path I A p \<longleftrightarrow> (\<forall>q. q = p \<or> (\<exists>r. p = q @ CHR ''/'' # r) \<longrightarrow> makes I A q)"

definition allowed :: "(world \<Rightarrow> bool) \<Rightarrow> (fpath \<Rightarrow> bool) \<Rightarrow> string \<Rightarrow> bool" where
  "allowed I A p \<longleftrightarrow> names I A p \<and> names I A (getProgressFilePath p) \<and> names I A (p @ ''.bak'') \<and> makes_path I A p"

lemma allowedD [simp]:
  "allowed I A p \<Longrightarrow> names I A p" "allowed I A p \<Longrightarrow> names I A (getProgressFilePath p)"
  "allowed I A p \<Longrightarrow> names I A (p @ ''.bak'')" "allowed I A p \<Longrightarrow> makes_path I A p"
  by (simp_all add: allowed_def)

lemma makes_pathD:
  "makes_path I A p \<Longrightarrow> makes I A p" "makes_path I A (q @ CHR ''/'' # r) \<Longrightarrow> makes I A q"
  by (auto simp: makes_path_def)

lemma makes_path_parent:
  assumes "makes_path I A (q @ CHR ''/'' # r)"
  shows "makes_path I A q"
  unfolding makes_path_def
proof (intro allI impI)
  fix q' assume "q' = q \<or> (\<exists>r'. q = q' @ CHR ''/'' # r')"
  then obtain r' where "q @ CHR ''/'' # r = q' @ CHR ''/'' # r'" by auto
  with assms makes_pathD(2) show "makes I A q'" by metis
qed

lemma makes_path_take:
  assumes "makes_path I A p" "find_last_of (CHR ''/'') p = Some n"
  shows "makes_path I A (take n p)"
  using makes_path_parent [of I A "take n p" "drop (Suc n) p"] find_last_of_Some(2) [OF assms(2)] assms(1) by metis

lemma anywhere_allowed [simp]: "makes_path I anywhere p" "allowed I anywhere p"
  by (simp_all add: allowed_def makes_path_def)

text \<open>The tasks a synchronisation finds, and those a server's session reads from its stream.\<close>

definition tasks_allowed ::
    "(world \<Rightarrow> bool) \<Rightarrow> (fpath \<Rightarrow> bool) \<Rightarrow> nat \<Rightarrow> 'c md5_api \<Rightarrow> (meta_map \<Rightarrow> meta_map) \<Rightarrow> string \<Rightarrow> string \<Rightarrow> bool" where
  "tasks_allowed I A fuel M ord src dest \<longleftrightarrow>
     (\<forall>w tasks w'. I w \<longrightarrow> detectChanges fuel M ord w src dest = Some (tasks, w') \<longrightarrow> list_all (\<lambda>t. allowed I A (tk_destPath t)) tasks)"

definition session_tasks :: "nat \<Rightarrow> int \<Rightarrow> world \<Rightarrow> ServerSyncTask list" where
  "session_tasks maxvec fd w =
     (case receiveBytes fd w 1 of (None, _) \<Rightarrow> [] | (Some mode, w1) \<Rightarrow>
        if mode \<noteq> [CHR 0x00] then []
        else case receiveInt fd w1 of (None, _) \<Rightarrow> [] | (Some n, w2) \<Rightarrow>
          (case fst (receiveTaskMetadata maxvec fd w2 n) of Got tasks \<Rightarrow> tasks | _ \<Rightarrow> []))"

lemma tasks_allowedD:
  "tasks_allowed I A fuel M ord src dest \<Longrightarrow> detectChanges fuel M ord w src dest = Some (tasks, w') \<Longrightarrow> I w \<Longrightarrow>
     list_all (\<lambda>t. allowed I A (tk_destPath t)) tasks"
  by (auto simp: tasks_allowed_def)

lemma tasks_anywhere [simp]: "tasks_allowed I anywhere fuel M ord src dest"
  by (simp add: tasks_allowed_def list_all_iff)

text \<open>A pool that starts idle finishes only what is submitted to it.\<close>

lemma finished_submitted:
  assumes "run p ls q" "outstanding p = 0"
  shows "set (finished ls) \<subseteq> set (submitted ls)"
proof -
  have e: "tp_taskQueue p = []" "tally current p = {#}" using assms(2) idle_current [of p] by (simp_all add: outstanding_def)
  have "mset (finished ls) \<subseteq># mset (started ls)" using run_account(2) [OF assms(1)] e(2) by (metis add_0 mset_subset_eq_add_right)
  moreover have "set (started ls) \<subseteq> set (submitted ls)" using run_account(1) [OF assms(1)] e(1) by auto
  ultimately show ?thesis by (metis set_mset_mono set_mset_mset subset_trans)
qed

context world_guard
begin

section \<open>Files\<close>

lemma setFileMode_kept [kept]: "setFileMode w p m = (ok, w') \<Longrightarrow> guarded I A D w \<Longrightarrow> allowed I A p \<Longrightarrow> guarded I A D w'"
  using chmod_kept [of D w p m] by (simp add: setFileMode_def)

lemma setFileMode_snd [kept_intro]: "guarded I A D w \<Longrightarrow> allowed I A p \<Longrightarrow> guarded I A D (snd (setFileMode w p m))"
  by (simp add: setFileMode_def chmod_kept)

lemma of_write_snd [kept_intro]: "guarded I A D w \<Longrightarrow> \<not> D k \<Longrightarrow> guarded I A D (snd (of_write w k bs))"
  by (rule write_kept(4) [OF prod.collapse [symmetric]])

lemma createDirectory_loop_kept [kept]:
  "createDirectory_loop w p m pos = (ok, w') \<Longrightarrow> guarded I A anywhere w \<Longrightarrow> makes_path I A p \<Longrightarrow> guarded I A anywhere w'"
proof (induction w p m pos arbitrary: ok w' rule: createDirectory_loop.induct)
  case (1 w p m pos)
  show ?case
  proof (cases "str_find (CHR ''/'') p pos")
    case None
    with "1.prems" show ?thesis by (subst (asm) createDirectory_loop.simps) simp
  next
    case (Some nxt)
    show ?thesis
    proof (cases "take nxt p \<noteq> [] \<and> sys_stat w (take nxt p) = None")
      case False
      have "createDirectory_loop w p m (nxt + 1) = (ok, w')"
        using "1.prems"(1) False Some by (subst (asm) createDirectory_loop.simps) (auto simp: Let_def split: if_splits)
      from "1.IH"(2) [OF Some refl False this "1.prems"(2,3)] show ?thesis .
    next
      case True
      obtain ok1 w1 where m: "sys_mkdir w (take nxt p) m = (ok1, w1)" by fastforce
      have "p = take nxt p @ CHR ''/'' # drop (Suc nxt) p" using str_find_Some(2,3) [OF Some] by (metis id_take_nth_drop)
      then have "makes I A (take nxt p)" using makes_pathD(2) "1.prems"(3) by metis
      note g = mkdir_kept [OF m "1.prems"(2) this]
      show ?thesis
      proof (cases ok1)
        case False
        with "1.prems"(1) True Some m g show ?thesis by (subst (asm) createDirectory_loop.simps) (simp add: Let_def)
      next
        case ok: True
        then have "createDirectory_loop w1 p m (nxt + 1) = (ok, w')"
          using "1.prems"(1) True Some m by (subst (asm) createDirectory_loop.simps) (simp add: Let_def)
        from "1.IH"(1) [OF Some refl True m [symmetric] refl _ this g "1.prems"(3)] ok show ?thesis by simp
      qed
    qed
  qed
qed

lemma createDirectory_kept [kept]:
  "createDirectory w p m = (ok, w') \<Longrightarrow> guarded I A anywhere w \<Longrightarrow> makes_path I A p \<Longrightarrow> guarded I A anywhere w'"
  using makes_pathD(1) [of I A p] by (auto simp: createDirectory_def Let_def split: prod.splits if_splits dest: kept)

lemma saveProgress_kept [kept_intro]:
  assumes g: "guarded I A D w" and "allowed I A p"
  shows "guarded I A D (saveProgress w p off tot)"
proof (cases "of_open w (getProgressFilePath p) False")
  have p: "names I A (getProgressFilePath p)" using assms(2) by simp
  case (Pair h w1)
  show ?thesis
  proof (cases h)
    case (Some k)
    show ?thesis
      by (rule opened_kept [OF Pair [unfolded of_open_def Some] _ g p]) (simp_all add: saveProgress_def Pair Some of_write_snd)
  qed (use Pair g p in \<open>auto simp: saveProgress_def dest: kept\<close>)
qed

lemma remove_progress_kept [kept_intro]:
  "guarded I A D w \<Longrightarrow> allowed I A p \<Longrightarrow> guarded I A D (snd (sys_remove w (getProgressFilePath p)))"
  by (simp add: remove_kept)

section \<open>Copies\<close>

lemma transfer_loop_kept [kept]:
  "transfer_loop fs dest k tot w s tr = (ok, w') \<Longrightarrow> guarded I A D w \<Longrightarrow> \<not> D k \<Longrightarrow> allowed I A dest \<Longrightarrow> guarded I A D w'"
proof (induction fs dest k tot w s tr arbitrary: ok w' rule: transfer_loop.induct)
  case (1 fs dest k tot w s tr)
  obtain buffer s1 w1 where r: "ifs_read w s 4096 = (buffer, s1, w1)" by (metis prod_cases3)
  note g1 = read_kept [OF r "1.prems"(2)]
  obtain good w2 where o: "of_write w1 k buffer = (good, w2)" by fastforce
  note g2 = write_kept(4) [OF o g1 "1.prems"(3)]
  show ?case
  proof (cases "is_good s1 \<and> good")
    case True
    let ?w3 = "throttle fs (saveProgress w2 dest (tr + int (length buffer)) tot)"
    have "transfer_loop fs dest k tot ?w3 s1 (tr + int (length buffer)) = (ok, w')"
      using "1.prems"(1) True r o by (subst (asm) transfer_loop.simps) (simp add: Let_def)
    from "1.IH" [OF r [symmetric] refl refl _ o [symmetric] refl _ refl refl this _ "1.prems"(3,4)] True g2 "1.prems"(4) show ?thesis
      by (auto intro: kept_intro)
  next
    case False
    with "1.prems"(1,4) r o g1 g2 show ?thesis
      by (subst (asm) transfer_loop.simps) (auto simp: Let_def intro: kept_intro split: if_splits)
  qed
qed

lemma transferFile_kept [kept]:
  assumes "transferFile fs w src dest off = (ok, w')" and g: "guarded I A D w" and p: "allowed I A dest"
  shows "guarded I A D w'"
proof -
  obtain h w1 where o: "of_open w dest (off > 0) = (h, w1)" by fastforce
  show ?thesis
  proof (cases "ifs_open w src = None \<or> h = None")
    case True
    with assms o of_open_kept [OF o g allowedD(1) [OF p]] show ?thesis by (auto simp: transferFile_def split: option.splits)
  next
    case False
    then obtain d k where k: "ifs_open w src = Some d" "h = Some k" by auto
    show ?thesis
      by (rule opened_kept [OF o [unfolded of_open_def k(2)] _ g allowedD(1) [OF p]])
         (use assms(1) o k p in \<open>auto simp: transferFile_def Let_def intro: transfer_loop_kept\<close>)
  qed
qed

lemma resumeSync_kept [kept]: "resumeSync fs w src dest = (ok, w') \<Longrightarrow> guarded I A D w \<Longrightarrow> allowed I A dest \<Longrightarrow> guarded I A D w'"
  by (auto simp: resumeSync_def Let_def split: prod.splits if_splits dest: kept)

lemma handleConflict_kept [kept]:
  "handleConflict fs w src dest = (ok, w') \<Longrightarrow> guarded I A anywhere w \<Longrightarrow> allowed I A dest \<Longrightarrow> guarded I A anywhere w'"
  by (auto simp: handleConflict_def Let_def split: prod.splits if_splits dest: kept)

lemma cleanup_kept [kept_intro]: "guarded I A D w \<Longrightarrow> allowed I A dest \<Longrightarrow> guarded I A D (cleanupCorruptedFile w dest)"
  by (simp add: cleanupCorruptedFile_def Let_def kept_intro)

lemma chunk_step_kept:
  assumes "chunk_step j c g = (c', g')" "guarded I A D (sh_world g)" "\<not> D (jb_dst j)" "allowed I A (jb_dest j)"
  shows "guarded I A D (sh_world g')"
  using assms by (cases "ch_pc c")
    (auto simp: chunk_step_def Let_def split: if_splits prod.splits rres.splits wres.splits dest: kept intro: kept_intro)

lemma run_chunk_kept:
  "run_chunk j c g = (c', g') \<Longrightarrow> guarded I A D (sh_world g) \<Longrightarrow> \<not> D (jb_dst j) \<Longrightarrow> allowed I A (jb_dest j) \<Longrightarrow>
     guarded I A D (sh_world g')"
proof (induction j c g arbitrary: c' g' rule: run_chunk.induct)
  case (1 j c g)
  obtain c1 g1 where s: "chunk_step j c g = (c1, g1)" by fastforce
  show ?case
  proof (cases "is_done c")
    case True
    with "1.prems" show ?thesis by (simp add: run_chunk.simps)
  next
    case False
    with "1.prems"(1) s have "run_chunk j c1 g1 = (c', g')" by (simp add: run_chunk.simps)
    from "1.IH" [OF False s [symmetric] refl this chunk_step_kept [OF s "1.prems"(2-4)] "1.prems"(3,4)] show ?thesis .
  qed
qed

lemma run_schedule_kept:
  "run_schedule j sched (cs, g) = (cs', g') \<Longrightarrow> guarded I A D (sh_world g) \<Longrightarrow> \<not> D (jb_dst j) \<Longrightarrow> allowed I A (jb_dest j) \<Longrightarrow>
     guarded I A D (sh_world g')"
proof (induction sched arbitrary: cs g)
  case (Cons i sched)
  obtain cs1 g1 where s: "step_at j (cs, g) i = (cs1, g1)" by fastforce
  then have "guarded I A D (sh_world g1)"
    using Cons.prems(2-4) chunk_step_kept [of j "cs ! i" g] by (auto simp: step_at_def split: if_splits prod.splits)
  moreover have "run_schedule j sched (cs1, g1) = (cs', g')" using Cons.prems(1) s by (simp add: run_schedule_def)
  ultimately show ?case using Cons.IH Cons.prems(3,4) by blast
qed (simp add: run_schedule_def)

lemma finish_kept:
  "finish j cs g = (cs', g') \<Longrightarrow> guarded I A D (sh_world g) \<Longrightarrow> \<not> D (jb_dst j) \<Longrightarrow> allowed I A (jb_dest j) \<Longrightarrow>
     guarded I A D (sh_world g')"
proof (induction cs arbitrary: g cs' g')
  case (Cons c cs)
  obtain c1 g1 where c: "run_chunk j c g = (c1, g1)" by fastforce
  obtain cs2 g2 where f: "finish j cs g1 = (cs2, g2)" by fastforce
  from Cons.IH [OF f run_chunk_kept [OF c Cons.prems(2-4)] Cons.prems(3,4)] Cons.prems(1) c f show ?case by simp
qed simp

lemma open_dest_kept [kept]:
  assumes "open_dest w dest off sz = (h, w')" and g: "guarded I A D w" and p: "allowed I A dest"
  shows "guarded I A D w'"
proof (cases "off = 0")
  case True
  obtain h1 w1 where o: "sys_open_w w dest 0x1A4 True True = (h1, w1)" by fastforce
  show ?thesis
  proof (cases h1)
    case None
    with assms True o open_kept [OF o _ g allowedD(1) [OF p]] show ?thesis by (simp add: open_dest_def)
  next
    case (Some k)
    show ?thesis
      by (rule opened_kept [OF o [unfolded Some] _ g allowedD(1) [OF p]])
         (use assms(1) True o Some p in \<open>auto simp: open_dest_def Let_def split: prod.splits if_splits dest: write_kept(3) intro: kept_intro\<close>)
  qed
next
  case False
  with assms open_kept [of w dest 0 False False h w' D] allowedD(1) [OF p] show ?thesis by (simp add: open_dest_def)
qed

lemma open_dest_file:
  assumes "open_dest w dest off sz = (Some k, w1)"
  shows "\<not> is_dir (w_fs w1) k"
proof (cases "off = 0")
  case True
  then obtain k1 w2 where o: "sys_open_w w dest 0x1A4 True True = (Some k1, w2)" "k1 = k" "w1 = snd (sys_ftruncate w2 k (nat sz))"
    using assms by (auto simp: open_dest_def Let_def split: option.splits prod.splits if_splits)
  have "\<not> is_dir (w_fs w2) k" using sys_open_w_not_dir [OF _ o(1)] o(2) by simp
  with o(3) show ?thesis by (auto simp: sys_ftruncate_def next_ev_eq Let_def is_dir_set_data split: if_splits)
next
  case False
  with assms sys_open_w_not_dir [of 0 w dest False False k w1] show ?thesis by (simp add: open_dest_def)
qed

lemma open_dest_names: "open_dest w dest off sz = (Some k, w1) \<Longrightarrow> resolve w dest = Some k"
  by (cases rule: sys_open_w_cases [of w dest "if off = 0 then 0x1A4 else 0" "off = 0" "off = 0"])
     (auto simp: open_dest_def Let_def split: prod.splits if_splits)

lemma parallel_copy_kept [kept]:
  assumes "transferLargeFileAsync fs sched w src dest off = (ok, w')" and g: "guarded I A D w" and p: "allowed I A dest"
  shows "guarded I A D w'"
proof (cases "w' = w")
  case False
  then obtain st srcFd h w1 where st: "getFileStat w src = Some st" "FileSync_checkDiskSpace w dest (st_size st - off)"
    "sys_open_r w src = Some srcFd" "open_dest w dest off (st_size st) = (h, w1)"
    using assms(1) by (auto simp: transferLargeFileAsync_def Let_def split: option.splits if_splits prod.splits)
  note g1 = open_dest_kept [OF st(4) g p]
  show ?thesis
  proof (cases h)
    case None
    with assms(1) st g1 show ?thesis by (simp add: transferLargeFileAsync_def)
  next
    case (Some k)
    let ?j = "\<lparr>jb_fs = fs, jb_dest = dest, jb_total = st_size st, jb_src = srcFd, jb_dst = k\<rparr>"
    let ?D = "\<lambda>p. D p \<and> p \<noteq> k"
    obtain cs1 g1 where r: "run_schedule ?j sched (make_chunks (st_size st) off, \<lparr>sh_world = w1, sh_transferred = off, sh_hasError = False\<rparr>) = (cs1, g1)"
      by fastforce
    obtain cs2 g2 where f: "finish ?j cs1 g1 = (cs2, g2)" by fastforce
    have "A k" using open_dest_names [of w dest off "st_size st" k w1] st(4) Some g allowedD(1) [OF p] by (auto simp: names_def guarded_def)
    then have "guarded I A ?D w1" using guarded_fresh [OF g1 _ open_dest_file] st(4) Some by simp
    with run_schedule_kept [OF r, of ?D] finish_kept [OF f, of ?D] p have "guarded I A ?D (sh_world g2)" by simp
    then have "guarded I A D (sh_world g2)" by (rule guarded_weaken)
    with assms(1) st Some r f p show ?thesis
      by (auto simp: transferLargeFileAsync_def Let_def split: if_splits intro: kept_intro)
  qed
qed (use g in simp)

section \<open>Local synchronisation\<close>

lemma syncDirectory_kept [kept]:
  "syncDirectory w src dest mode = (ok, w') \<Longrightarrow> guarded I A anywhere w \<Longrightarrow> allowed I A dest \<Longrightarrow> guarded I A anywhere w'"
  by (auto simp: syncDirectory_def Let_def split: prod.splits if_splits dest: kept)

lemma syncFile_copy_kept [kept]:
  assumes "syncFile_copy fs sched w src dest mode = (ok, w')" and g: "guarded I A D w" and p: "allowed I A dest"
  shows "guarded I A D w'"
proof -
  define async where "async = (case getFileStat w src of None \<Rightarrow> False | Some st \<Rightarrow> st_size st \<ge> LARGE_FILE_THRESHOLD \<and> fsy_threadPool fs)"
  obtain b1 w1 where a: "(if async then transferLargeFileAsync fs sched w src dest 0 else (False, w)) = (b1, w1)" by fastforce
  have g1: "guarded I A D w1" using a g p by (auto split: if_splits dest: kept)
  obtain b2 w2 where t: "transferFile fs (if async then cleanupCorruptedFile w1 dest else w1) src dest 0 = (b2, w2)" by fastforce
  have g2: "guarded I A D w2" using transferFile_kept [OF t, of D] g1 p by (simp add: kept_intro)
  from assms(1) a t g1 g2 p show ?thesis
    by (auto simp: syncFile_copy_def Let_def async_def [symmetric] split: if_splits intro: kept_intro)
qed

lemma syncFile_resume_kept [kept]:
  assumes "syncFile_resume fs sched w src dest mode = (ok, w')" and g: "guarded I A D w" and p: "allowed I A dest"
  shows "guarded I A D w'"
proof -
  obtain q w1 where q: "loadProgress w dest = (q, w1)" by fastforce
  obtain b w2 where t: "transferFile fs w1 src dest (sp_offset q) = (b, w2)" by fastforce
  note g1 = loadProgress_kept [OF q g]
  note g2 = transferFile_kept [OF t g1 p]
  have "guarded I A D (snd (setFileMode (snd (sys_remove w2 (getProgressFilePath dest))) dest mode))"
    by (intro kept_intro g2) (simp_all add: p)
  with assms(1) q t g1 g2 p show ?thesis
    by (auto simp: syncFile_resume_def Let_def split: if_splits dest: syncFile_copy_kept)
qed

lemma syncFile_kept [kept]:
  assumes "syncFile fs sched w src dest mode = (ok, w')" and g: "guarded I A anywhere w" and p: "allowed I A dest"
  shows "guarded I A anywhere w'"
proof (cases "fileExists w src")
  case True
  obtain b1 w1 where c: "(case find_last_of (CHR ''/'') dest of None \<Rightarrow> (True, w)
      | Some lastSlash \<Rightarrow> createDirectory w (take lastSlash dest) 0x1ED) = (b1, w1)" by fastforce
  have g1: "guarded I A anywhere w1" using c g makes_path_take [OF allowedD(4) [OF p]] by (auto split: option.splits dest: kept)
  obtain b2 w2 where h: "(if fileExists w1 dest then handleConflict fs w1 src dest else (True, w1)) = (b2, w2)" by fastforce
  have g2: "guarded I A anywhere w2" using h g1 p by (auto split: if_splits dest: kept)
  from assms(1) True c h g1 g2 p show ?thesis by (auto simp: syncFile_def Let_def split: if_splits dest: kept)
qed (use assms in \<open>simp add: syncFile_def\<close>)

lemma executeSyncTask_kept [kept]:
  "executeSyncTask fs sched w t = (ok, w') \<Longrightarrow> guarded I A anywhere w \<Longrightarrow> allowed I A (tk_destPath t) \<Longrightarrow> guarded I A anywhere w'"
  by (auto simp: executeSyncTask_def split: if_splits dest: kept)

lemma execute_tasks_kept [kept]:
  "execute_tasks fs sched w ts = (ok, w') \<Longrightarrow> guarded I A anywhere w \<Longrightarrow> list_all (\<lambda>t. allowed I A (tk_destPath t)) ts \<Longrightarrow> guarded I A anywhere w'"
proof (induction ts arbitrary: w)
  case (Cons t ts)
  obtain b w1 where t: "executeSyncTask fs sched w t = (b, w1)" by fastforce
  from Cons.IH [of w1] Cons.prems t executeSyncTask_kept [OF t Cons.prems(2)] show ?case by (simp split: if_splits)
qed simp

lemma syncLocal_kept [kept]:
  assumes "syncLocal fuel M ord fs sched w src dest rec = Some (ok, w')" "guarded I A anywhere w"
    and p: "makes_path I A dest" "tasks_allowed I A fuel M ord src dest"
  shows "guarded I A anywhere w'"
proof -
  obtain b w1 where c: "createDirectory w dest 0x1ED = (b, w1)" by fastforce
  note g1 = createDirectory_kept [OF c assms(2) p(1)]
  show ?thesis
  proof (cases "b")
    case True
    with assms(1) c obtain ts w2 where d: "detectChanges fuel M ord w1 src dest = Some (ts, w2)" "execute_tasks fs sched w2 ts = (ok, w')"
      by (auto simp: syncLocal_def split: option.splits)
    have "list_all (\<lambda>t. allowed I A (tk_destPath t)) ts" using tasks_allowedD [OF p(2) d(1)] g1 by (simp add: guarded_anywhere)
    from execute_tasks_kept [OF d(2) detectChanges_kept [OF d(1) g1] this] show ?thesis .
  qed (use assms(1) c g1 in \<open>simp add: syncLocal_def\<close>)
qed

lemma processSyncTask_kept:
  "guarded I A anywhere w \<Longrightarrow> allowed I A (tk_destPath t) \<Longrightarrow> guarded I A anywhere (processSyncTask fs sched t w)"
  unfolding processSyncTask_def by (rule executeSyncTask_kept [OF prod.collapse [symmetric]])

lemma pool_tasks_kept:
  "guarded I A anywhere w \<Longrightarrow> (\<And>t. t \<in> set ts \<Longrightarrow> allowed I A (tk_destPath t)) \<Longrightarrow>
     guarded I A anywhere (fold (processSyncTask fs sched) ts w)"
  by (induction ts arbitrary: w) (simp_all add: processSyncTask_kept)

section \<open>The client\<close>

lemma send_file_loop_kept [kept]:
  assumes "send_file_loop fs dest sz w c s tr = Some y" "allowed I A dest \<and> guarded I A D w"
  shows "guarded I A D (snd (snd y))"
proof (rule send_file_loop.raw_induct [of "\<lambda>fs dest sz w c s tr y. allowed I A dest \<and> guarded I A D w \<longrightarrow> guarded I A D (snd (snd y))",
      THEN mp, OF _ assms], rule impI)
  fix f fs dest sz w c s tr y
  assume ih: "\<And>fs dest sz w c s tr y. f fs dest sz w c s tr = Some y \<Longrightarrow> allowed I A dest \<and> guarded I A D w \<longrightarrow> guarded I A D (snd (snd y))"
    and pg: "allowed I A dest \<and> guarded I A D w"
    and eq: "(if tr < sz
      then case ifs_read w s (min 4096 (nat (sz - tr))) of
           (buffer, srcFile1, w1) \<Rightarrow>
             if 0 < length buffer
             then case TcpClient_send w1 c buffer of
                  (ok, client1, w2) \<Rightarrow>
                    if \<not> ok then Some (False, client1, saveProgress w2 dest tr sz)
                    else f fs dest sz (throttle fs (saveProgress w2 dest (tr + int (length buffer)) sz)) client1 srcFile1
                          (tr + int (length buffer))
             else f fs dest sz w1 c srcFile1 tr
      else Some (True, c, snd (sys_remove w (getProgressFilePath dest)))) = Some y"
  note p = pg [THEN conjunct1] and g = pg [THEN conjunct2]
  obtain buffer s1 w1 where r: "ifs_read w s (min 4096 (nat (sz - tr))) = (buffer, s1, w1)" by (metis prod_cases3)
  obtain ok c1 w2 where t: "TcpClient_send w1 c buffer = (ok, c1, w2)" by (metis prod_cases3)
  note g1 = read_kept [OF r g]
  note g2 = tcp_client_kept(2) [OF t g1]
  have g3: "guarded I A D (throttle fs (saveProgress w2 dest n sz))" for n by (intro kept_intro g2) (simp add: p)
  show "guarded I A D (snd (snd y))"
    using eq r t g g1 g2 p ih [THEN mp, OF _ conjI [OF p g1]] ih [THEN mp, OF _ conjI [OF p g3]] by (auto split: if_splits intro: kept_intro)
qed

lemma sendFileSync_kept [kept]:
  "sendFileSync fs w src dest c off = Some (ok, c', w') \<Longrightarrow> guarded I A D w \<Longrightarrow> allowed I A dest \<Longrightarrow> guarded I A D w'"
  by (auto simp: sendFileSync_def split: option.splits dest: send_file_loop_kept)

lemma send_content_kept [kept]:
  assumes "send_content fs fuel evs resume t handler (c, w) = Some (ok, handler', c', w')" and g: "guarded I A D w" and p: "allowed I A (tk_destPath t)"
  shows "guarded I A D w'"
proof (cases "tk_isDirectory t")
  case True
  with assms show ?thesis by (auto simp: send_content_def split: prod.splits dest: kept)
next
  case False
  define sz where "sz = (case getFileStat w (tk_srcPath t) of None \<Rightarrow> 0 | Some st \<Rightarrow> st_size st)"
  obtain off w1 where o: "resume_offset resume w (tk_destPath t) sz = (off, w1)" by fastforce
  obtain c2 w2 where c: "client_send (enc_off_t off) (c, w1) = (c2, w2)" by fastforce
  have g2: "guarded I A D w2" using client_send_pair [OF c resume_offset_kept [OF o g]] .
  from assms(1) False o c g2 p show ?thesis
    by (auto simp: send_content_def Let_def sz_def [symmetric] split: if_splits option.splits bool.splits prod.splits dest: kept)
qed

lemma send_contents_kept [kept]:
  "send_contents fs fuel evs resume ts handler (c, w) = Some (ok, handler', c', w') \<Longrightarrow> guarded I A D w \<Longrightarrow>
     list_all (\<lambda>t. allowed I A (tk_destPath t)) ts \<Longrightarrow> guarded I A D w'"
proof (induction ts arbitrary: handler c w)
  case (Cons t ts)
  then show ?case by (auto split: option.splits bool.splits dest: send_content_kept)
qed simp

lemma syncRemote_kept [kept]:
  assumes "syncRemote fuel M ord fs evs handler w src dest host port resume = Some (ok, handler', w')" and g: "guarded I A D w"
    and p: "tasks_allowed I A fuel M ord src dest"
  shows "guarded I A D w'"
proof -
  obtain b c w1 where c: "TcpClient_connect w TcpClient_new host port = (b, c, w1)" by (metis prod_cases3)
  note g1 = tcp_client_kept(1) [OF c g]
  show ?thesis
  proof (cases b)
    case True
    with assms(1) c obtain ts w2 where d: "detectChanges fuel M ord w1 src dest = Some (ts, w2)"
      by (auto simp: syncRemote_def split: option.splits)
    let ?cw = "fold send_metadata ts (client_send (enc_int (to_int32 (int (length ts)))) (client_send [CHR 0x00] (c, w2)))"
    have g3: "guarded I A D (snd ?cw)"
      by (intro send_all_metadata_kept kept_intro) (simp add: detectChanges_kept [OF d g1])
    have ts: "list_all (\<lambda>t. allowed I A (tk_destPath t)) ts" using tasks_allowedD [OF p d] g1 by (simp add: guarded_def)
    obtain c3 w3 where cw: "?cw = (c3, w3)" by fastforce
    with g3 have "guarded I A D w3" by simp
    with assms(1) c True d cw ts show ?thesis
      by (auto simp: syncRemote_def Let_def split: option.splits bool.splits prod.splits dest: kept intro: kept_intro)
  qed (use assms(1) c g1 in \<open>simp add: syncRemote_def\<close>)
qed

section \<open>The server\<close>

lemma write_all_kept [kept]:
  "write_all k w bs = (ok, w') \<Longrightarrow> guarded I A D w \<Longrightarrow> \<not> D k \<Longrightarrow> guarded I A D w'"
proof (induction k w bs arbitrary: ok w' rule: write_all.induct)
  case (1 k w bs)
  obtain x w1 where x: "sys_write w k bs = (x, w1)" by fastforce
  note g = write_kept(1) [OF x "1.prems"(2,3)]
  show ?case
    using "1.prems" x g "1.IH"(1) [OF _ x [symmetric] _ _ g] "1.IH"(2) [OF _ x [symmetric] _ _ g]
    by (subst (asm) write_all.simps) (auto split: if_splits wres.splits)
qed

lemma receive_data_loop_kept [kept]:
  "receive_data_loop fd k w sz pos = (ok, w') \<Longrightarrow> guarded I A D w \<Longrightarrow> \<not> D k \<Longrightarrow> guarded I A D w'"
proof (induction fd k w sz pos arbitrary: ok w' rule: receive_data_loop.induct)
  case (1 fd k w sz pos)
  obtain x w1 where x: "robustRead fd w (min 65536 (nat (sz - pos))) [] = (x, w1)" by fastforce
  note g1 = robustRead_kept [OF x "1.prems"(2)]
  obtain b w2 where y: "write_all k w1 (the x) = (b, w2)" by fastforce
  note g2 = write_all_kept [OF y g1 "1.prems"(3)]
  show ?case
  proof (cases "pos < sz \<and> x \<noteq> None \<and> x \<noteq> Some [] \<and> b")
    case True
    then obtain bs where bs: "x = Some bs" "bs \<noteq> []" by auto
    with "1.prems"(1) True x y have "receive_data_loop fd k w2 sz (pos + int (length bs)) = (ok, w')"
      by (subst (asm) receive_data_loop.simps) simp
    from "1.IH" [OF _ x [symmetric] bs(1) bs(2) y [symmetric, unfolded bs(1) option.sel] _ this g2 "1.prems"(3)] True
    show ?thesis by simp
  next
    case False
    with "1.prems" x y g1 g2 show ?thesis
      by (subst (asm) receive_data_loop.simps) (auto split: if_splits option.splits bool.splits)
  qed
qed

lemma receiveFileData_kept [kept]:
  assumes "receiveFileData base fd w t off = (ok, w')" and g: "guarded I A D w" and p: "names I A (base @ ss_destPath t)"
  shows "guarded I A D w'"
proof -
  let ?p = "base @ ss_destPath t"
  obtain h w1 where o: "sys_open_w w ?p 0x1A4 True (\<not> off > 0) = (h, w1)" by fastforce
  note g1 = open_kept [OF o _ g p, simplified]
  show ?thesis
  proof (cases h)
    case None
    with assms(1) o g1 show ?thesis by (simp add: receiveFileData_def)
  next
    case (Some k)
    show ?thesis
    proof (cases "off > 0 \<and> int (length (old_bytes w1 k)) \<noteq> off")
      case False
      have "receive_data_loop fd k w1 (ss_fileSize t) off = (ok, w')"
        using assms(1) o Some False by (auto simp: receiveFileData_def split: if_splits)
      then show ?thesis by (intro opened_kept [OF o [unfolded Some] _ g p]) (auto dest: kept)
    next
      case True
      obtain h2 w2 where o2: "sys_open_w w1 ?p 0x1A4 True True = (h2, w2)" by fastforce
      note g2 = open_kept [OF o2 _ g1 p, simplified]
      show ?thesis
      proof (cases h2)
        case None
        with assms(1) o Some True o2 g2 show ?thesis by (simp add: receiveFileData_def)
      next
        case (Some k2)
        with assms(1) o \<open>h = Some k\<close> True o2 have "receive_data_loop fd k2 w2 (ss_fileSize t) 0 = (ok, w')"
          by (simp add: receiveFileData_def)
        then show ?thesis by (intro opened_kept [OF o2 [unfolded Some] _ g1 p]) (auto dest: kept)
      qed
    qed
  qed
qed

lemma handle_task_kept [kept]:
  assumes "handle_task base fd w t = (ok, w')" and g: "guarded I A anywhere w" and p: "allowed I A (base @ ss_destPath t)"
  shows "guarded I A anywhere w'"
proof -
  obtain x w1 where x: "receiveOffT fd w = (x, w1)" by fastforce
  note g1 = receive_kept(4) [OF x g]
  show ?thesis
    using assms(1) x g1 p makes_path_take [OF allowedD(4) [OF p]]
    by (auto simp: handle_task_def Let_def split: option.splits if_splits prod.splits bool.splits
        dest: kept intro: kept_intro)
qed

lemma handle_tasks_kept [kept]:
  "handle_tasks base fd w ts = (ok, n, w') \<Longrightarrow> guarded I A anywhere w \<Longrightarrow> list_all (\<lambda>t. allowed I A (base @ ss_destPath t)) ts \<Longrightarrow>
     guarded I A anywhere w'"
proof (induction ts arbitrary: w ok n)
  case (Cons t ts)
  obtain b w1 where t: "handle_task base fd w t = (b, w1)" by fastforce
  with Cons handle_task_kept [OF t Cons.prems(2)] show ?case by (auto split: bool.splits prod.splits)
qed simp

lemma handle_sync_kept:
  assumes "handle_sync maxvec s fd w = (r, s', w')" and g: "guarded I A anywhere w"
    and ts: "\<And>n w1 ts w2. receiveInt fd w = (Some n, w1) \<Longrightarrow> receiveTaskMetadata maxvec fd w1 n = (Got ts, w2) \<Longrightarrow>
       list_all (\<lambda>t. allowed I A (sv_baseDirectory s @ ss_destPath t)) ts"
  shows "guarded I A anywhere w'"
proof -
  obtain x w1 where x: "receiveInt fd w = (x, w1)" by fastforce
  note g1 = receive_kept(2) [OF x g]
  show ?thesis
  proof (cases x)
    case (Some n)
    obtain y w2 where y: "receiveTaskMetadata maxvec fd w1 n = (y, w2)" by fastforce
    note g2 = receiveTaskMetadata_kept [OF y g1]
    have "guarded I A anywhere w3" if "y = Got tasks" "handle_tasks (sv_baseDirectory s) fd w2 tasks = (ok, m, w3)" for tasks ok m w3
      using handle_tasks_kept [OF that(2) g2 ts [OF x [unfolded Some]]] y that(1) by simp
    with assms(1) x Some y g2 show ?thesis
      by (auto simp: handle_sync_def Let_def split: prod.splits received.splits if_splits intro!: kept_intro)
  qed (use assms(1) x g1 in \<open>auto simp: handle_sync_def intro: kept_intro\<close>)
qed

lemma handleClient_kept:
  assumes "handleClient fuel pb M maxvec s fd w = Some (r, s', w')" and g: "guarded I A anywhere w"
    and ts: "list_all (\<lambda>t. allowed I A (sv_baseDirectory s @ ss_destPath t)) (session_tasks maxvec fd w)"
  shows "guarded I A anywhere w'"
proof -
  obtain x w1 where x: "receiveBytes fd w 1 = (x, w1)" by fastforce
  note g1 = receive_kept(1) [OF x g]
  have sync: "guarded I A anywhere w'" if h: "handle_sync maxvec s fd w1 = (r, s', w')" and "x = Some [CHR 0x00]"
    by (rule handle_sync_kept [OF h g1]) (use ts x that(2) in \<open>simp add: session_tasks_def\<close>)
  show ?thesis
  proof (cases x)
    case None
    with assms(1) x g1 show ?thesis by (auto simp: handleClient_def intro: kept_intro)
  next
    case (Some m)
    with assms(1) x g1 sync show ?thesis
      by (auto simp: handleClient_def handleRpcClient_def split: if_splits dest: rpc_loop_kept intro: kept_intro)
  qed
qed

section \<open>The program\<close>

lemma handle_clients_kept:
  "handle_clients fuel pb M maxvec fds (s, w) = Some (s', w') \<Longrightarrow> guarded I A anywhere w \<Longrightarrow> (\<And>p. allowed I A p) \<Longrightarrow> guarded I A anywhere w'"
proof (induction fds arbitrary: s w)
  case (Cons fd fds)
  from Cons.prems(1) obtain r s1 w1 where h: "handleClient fuel pb M maxvec s fd w = Some (r, s1, w1)"
    "handle_clients fuel pb M maxvec fds (s1, w1) = Some (s', w')" by (auto split: option.splits)
  have "guarded I A anywhere w1" by (rule handleClient_kept [OF h(1) Cons.prems(2)]) (simp add: Cons.prems(3) list_all_iff)
  from Cons.IH [OF h(2) this Cons.prems(3)] show ?case .
qed simp

lemma serve_rounds_kept:
  "serve_rounds fuel pb M maxvec ns (s, w) = Some (s', w') \<Longrightarrow> guarded I A anywhere w \<Longrightarrow> (\<And>p. allowed I A p) \<Longrightarrow> guarded I A anywhere w'"
proof (induction ns arbitrary: s w)
  case (Cons x xs)
  show ?case
  proof (cases "sv_running s \<and> (\<exists>events. x = Events events)")
    case True
    then obtain events where e: "x = Events events" by blast
    obtain fds w1 where a: "accept_events s w events = (fds, w1)" by fastforce
    with Cons.prems(1) True e obtain s2 w2 where h: "handle_clients fuel pb M maxvec fds (s, w1) = Some (s2, w2)"
      "serve_rounds fuel pb M maxvec xs (s2, w2) = Some (s', w')" by (auto split: option.splits)
    from Cons.IH [OF h(2) handle_clients_kept [OF h(1) accept_events_kept [OF a Cons.prems(2)] Cons.prems(3)] Cons.prems(3)] show ?thesis .
  next
    case False
    with Cons.prems Cons.IH show ?thesis by (cases x) (auto split: if_splits)
  qed
qed simp

lemma accept_thread_kept:
  assumes "accept_thread fuel pb M maxvec epFd ns (s, w) = Some (s', w')" "guarded I A anywhere w" "\<And>p. allowed I A p"
  shows "guarded I A anywhere w'"
  using assms(1) accept_setup_kept [OF prod.collapse [symmetric] assms(2), of epFd] serve_rounds_kept [OF _ _ assms(3)]
  by (auto simp: accept_thread_def split: prod.splits if_splits)

lemma manager_syncLocal_kept:
  assumes "SyncManager_syncLocal fuel M ord sched m w src dest rec r m' w'" and i: "idle_pool m"
    and p: "tasks_allowed I A fuel M ord src dest" and g: "guarded I A anywhere w"
  shows "guarded I A anywhere w'"
proof -
  obtain fs q tasks w1 ls q' where s: "sm_threadPool m = Some q" "detectChanges fuel M ord w src dest = Some (tasks, w1)"
      "run q ls q'" "submitted ls = tasks" and w': "w' = fold (processSyncTask fs sched) (finished ls) w1"
    by (rule manager_syncLocalE [OF assms(1)]) blast
  have "list_all (\<lambda>t. allowed I A (tk_destPath t)) tasks" using tasks_allowedD [OF p s(2)] g by (simp add: guarded_anywhere)
  moreover have "set (finished ls) \<subseteq> set tasks" using finished_submitted [OF s(3)] i s(1,4) by (simp add: idle_pool_def)
  ultimately show ?thesis
    unfolding w' by (intro pool_tasks_kept detectChanges_kept [OF s(2) g]) (auto simp: list_all_iff)
qed

text \<open>The client mode of the program.\<close>

lemma run_sync_kept:
  assumes "run_sync fuel M ord sched evs opts m w success m1 w1" "idle_pool m" "guarded I A anywhere w"
    and "tasks_allowed I A fuel M ord (co_source opts) (co_destination opts)"
    and "co_resume opts \<and> \<not> co_remoteSync opts \<Longrightarrow> allowed I A (co_destination opts)"
  shows "guarded I A anywhere w1"
  using assms
  by (auto simp: run_sync_def SyncManager_syncRemote_def SyncManager_resumeSync_def
      split: if_splits option.splits prod.splits dest: kept manager_syncLocal_kept)

lemma main_client_kept:
  assumes "main fuel M ord sched evs epollFd pb maxvec rs w out w'" and I: "I w"
    and o: "parse_options rs default_options = Inr opts" "\<not> co_serverMode opts"
    and p: "tasks_allowed I A fuel M ord (co_source opts) (co_destination opts)"
      "co_resume opts \<and> \<not> co_remoteSync opts \<Longrightarrow> allowed I A (co_destination opts)"
  shows "I w'"
proof -
  have g: "guarded I A anywhere w" using I by (simp add: guarded_anywhere)
  have "idle_pool (configured_manager epollFd opts)" by (simp add: idle_pool_def configured_manager_simps(1))
  with assms(1) have "guarded I A anywhere w'"
    by (elim mainE) (use g o p in \<open>auto dest: run_sync_kept\<close>)
  then show ?thesis by (simp add: guarded_anywhere)
qed

text \<open>The whole program, when all places are allowed.\<close>

lemma main_kept:
  assumes "main fuel M ord sched evs epollFd pb maxvec rs w out w'" and I: "I w" and all: "\<And>p. allowed I A p"
  shows "I w'"
proof -
  have g: "guarded I A anywhere w" using I by (simp add: guarded_anywhere)
  have t: "tasks_allowed I A fuel M ord src dest" for src dest by (simp add: tasks_allowed_def list_all_iff all)
  have served: "guarded I A anywhere w3"
    if "SyncServer_start w srv0 port n = (True, srv, w1)" "accept_thread fuel pb M maxvec epFd rounds (srv, w1) = Some (srv2, w2)"
      "SyncServer_stop (sleep_ms ms w2) srv2 = (srv3, w3)" for srv0 port n srv w1 epFd rounds srv2 w2 ms srv3 w3
    using server_life_kept(2) [OF that(3) sleep_kept [OF accept_thread_kept [OF that(2) server_life_kept(1) [OF that(1) g] all]]] .
  from assms(1) have "guarded I A anywhere w'"
    by (rule mainE) (use g main_client_kept [OF assms(1) I _ _ t all] in \<open>auto simp: guarded_anywhere dest: server_life_kept(1) [THEN iffD1 [OF guarded_anywhere]] served\<close>)
  then show ?thesis by (simp add: guarded_anywhere)
qed

lemma handleClient_guard:
  assumes "handleClient fuel pb M maxvec s fd w = Some (r, s', w')" "I w"
    and "list_all (\<lambda>t. allowed I A (sv_baseDirectory s @ ss_destPath t)) (session_tasks maxvec fd w)"
  shows "I w'"
  using handleClient_kept [OF assms(1) _ assms(3)] assms(2) by (simp add: guarded_anywhere)

end

end
