(* ===== verification/Confinement.thy ===== *)
theory Confinement
  imports Conformance RpcListing
begin

text \<open>
  What the program leaves alone: a name that stays below an existing directory stands for a place below it in every state of
  the file system, so the interpretation \<open>outside\<close> of the locale \<open>world_guard\<close> applies to the server's sessions
  (the tasks whose path has no component \<^verbatim>\<open>..\<close>; the code does not reject the others) and to the client's local
  synchronisation (all tasks).
\<close>

section \<open>The place of a name\<close>

text \<open>Without links a name that resolves stands for a place that does not depend on the tree.\<close>

fun step_to :: "fpath \<Rightarrow> string \<Rightarrow> fpath" where
  "step_to k c = (if c = [] \<or> c = ''.'' then k else if c = ''..'' then butlast k else k @ [c])"

declare step_to.simps [simp del]

definition place :: "world \<Rightarrow> string \<Rightarrow> fpath" where
  "place w p = foldl step_to (path_start w (cstr p)) (split_slash (cstr p))"

lemma walk_lex: "walk fs k cs = Some r \<Longrightarrow> r = foldl step_to k cs"
  by (induction fs k cs rule: walk.induct) (auto simp: step_to.simps split: if_splits)

lemma lex_empty: "foldl step_to k (cs @ replicate n []) = foldl step_to k cs"
  by (induction n) (simp_all add: replicate_append_same [symmetric] step_to.simps flip: append_assoc del: append_assoc)

lemma resolve_place:
  assumes "resolve w p = Some k \<or> resolve_mkdir w p = Some k"
  shows "k = place w p"
proof -
  obtain n where "split_slash (cstr p) = strip_slashes (split_slash (cstr p)) @ replicate n []" using strip_slashes_replicate by blast
  then have e: "foldl step_to (path_start w (cstr p)) (strip_slashes (split_slash (cstr p))) = place w p"
    unfolding place_def by (metis lex_empty)
  have "walk (w_fs w) (path_start w (cstr p)) (split_slash (cstr p)) = Some k
      \<or> walk (w_fs w) (path_start w (cstr p)) (strip_slashes (split_slash (cstr p))) = Some k"
    using assms by (simp add: resolve_def resolve_mkdir_def Let_def split: if_splits)
  then show ?thesis
  proof
    assume "walk (w_fs w) (path_start w (cstr p)) (split_slash (cstr p)) = Some k"
    from walk_lex [OF this] show ?thesis by (simp only: place_def)
  next
    assume "walk (w_fs w) (path_start w (cstr p)) (strip_slashes (split_slash (cstr p))) = Some k"
    from walk_lex [OF this] show ?thesis by (simp only: e)
  qed
qed

lemma place_env: "env_of w' = env_of w \<Longrightarrow> place w' p = place w p"
  using env_cwd [of w' w] by (simp add: place_def path_start_def)

lemma lex_down: "''..'' \<notin> set cs \<Longrightarrow> is_prefix k (foldl step_to k cs)"
proof (induction cs rule: rev_induct)
  case (snoc c cs)
  let ?r = "foldl step_to k cs"
  have "is_prefix ?r (?r @ [c])" by (simp add: is_prefix_def)
  then have "is_prefix k ?r" "is_prefix k (?r @ [c])" using snoc is_prefix_trans by auto
  moreover have "step_to ?r c = ?r \<or> step_to ?r c = ?r @ [c]" using snoc.prems by (auto simp: step_to.simps)
  ultimately show ?case by auto
qed simp

section \<open>Names below the base directory\<close>

definition stays_inside :: "string \<Rightarrow> bool" where
  "stays_inside p \<longleftrightarrow> CHR 0x00 \<notin> set p \<and> ''..'' \<notin> set (split_slash p)"

lemma slash_dirE:
  assumes "slash_dir w base kb"
  obtains b where "base = b @ ''/''" "CHR 0x00 \<notin> set base" "walk (w_fs w) (path_start w base) (split_slash b) = Some kb" "is_dir (w_fs w) kb"
proof -
  obtain b where b: "base = b @ ''/''" using assms by (metis slash_dir_def append_butlast_last_id)
  have s: "split_slash base = split_slash b @ [[]]" using split_slash_append [of b "[]"] by (simp add: b)
  from assms have k: "cstr base = base" "walk (w_fs w) (path_start w base) (split_slash base) = Some kb" "is_dir (w_fs w) kb"
    "CHR 0x00 \<notin> set base"
    by (auto simp: slash_dir_def dir_at_def resolve_def Let_def cstr_id split: if_splits)
  have "walk (w_fs w) (path_start w base) (split_slash b) = Some kb"
    using k(2) unfolding s walk_snoc by (auto simp: bind_eq_Some_conv split: if_splits)
  with b k that show thesis by blast
qed

text \<open>The prefixes of the base directory's own name exist.\<close>

lemma base_prefix_exists:
  assumes d: "slash_dir w (b @ ''/'') kb" and n: "b @ ''/'' = q @ CHR ''/'' # r" and q: "q \<noteq> []"
  shows "sys_stat w q \<noteq> None"
proof -
  obtain b' where b: "b @ ''/'' = b' @ ''/''" "CHR 0x00 \<notin> set (b @ ''/'')"
    "walk (w_fs w) (path_start w (b @ ''/'')) (split_slash b') = Some kb" "is_dir (w_fs w) kb"
    by (rule slash_dirE [OF d])
  have s: "path_start w q = path_start w (b @ ''/'')" unfolding n using q by (simp add: path_start_def)
  have "\<exists>x. walk (w_fs w) (path_start w q) (split_slash q) = Some x \<and> is_dir (w_fs w) x"
  proof (cases "r = []")
    case True
    with n b s show ?thesis by simp
  next
    case False
    then obtain r' where r: "r = r' @ ''/''" using n by (metis append_butlast_last_id last_append last_ConsR list.distinct(1) last.simps)
    with n b(1) have "split_slash b' = split_slash q @ split_slash r'" using split_slash_append [of q r'] by simp
    then obtain x where "walk (w_fs w) (path_start w q) (split_slash q) = Some x" "walk (w_fs w) x (split_slash r') = Some kb"
      using b(3) s by (auto simp: walk_append bind_eq_Some_conv)
    moreover from this(2) have "is_dir (w_fs w) x" by (cases "split_slash r'") (auto split: if_splits)
    ultimately show ?thesis by blast
  qed
  moreover have "cstr q = q" using b(2) n by (intro cstr_id) auto
  ultimately show ?thesis using q by (auto simp: sys_stat_def resolve_def Let_def dest: is_dir_dom)
qed

lemma names_makes: "names I A p \<Longrightarrow> makes I A p"
  unfolding names_def makes_def by blast

text \<open>The tree is well formed, and what is outside \<open>kb\<close> is as in \<open>w0\<close>.\<close>

abbreviation same_outside :: "world \<Rightarrow> fpath \<Rightarrow> world \<Rightarrow> bool" where
  "same_outside w0 kb \<equiv> (\<lambda>w. fs_wf (w_fs w) \<and> env_of w = env_of w0 \<and> (\<forall>p. \<not> is_prefix kb p \<longrightarrow> content w p = content w0 p))"

lemma place_inside:
  assumes d: "slash_dir w base kb" and p: "stays_inside p"
  shows "is_prefix kb (place w (base @ p))"
proof -
  obtain b where b: "base = b @ ''/''" "CHR 0x00 \<notin> set base" "walk (w_fs w) (path_start w base) (split_slash b) = Some kb"
    by (rule slash_dirE [OF d])
  have "cstr (base @ p) = base @ p" "split_slash (base @ p) = split_slash b @ split_slash p" "path_start w (base @ p) = path_start w base"
    using b p by (simp_all add: stays_inside_def cstr_id split_slash_append path_start_def hd_append)
  then have "place w (base @ p) = foldl step_to kb (split_slash p)" using walk_lex [OF b(3)] by (simp add: place_def)
  with lex_down p show ?thesis by (simp add: stays_inside_def)
qed

lemma names_inside:
  assumes "slash_dir w0 base kb" "stays_inside p"
  shows "names (same_outside w0 kb) (is_prefix kb) (base @ p)"
  unfolding names_def using place_inside [OF assms] resolve_place place_env by metis

lemma stays_inside_suffix:
  assumes p: "stays_inside p" and s: "CHR ''/'' \<notin> set s" "CHR 0x00 \<notin> set s" "s \<noteq> []" "last s \<noteq> CHR ''.''"
  shows "stays_inside (p @ s)"
proof -
  have "last (last (split_slash p) @ s) \<noteq> last ''..''" using s(3,4) by simp
  then have "''..'' \<noteq> last (split_slash p) @ s" by metis
  then show ?thesis using p s(2) by (simp add: stays_inside_def split_slash_suffix [OF s(1)]) (metis in_set_butlastD)
qed

lemma stays_inside_prefix: "stays_inside (p @ CHR ''/'' # q) \<Longrightarrow> stays_inside p"
  by (auto simp: stays_inside_def split_slash_append)

text \<open>A directory on the way is on the way to the base directory, hence exists or is inside, or it is below.\<close>

lemma makes_inside:
  assumes d: "slash_dir w0 base kb" and p: "stays_inside p"
  shows "makes_path (same_outside w0 kb) (is_prefix kb) (base @ p)"
  unfolding makes_path_def
proof (intro allI impI)
  fix q assume q: "q = base @ p \<or> (\<exists>r. base @ p = q @ CHR ''/'' # r)"
  obtain b where b: "base = b @ ''/''" by (rule slash_dirE [OF d])
  consider us where "q = base @ us" "stays_inside us" | "q = []" | r where "b @ ''/'' = q @ CHR ''/'' # r" "q \<noteq> []"
  proof (cases "\<exists>r. base = q @ CHR ''/'' # r")
    case True
    with b that(2,3) show thesis by metis
  next
    case False
    with q have "q = base @ p \<or> (\<exists>us r. q = base @ us \<and> us @ CHR ''/'' # r = p)"
      by (auto simp: append_eq_append_conv2 append_eq_Cons_conv)
    with p stays_inside_prefix that(1) show thesis by blast
  qed
  then show "makes (same_outside w0 kb) (is_prefix kb) q"
  proof cases
    case 1
    then show ?thesis using names_makes [OF names_inside [OF d, of us]] by simp
  next
    case 2
    then show ?thesis by (simp add: makes_def resolve_mkdir_def cstr_def)
  next
    case (3 r)
    from base_prefix_exists [OF d [unfolded b] this] obtain x where x: "resolve w0 q = Some x" "map_of (w_fs w0) x \<noteq> None"
      by (auto simp: sys_stat_def split: option.splits)
    show ?thesis
      unfolding makes_def
    proof (intro allI impI)
      fix w k assume w: "same_outside w0 kb w" and "resolve_mkdir w q = Some k"
      then have "k = x" using resolve_place place_env x(1) by metis
      with w x(2) show "is_prefix kb k \<or> map_of (w_fs w) k \<noteq> None" by (metis content_None)
    qed
  qed
qed

lemma inside_allowed:
  assumes "slash_dir w0 base kb" "stays_inside p"
  shows "allowed (same_outside w0 kb) (is_prefix kb) (base @ p)"
proof -
  have "stays_inside (p @ ''.sync_progress'')" "stays_inside (p @ ''.bak'')"
    using stays_inside_suffix [OF assms(2), of "''.sync_progress''"] stays_inside_suffix [OF assms(2), of "''.bak''"] by simp_all
  from this [THEN names_inside [OF assms(1)]] names_inside [OF assms] makes_inside [OF assms] show ?thesis
    unfolding allowed_def getProgressFilePath_def append_assoc by blast
qed

section \<open>A session of the server\<close>

lemma session_outside:
  assumes h: "handleClient fuel pb M maxvec s fd w = Some (res, s', w')" and d: "slash_dir w (sv_baseDirectory s) kb" and wf: "fs_wf (w_fs w)"
    and ts: "list_all (\<lambda>t. stays_inside (ss_destPath t)) (session_tasks maxvec fd w)"
  shows "same_outside w kb w'"
  by (rule outside.handleClient_guard [OF h]) (use wf ts in \<open>simp_all add: list_all_iff inside_allowed [OF d]\<close>)

lemma rpc_session_reads:
  assumes "handleClient fuel pb M maxvec s fd w = Some (res, s', w')" "fst (receiveBytes fd w 1) = Some [CHR 0x01]"
  shows "w_fs w' = w_fs w"
proof -
  obtain w1 where x: "receiveBytes fd w 1 = (Some [CHR 0x01], w1)" using assms(2) by (cases "receiveBytes fd w 1") auto
  then obtain ok where l: "rpc_loop fuel pb M (sv_rpcServer s) fd True w1 = Some (ok, w')"
    using assms(1) by (auto simp: handleClient_def handleRpcClient_def)
  have "guarded (\<lambda>v. w_fs v = w_fs w \<and> env_of v = env_of w) anywhere anywhere w'"
    by (rule still.rpc_loop_kept [OF l still.receive_kept(1) [OF x]]) (simp add: guarded_anywhere)
  then show ?thesis by (simp add: guarded_anywhere)
qed

lemma session_tasks_wire:
  assumes "w_script w = []" "w_in w fd = wire its" "int (length its) < 2 ^ 31" "int maxvec < 2 ^ 63"
    and "list_all (\<lambda>it. sendable maxvec (fst it)) its"
  shows "session_tasks maxvec fd w = map fst its"
  by (rule wire_read [OF assms]) (simp add: session_tasks_def)

section \<open>A local synchronisation\<close>

text \<open>Whatever the scan meets, the names it finds are those of entries below the directory.\<close>

definition names_below :: "string \<Rightarrow> meta_map \<Rightarrow> bool" where
  "names_below dir m \<longleftrightarrow> distinct (map fst m) \<and> (\<forall>p \<in> fst ` set m. \<exists>rel. rel \<noteq> [] \<and> plain_names rel \<and> p = join dir rel)"

lemma entries_valid:
  assumes "fs_wf fs" "n \<in> set (entries fs k)"
  shows "valid_name n"
proof -
  from assms(2) obtain q i where q: "(q, i) \<in> set fs" "q \<noteq> []" "n = last q" by (auto simp: entries_def)
  with assms(1) fs_wf_good_slot [of fs q] show ?thesis
    by (auto simp: good_slot_def fs_wf_def dest: map_of_is_SomeI)
qed

lemma listDirectory_below:
  assumes "fs_wf (w_fs w)" "p \<in> set (listDirectory w dir)"
  obtains n where "valid_name n" "p = dir @ ''/'' @ n"
  using assms entries_valid by (auto simp: listDirectory_def sys_opendir_def split: option.splits if_splits)

lemma collectMetadata_below:
  "collectMetadata fuel M w dir = Some (m, w') \<Longrightarrow> fs_wf (w_fs w) \<Longrightarrow> names_below dir m \<and> w_fs w' = w_fs w"
proof (induction fuel arbitrary: w dir m w')
  case (Suc fuel)
  have scan: "w_fs v' = w_fs v" if "calculateMD5 M v p = (s, v')" for v p s v'
    using still.calculateMD5_kept [OF that, of "w_fs v" "env_of v" anywhere anywhere] by (simp add: guarded_anywhere)
  have entry: "names_below dir (fst mv') \<and> w_fs (snd mv') = w_fs v"
    if e: "collect_entry M (collectMetadata fuel M) p (m1, v) = Some mv'" and n: "valid_name n" "p = dir @ ''/'' @ n"
      and b: "names_below dir m1" "fs_wf (w_fs v)" for n p m1 v mv'
  proof (cases "getFileStat v p")
    case (Some st)
    obtain md5 v1 where h: "(if S_ISREG (st_mode st) then calculateMD5 M v p else ([], v)) = (md5, v1)" by fastforce
    let ?m = "AList.update p \<lparr>fm_path = p, fm_size = st_size st, fm_mtime = st_mtime st, fm_mode = st_mode st, fm_md5 = md5\<rparr> m1"
    have v1: "w_fs v1 = w_fs v" using h scan by (auto split: if_splits)
    have "p = join dir [n] \<and> plain_names [n]" using n by (simp add: plain_names_def)
    then have m: "names_below dir ?m" using b(1) unfolding names_below_def
      by (auto simp: dom_update distinct_update)
    show ?thesis
    proof (cases "S_ISDIR (st_mode st)")
      case True
      with e Some h obtain sub v2 where r: "collectMetadata fuel M v1 p = Some (sub, v2)" "mv' = (map_insert_all sub ?m, v2)"
        by (auto simp: collect_entry_def Let_def split: option.splits)
      from Suc.IH [OF r(1)] v1 b(2) have s: "names_below p sub" "w_fs v2 = w_fs v" by simp_all
      have sub: "\<forall>x \<in> fst ` set sub. \<exists>rel. rel \<noteq> [] \<and> plain_names rel \<and> x = join dir rel"
      proof
        fix x assume "x \<in> fst ` set sub"
        with s(1) obtain rel where "rel \<noteq> []" "plain_names rel" "x = join p rel" by (auto simp: names_below_def)
        with n show "\<exists>rel. rel \<noteq> [] \<and> plain_names rel \<and> x = join dir rel"
          by (intro exI [of _ "n # rel"]) (simp add: plain_names_def)
      qed
      have "distinct (map fst (map_insert_all sub ?m))"
        using m s(1) distinct_map_insert_all by (simp add: names_below_def)
      with sub m s(2) r(2) show ?thesis by (auto simp: names_below_def map_insert_all_def)
    qed (use e Some h m v1 in \<open>auto simp: collect_entry_def Let_def\<close>)
  qed (use e b in \<open>auto simp: collect_entry_def\<close>)
  have loop: "names_below dir m2 \<and> w_fs v' = w_fs w"
    if "collect_entries (collect_entry M (collectMetadata fuel M)) ps (m1, v) = Some (m2, v')"
      "set ps \<subseteq> set (listDirectory w dir)" "names_below dir m1" "w_fs v = w_fs w" for ps m1 v m2 v'
    using that
  proof (induction ps arbitrary: m1 v)
    case (Cons p ps)
    then obtain m3 v3 where e: "collect_entry M (collectMetadata fuel M) p (m1, v) = Some (m3, v3)"
      "collect_entries (collect_entry M (collectMetadata fuel M)) ps (m3, v3) = Some (m2, v')" by (auto split: option.splits)
    obtain n where n: "valid_name n" "p = dir @ ''/'' @ n" using listDirectory_below [OF Suc.prems(2)] Cons.prems(2) by auto
    from entry [OF e(1) n Cons.prems(3)] Cons.prems(4) Suc.prems(2) have "names_below dir m3" "w_fs v3 = w_fs w" by simp_all
    with Cons.IH [OF e(2)] Cons.prems(2) show ?case by simp
  qed simp
  show ?case using loop [of "listDirectory w dir" "[]" w m w'] Suc.prems(1) by (simp add: names_below_def)
qed simp

lemma join_inside: "plain_names (n # rel) \<Longrightarrow> stays_inside (join n rel)"
proof -
  assume p: "plain_names (n # rel)"
  then have n: "valid_name n" "plain_names rel" by (simp_all add: plain_names_def)
  have "split_slash (join n rel) = n # rel"
    using split_slash_join [OF n(2), of n] n(1) by (simp add: split_slash_plain valid_name_def)
  moreover have "set (join n rel) \<subseteq> insert CHR ''/'' (\<Union>c \<in> set (n # rel). set c)" by (auto simp: join_def)
  moreover have "\<forall>c \<in> set (n # rel). CHR 0x00 \<notin> set c \<and> c \<noteq> ''..''" using p by (auto simp: plain_names_def list_all_iff valid_name_def)
  ultimately show ?thesis unfolding stays_inside_def by auto
qed

lemma dir_slash_dir:
  assumes "dir_at w p k"
  shows "slash_dir w (p @ ''/'') k"
proof -
  from assms have d: "p \<noteq> []" "cstr p = p" "walk (w_fs w) (path_start w p) (split_slash p) = Some k" "is_dir (w_fs w) k" "CHR 0x00 \<notin> set p"
    by (auto simp: dir_at_def resolve_def Let_def cstr_id split: if_splits)
  moreover have "cstr (p @ ''/'') = p @ ''/''" using d(5) by (simp add: cstr_id)
  ultimately show ?thesis
    using split_slash_append [of p "[]"] by (simp add: slash_dir_def dir_at_def resolve_def Let_def path_start_def walk_append)
qed

lemma sync_tasks_allowed:
  assumes d: "dir_at w0 dest kb" and ord: "lists_entries ord"
  shows "tasks_allowed (same_outside w0 kb) (is_prefix kb) fuel M ord src dest"
  unfolding tasks_allowed_def
proof (intro allI impI)
  fix w tasks w' assume w: "same_outside w0 kb w" and "detectChanges fuel M ord w src dest = Some (tasks, w')"
  then obtain ms w1 md where s: "collectMetadata fuel M w src = Some (ms, w1)" and t: "tasks = compareMetadata ord ms md src dest"
    by (auto simp: detectChanges_def split: option.splits prod.splits)
  have ms: "names_below src ms" using collectMetadata_below [OF s] w by simp
  have "allowed (same_outside w0 kb) (is_prefix kb) (tk_destPath x)" if x: "x \<in> set tasks" for x
  proof -
    obtain p meta where p: "(p, meta) \<in> set (ord ms)" "tk_destPath x = dest @ drop (length src) p"
      using x unfolding t by (fastforce simp: make_task_def Let_def split: option.splits if_splits)
    then have "p \<in> fst ` set ms" using ord ms by (force simp: lists_entries_def names_below_def)
    then obtain n rel where r: "plain_names (n # rel)" "p = join src (n # rel)"
      using ms by (auto simp: names_below_def neq_Nil_conv)
    have "tk_destPath x = (dest @ ''/'') @ join n rel" using p(2) r(2) by (simp add: join_def)
    then show ?thesis using inside_allowed [OF dir_slash_dir [OF d] join_inside [OF r(1)]] by simp
  qed
  then show "list_all (\<lambda>t. allowed (same_outside w0 kb) (is_prefix kb) (tk_destPath t)) tasks" by (simp add: list_all_iff)
qed

lemma client_outside:
  assumes main: "main fuel M ord sched evs epollFd pb maxvec rs w out w'"
    and o: "parse_options rs default_options = Inr opts" "\<not> co_serverMode opts" "\<not> (co_resume opts \<and> \<not> co_remoteSync opts)"
    and d: "dir_at w (co_destination opts) kb" and ord: "lists_entries ord" and wf: "fs_wf (w_fs w)"
  shows "same_outside w kb w'"
  by (rule outside.main_client_kept [OF main _ o(1,2) sync_tasks_allowed [OF d ord]]) (use wf o(3) in auto)

section \<open>The names the code does not reject\<close>

lemma createDirectory_loop_noop:
  "(\<And>q r. path = q @ CHR ''/'' # r \<Longrightarrow> q \<noteq> [] \<Longrightarrow> sys_stat w q \<noteq> None) \<Longrightarrow> createDirectory_loop w path m pos = (True, w)"
proof (induction w path m pos rule: createDirectory_loop.induct)
  case (1 w path m pos)
  show ?case
  proof (cases "str_find (CHR ''/'') path pos")
    case (Some nxt)
    have "path = take nxt path @ CHR ''/'' # drop (Suc nxt) path"
      using str_find_Some(2,3) [OF Some] by (metis id_take_nth_drop)
    then have e: "\<not> (take nxt path \<noteq> [] \<and> sys_stat w (take nxt path) = None)" using "1.prems" by blast
    from "1.IH"(2) [OF Some refl e "1.prems"] Some e show ?thesis
      by (subst createDirectory_loop.simps) (auto simp: Let_def)
  qed (subst createDirectory_loop.simps, simp)
qed

lemma createDirectory_noop:
  assumes "\<And>q r. path = q @ CHR ''/'' # r \<Longrightarrow> q \<noteq> [] \<Longrightarrow> sys_stat w q \<noteq> None" "sys_stat w path \<noteq> None"
  shows "createDirectory w path m = (True, w)"
proof -
  have "createDirectory_loop w path m 0 = (True, w)" by (rule createDirectory_loop_noop [OF assms(1)])
  with assms(2) show ?thesis by (auto simp: createDirectory_def)
qed

lemma dotdot_dir:
  assumes d: "slash_dir w base kb" and k: "kb \<noteq> []" "world_wf w"
  shows "dir_at w (base @ ''..'') (butlast kb)" "createDirectory w (base @ ''..'') m = (True, w)"
proof -
  obtain b where b: "base = b @ ''/''" "CHR 0x00 \<notin> set base" "walk (w_fs w) (path_start w base) (split_slash b) = Some kb" "is_dir (w_fs w) kb"
    by (rule slash_dirE [OF d])
  have up: "is_dir (w_fs w) (butlast kb)"
  proof -
    obtain i where "map_of (w_fs w) kb = Some i" using is_dir_dom [OF b(4)] by blast
    from fs_wf_good_slot [OF _ this] k show ?thesis by (simp add: world_wf_def good_slot_def)
  qed
  have "path_start w (base @ ''..'') = path_start w base" using b(1) by (simp add: path_start_def hd_append)
  moreover have "split_slash (base @ ''..'') = split_slash b @ [''..'']"
    using split_slash_append [of b "''..''"] by (simp add: b(1))
  moreover have "cstr (base @ ''..'') = base @ ''..''" using b(2) by (intro cstr_id) simp
  ultimately show at: "dir_at w (base @ ''..'') (butlast kb)"
    using b up by (simp add: dir_at_def resolve_def Let_def walk_append)
  show "createDirectory w (base @ ''..'') m = (True, w)"
  proof (rule createDirectory_noop)
    fix q r assume q: "base @ ''..'' = q @ CHR ''/'' # r" "q \<noteq> []"
    then obtain r' where "b @ ''/'' = q @ CHR ''/'' # r'"
      by (auto simp: b(1) append_eq_append_conv2 append_eq_Cons_conv Cons_eq_append_conv)
    from base_prefix_exists [OF d [unfolded b(1)] this q(2)] show "sys_stat w q \<noteq> None" .
  next
    show "sys_stat w (base @ ''..'') \<noteq> None"
      using at by (auto simp: dir_at_def sys_stat_def dest: is_dir_dom)
  qed
qed

lemma escape_dotdot:
  assumes wf: "world_wf w" "w_script w = []" "w_in w fd = enc_off_t 0 @ d @ r"
    and base: "slash_dir w base kb" "kb \<noteq> []" and n: "valid_name n" "n \<noteq> last kb"
    and t: "\<not> ss_isDirectory t" "ss_fileSize t = int (length d)" "ss_destPath t = ''../'' @ n"
    and k: "k = butlast kb @ [n]" "\<not> is_dir (w_fs w) k"
  shows "\<exists>w' m. handle_task base fd w t = (True, w') \<and> content w' k = Some (m, d) \<and> \<not> is_prefix kb k"
proof -
  let ?v = "feed w fd (d @ r)"
  have path: "base @ ss_destPath t = (base @ ''..'') @ ''/'' @ n" using t(3) by simp
  have fl: "find_last_of (CHR ''/'') (base @ ss_destPath t) = Some (length (base @ ''..''))"
    unfolding path using n(1) by (intro find_last_of_slash) (simp add: valid_name_def)
  have ro: "receiveOffT fd w = (Some 0, ?v)" using receive_offset [OF wf(2,3)] by simp
  have rk: "resolve ?v (base @ ss_destPath t) = Some k"
    unfolding path k(1) using resolve_child [OF dotdot_dir(1) [OF base wf(1)] n(1)] by simp
  have "slash_dir ?v base kb" using base(1) by (simp add: slash_dir_def dir_at_def)
  from dotdot_dir(2) [OF this base(2)] wf(1) have c: "createDirectory ?v (base @ ''..'') 0x1ED = (True, ?v)" by simp
  from receive_and_chmod [of ?v fd d r base t k 0 "[]"] wf rk k(2) t(2) obtain w1 w' m where
    "receiveFileData base fd ?v t 0 = (True, w1)" "setFileMode w1 (base @ ss_destPath t) (ss_mode t) = (True, w')"
    "content w' k = Some (m, d)" by auto
  moreover have "\<not> is_prefix kb k"
  proof
    assume "is_prefix kb k"
    then obtain a where a: "k = kb @ a" by (auto simp: is_prefix_iff)
    moreover have "length k = length kb" using k(1) base(2) by simp
    ultimately have "butlast kb @ [n] = kb" using k(1) by simp
    with n(2) show False by (metis last_snoc)
  qed
  ultimately show ?thesis using ro fl t(1) c path by (auto simp: handle_task_def Let_def)
qed

end
