(* ===== verification/ServerLife.thy ===== *)
theory ServerLife
  imports Cli
begin

text \<open>
  The program in server mode from its start to its stop: listening, the accept thread, one session, and the end.
\<close>

section \<open>What an item needs of the world\<close>

lemma item_ok_same:
  assumes "w_fs v = w_fs w" "env_of v = env_of w"
  shows "item_ok v base = item_ok w base"
proof -
  have "path_free v p = path_free w p" for p
    using assms env_cwd [OF assms(2)] by (simp add: path_free_def path_start_def content_def)
  then show ?thesis using assms(1) keys_env [OF assms(2)] by (simp add: fun_eq_iff item_ok_def)
qed

lemma delivered_same: "w_fs v' = w_fs w' \<Longrightarrow> env_of v = env_of w \<Longrightarrow> delivered v base v' it = delivered w base w' it"
  using keys_env [of v w] by (simp add: delivered_def content_def)

section \<open>From the command line to the acknowledgement\<close>

lemma start_listens:
  assumes "w_script w = []" "w_nextfd w \<ge> 0" "\<not> sv_running s"
  shows "\<exists>srv. SyncServer_start w s port n = (True, srv, w\<lparr>w_open := w_nextfd w # w_open w, w_nextfd := w_nextfd w + 1\<rparr>)
    \<and> sv_running srv \<and> sv_tcpServer srv = \<lparr>ts_serverSock = w_nextfd w, ts_running = True\<rparr> \<and> sv_baseDirectory srv = sv_baseDirectory s"
  using assms by (simp add: SyncServer_start_def TcpServer_start_def TcpServer_new_def sys_socket_def sys_plain_def next_ev_nominal)

text \<open>One wait of the accept thread that reports the listening socket with a client waiting: the client is served.\<close>

lemma accept_serves:
  assumes v: "w_script v = []" "w_pending v = bs # others" "sv_running srv" "sv_tcpServer srv = \<lparr>ts_serverSock = sock, ts_running = True\<rparr>"
    and fd: "fd = w_nextfd v" "fd \<ge> 0"
    and h: "handleClient fuel pb M maxvec srv fd (v\<lparr>w_pending := others, w_open := fd # w_open v, w_nextfd := fd + 1, w_in := (w_in v)(fd := bs)\<rparr>)
      = Some (r, srv', w')"
  shows "accept_thread fuel pb M maxvec 0 [Events [(sock, True)]] (srv, v) = Some (srv', w')"
  using assms
  by (simp add: accept_thread_def accept_setup_def sys_plain_def next_ev_nominal TcpServer_getServerSocket_def TcpServer_accept_def sys_accept_def)

lemma stop_frame:
  assumes "SyncServer_stop w s = (s', w')"
  shows "w_fs w' = w_fs w" "w_out w' = w_out w"
  using assms by (auto simp: SyncServer_stop_def TcpServer_stop_def sys_close_def split: if_splits prod.splits)

lemma main_server_delivers:
  assumes opts: "parse_options rs default_options = Inr opts" "co_serverMode opts"
    and w: "world_wf w" "w_script w = []" "w_nextfd w \<ge> 0" "w_pending w = wire its # others"
    and n: "int (length its) < 2 ^ 31" "int maxvec < 2 ^ 63" "list_all (\<lambda>it. sendable maxvec (fst it)) its"
    and base: "base = sv_baseDirectory (configured_server opts)" and ok: "list_all (item_ok w base) its" "compatible w base its"
  shows "\<exists>w'. main fuel M ord sched evs epollFd pb maxvec rs w (Returns 0 [] []) w'
    \<and> list_all (delivered w base w') its \<and> w_out w' (w_nextfd w + 1) = w_out w (w_nextfd w + 1) @ ''ACK''
    \<and> (\<forall>p. p \<notin> (\<Union>it\<in>set its. file_keys w base it) \<and> p \<notin> (\<Union>it\<in>set its. path_prefixes w (dir_path base (fst it)))
         \<longrightarrow> content w' p = content w p)"
proof -
  let ?v = "w\<lparr>w_open := w_nextfd w # w_open w, w_nextfd := w_nextfd w + 1\<rparr>"
  let ?fd = "w_nextfd w + 1"
  let ?u = "?v\<lparr>w_pending := others, w_open := ?fd # w_open ?v, w_nextfd := ?fd + 1, w_in := (w_in ?v)(?fd := wire its)\<rparr>"
  have "\<not> sv_running (configured_server opts)"
    by (simp add: configured_server_def SyncServer_setBaseDirectory_def SyncServer_new_def)
  from start_listens [OF w(2,3) this] obtain srv where srv: "SyncServer_start w (configured_server opts) (co_port opts) (co_threads opts) = (True, srv, ?v)"
    "sv_running srv" "sv_tcpServer srv = \<lparr>ts_serverSock = w_nextfd w, ts_running = True\<rparr>" "sv_baseDirectory srv = base"
    unfolding base by blast
  have e: "env_of ?u = env_of w" "w_fs ?u = w_fs w" by (simp_all add: env_of_def)
  have fk: "file_keys ?u base it = file_keys w base it" "path_prefixes ?u p = path_prefixes w p" for it p
    using keys_env [OF e(1)] path_prefixes_env [OF e(1)] by (simp_all add: file_keys_def)
  have wf: "world_wf ?u" "w_script ?u = []" "w_in ?u ?fd = wire its" "?fd \<ge> 0" using w by (simp_all add: world_wf_def)
  have oks: "list_all (item_ok ?u base) its" "compatible ?u base its"
    using ok item_ok_same [OF e(2,1)] compatible_env [OF e(1)] by simp_all
  from handleClient_delivers [OF wf n srv(4) [symmetric] oks, of fuel pb M]
  obtain w1 where w1: "handleClient fuel pb M maxvec srv ?fd ?u = Some (Got True, srv\<lparr>sv_processedTasks := sv_processedTasks srv + length its\<rparr>, w1)"
    "list_all (delivered ?u base w1) its" "w_out w1 = (w_out ?u)(?fd := w_out ?u ?fd @ ''ACK'')"
    "\<And>p. p \<notin> (\<Union>it\<in>set its. file_keys w base it) \<Longrightarrow> p \<notin> (\<Union>it\<in>set its. path_prefixes w (dir_path base (fst it)))
       \<Longrightarrow> content w1 p = content ?u p"
    unfolding fk by blast
  have a: "accept_thread fuel pb M maxvec 0 [Events [(w_nextfd w, True)]] (srv, ?v) =
      Some (srv\<lparr>sv_processedTasks := sv_processedTasks srv + length its\<rparr>, w1)"
    using accept_serves [OF _ _ srv(2,3) _ _ w1(1)] w by simp
  obtain srv2 w2 where st: "SyncServer_stop (sleep_ms (1000 * 0) w1) (srv\<lparr>sv_processedTasks := sv_processedTasks srv + length its\<rparr>) = (srv2, w2)"
    by fastforce
  have w2: "w_fs w2 = w_fs w1" "w_out w2 = w_out w1" using stop_frame [OF st] by (simp_all add: sleep_ms_def)
  have "main fuel M ord sched evs epollFd pb maxvec rs w (Returns 0 [] []) w2"
    by (rule server_ends [OF opts srv(1) a st])
  moreover have "list_all (delivered w base w2) its"
    using w1(2) delivered_same [OF w2(1) e(1) [symmetric]] by (simp add: list_all_iff)
  moreover have "w_out w2 ?fd = w_out w ?fd @ ''ACK''" using w2(2) w1(3) by simp
  moreover have "content w2 p = content w p"
    if "p \<notin> (\<Union>it\<in>set its. file_keys w base it)" "p \<notin> (\<Union>it\<in>set its. path_prefixes w (dir_path base (fst it)))" for p
    using w1(4) [OF that] w2(1) by (simp add: content_def)
  ultimately show ?thesis by blast
qed

end
