(* ===== verification/IoInvariant.thy ===== *)
theory IoInvariant
  imports RemoteSync
begin

text \<open>
  The registrations of the I/O handler: what it watches, its callbacks and its buffers always agree, as long as the callbacks
  use the handler's own operations.
\<close>

section \<open>The invariant\<close>

definition consistent :: "'cb AsyncIOHandler \<Rightarrow> bool" where
  "consistent h \<longleftrightarrow> (\<forall>fd.
     (ah_interest h fd = Some EPOLLIN \<longleftrightarrow> ah_readCallbacks h fd \<noteq> None) \<and>
     (ah_interest h fd = Some EPOLLOUT \<longleftrightarrow> ah_writeCallbacks h fd \<noteq> None) \<and>
     (ah_writeCallbacks h fd \<noteq> None \<longleftrightarrow> ah_writeBuffers h fd \<noteq> None))"

lemma consistent_new: "consistent (AsyncIOHandler_new epollFd)"
  by (simp add: consistent_def AsyncIOHandler_new_def)

lemma consistent_start [intro]: "consistent h \<Longrightarrow> consistent (AsyncIOHandler_start h)"
  by (simp add: consistent_def AsyncIOHandler_start_def)

lemma consistent_stop [intro]: "consistent h \<Longrightarrow> consistent (AsyncIOHandler_stop h)"
  by (simp add: consistent_def AsyncIOHandler_stop_def)

lemma consistent_remove [intro]: "consistent h \<Longrightarrow> consistent (AsyncIOHandler_remove h fd)"
  by (simp add: consistent_def AsyncIOHandler_remove_def)

lemma consistent_registerRead: "registerRead w h fd cb = (h', w') \<Longrightarrow> consistent h \<Longrightarrow> consistent h'"
  by (auto simp: consistent_def registerRead_def epoll_add_def Let_def split: prod.splits if_splits) (metis option.distinct(1))+

lemma consistent_registerWrite: "registerWrite w h fd bs cb = (h', w') \<Longrightarrow> consistent h \<Longrightarrow> consistent h'"
  by (auto simp: consistent_def registerWrite_def epoll_add_def Let_def split: prod.splits if_splits) (metis option.distinct(1))+

section \<open>The I/O thread\<close>

text \<open>The contract of the callbacks.\<close>

locale io_callbacks =
  fixes onRead :: "'cb \<Rightarrow> int \<Rightarrow> byte list \<Rightarrow> 's \<times> 'cb AsyncIOHandler \<times> world \<Rightarrow> 's \<times> 'cb AsyncIOHandler \<times> world"
    and onWrite :: "'cb \<Rightarrow> int \<Rightarrow> 's \<times> 'cb AsyncIOHandler \<times> world \<Rightarrow> 's \<times> 'cb AsyncIOHandler \<times> world"
  assumes read_ok: "onRead cb fd bs (s, h, w) = (s', h', w') \<Longrightarrow> consistent h \<Longrightarrow> consistent h' \<and> ah_running h' = ah_running h"
    and write_ok: "onWrite cb fd (s, h, w) = (s', h', w') \<Longrightarrow> consistent h \<Longrightarrow> consistent h' \<and> ah_running h' = ah_running h"
begin

abbreviation good :: "bool \<Rightarrow> 's \<times> 'cb AsyncIOHandler \<times> world \<Rightarrow> bool" where
  "good r st \<equiv> consistent (fst (snd st)) \<and> ah_running (fst (snd st)) = r"

lemma running_remove [simp]: "ah_running (AsyncIOHandler_remove h fd) = ah_running h"
  by (simp add: AsyncIOHandler_remove_def)

lemma drain_good: "drain fuel onRead fd st = Some st' \<Longrightarrow> good r st \<Longrightarrow> good r st'"
proof (induction fuel arbitrary: st)
  case (Suc fuel)
  obtain s h w where st: "st = (s, h, w)" by (metis prod_cases3)
  obtain x w1 where x: "sys_recv w fd 4096 = (x, w1)" by fastforce
  have read: "good r (onRead cb fd bs (s, h, w1))" for cb bs
    using read_ok [of cb fd bs s h w1] Suc.prems(2) st by (cases "onRead cb fd bs (s, h, w1)") auto
  show ?case
    using Suc.prems st x read Suc.IH by (auto split: rres.splits if_splits option.splits)
qed simp

lemma flush_good: "good r st \<Longrightarrow> good r (flush onWrite fd st)"
proof -
  assume g: "good r st"
  obtain s h w where st: "st = (s, h, w)" by (metis prod_cases3)
  have written: "consistent (AsyncIOHandler_remove h1 fd) \<and> ah_running h1 = r" if "onWrite cb fd (s, h, w1) = (s1, h1, w2)" for cb w1 s1 h1 w2
    using write_ok [OF that] g st by auto
  have part: "consistent (h\<lparr>ah_writeBuffers := (ah_writeBuffers h)(fd \<mapsto> bs)\<rparr>)" if "ah_writeCallbacks h fd \<noteq> None" for bs
    using g st that by (auto simp: consistent_def)
  show ?thesis
    using g st written part by (auto simp: flush_def Let_def split: option.splits prod.splits wres.splits)
qed

lemma event_good: "io_event_step fuel onRead onWrite e st = Some st' \<Longrightarrow> good r st \<Longrightarrow> good r st'"
proof -
  assume e: "io_event_step fuel onRead onWrite e st = Some st'" and g: "good r st"
  obtain st1 where d: "(if ie_in e then drain fuel onRead (ie_fd e) st else Some st) = Some st1"
    using e by (auto simp: io_event_step_def split: option.splits)
  then have "good r st1" using drain_good [of fuel "ie_fd e" st st1 r] g by (auto split: if_splits)
  with e d flush_good [of st1 r] show ?thesis by (auto simp: io_event_step_def split: if_splits)
qed

lemma events_good: "io_events fuel onRead onWrite es st = Some st' \<Longrightarrow> good r st \<Longrightarrow> good r st'"
proof (induction es arbitrary: st)
  case (Cons e es)
  then obtain st1 where "io_event_step fuel onRead onWrite e st = Some st1" "io_events fuel onRead onWrite es st1 = Some st'"
    by (auto split: option.splits)
  with Cons event_good show ?case by blast
qed simp

lemma ioThread_good: "ioThread fuel onRead onWrite xs st = Some st' \<Longrightarrow> good r st \<Longrightarrow> good r st'"
proof (induction xs arbitrary: st)
  case (Cons x xs)
  obtain s h w where st: "st = (s, h, w)" by (metis prod_cases3)
  show ?case
  proof (cases "ah_running h \<and> (\<exists>es. x = IoReady es)")
    case True
    then obtain es st1 where "io_events fuel onRead onWrite es st = Some st1" "ioThread fuel onRead onWrite xs st1 = Some st'"
      using Cons.prems(1) st by (auto split: option.splits)
    with Cons events_good show ?thesis by blast
  next
    case False
    with Cons st show ?thesis by (cases x) (auto split: if_splits)
  qed
qed simp

text \<open>A running handler works through single events one wait at a time.\<close>

lemma ioThread_events:
  "ah_running (fst (snd st)) \<Longrightarrow> consistent (fst (snd st)) \<Longrightarrow>
     ioThread fuel onRead onWrite (map (\<lambda>e. IoReady [e]) es) st = io_events fuel onRead onWrite es st"
proof (induction es arbitrary: st)
  case (Cons e es)
  obtain s h w where st: "st = (s, h, w)" by (metis prod_cases3)
  show ?case
  proof (cases "io_event_step fuel onRead onWrite e st")
    case (Some st1)
    from event_good [OF this, of True] Cons.prems have "ah_running (fst (snd st1))" "consistent (fst (snd st1))" by simp_all
    from Cons.IH [OF this] Some Cons.prems st show ?thesis by simp
  qed (use Cons.prems st in simp)
qed simp

end

section \<open>The client's callbacks\<close>

interpretation sending: io_callbacks "\<lambda>cb fd bs st. st" on_written
proof
  show "consistent h' \<and> ah_running h' = ah_running h"
    if "on_written cb fd (s, h, w) = (s', h', w')" "consistent h" for cb fd s h w s' h' w'
  proof -
    have reg: "consistent h2 \<and> ah_running h2 = ah_running h" if "registerWrite v h fd bs SecondWritten = (h2, v')" for v bs h2 v'
      using consistent_registerWrite [OF that] \<open>consistent h\<close> that
      by (auto simp: registerWrite_def Let_def split: prod.splits if_splits)
    show ?thesis
      using that reg by (auto simp: on_written_def Let_def split: send_callback.splits prod.splits if_splits)
  qed
qed auto

text \<open>Waiting for a transfer is waiting for the I/O thread.\<close>

lemma await_is_thread:
  "await_transfer fuel evs (s, h, w) = Some st' \<Longrightarrow>
     \<exists>n. io_events fuel (\<lambda>cb fd bs st. st) on_written (take n evs) (s, h, w) = Some st'"
proof (induction evs arbitrary: s h w)
  case Nil
  then show ?case by (intro exI [of _ 0]) (auto split: if_splits)
next
  case (Cons e evs)
  show ?case
  proof (cases "se_transferDone s")
    case True
    with Cons.prems show ?thesis by (intro exI [of _ 0]) simp
  next
    case False
    then obtain s1 h1 w1 where e: "io_event_step fuel (\<lambda>cb fd bs st. st) on_written e (s, h, w) = Some (s1, h1, w1)"
      "await_transfer fuel evs (s1, h1, w1) = Some st'" using Cons.prems by (auto split: option.splits)
    from Cons.IH [OF e(2)] obtain n where "io_events fuel (\<lambda>cb fd bs st. st) on_written (take n evs) (s1, h1, w1) = Some st'" by blast
    with e(1) show ?thesis by (intro exI [of _ "Suc n"]) simp
  qed
qed

lemma sendFile_consistent:
  assumes "sendFileViaAsyncIO fuel evs (Some h) w src fd = Some (ok, handler', w')" "consistent h"
  shows "\<exists>h'. handler' = Some h' \<and> consistent h' \<and> ah_running h' = ah_running h"
proof -
  have sent: "consistent h2 \<and> ah_running h2 = ah_running h"
    if a0: "await_transfer fuel evs (s, registerWrite v h fd bs FirstWritten) = Some (s2, h2, v2)" for v bs s s2 h2 v2
  proof -
    obtain h1 v1 where r: "registerWrite v h fd bs FirstWritten = (h1, v1)" by fastforce
    note a = a0 [unfolded r]
    have "consistent h1 \<and> ah_running h1 = ah_running h"
      using consistent_registerWrite [OF r assms(2)] r by (auto simp: registerWrite_def Let_def split: prod.splits if_splits)
    moreover obtain n where "io_events fuel (\<lambda>cb fd bs st. st) on_written (take n evs) (s, h1, v1) = Some (s2, h2, v2)"
      using await_is_thread [OF a] by blast
    from sending.events_good [OF this, of "ah_running h1"] have "consistent h1 \<Longrightarrow> consistent h2 \<and> ah_running h2 = ah_running h1" by simp
    ultimately show ?thesis by simp
  qed
  show ?thesis
    using assms sent
    by (auto simp: sendFileViaAsyncIO_def Let_def simp del: await_transfer.simps split: option.splits if_splits prod.splits)
qed

lemma send_content_consistent:
  assumes "send_content fs fuel evs resume t (Some h) cw = Some (ok, handler', cw')" "consistent h"
  shows "\<exists>h'. handler' = Some h' \<and> consistent h' \<and> ah_running h' = ah_running h"
  using assms sendFile_consistent [OF _ assms(2)]
  by (auto simp: send_content_def Let_def split: option.splits if_splits prod.splits bool.splits)

lemma send_contents_consistent:
  "send_contents fs fuel evs resume ts (Some h) cw = Some (ok, handler', cw') \<Longrightarrow> consistent h \<Longrightarrow>
     \<exists>h'. handler' = Some h' \<and> consistent h' \<and> ah_running h' = ah_running h"
proof (induction ts arbitrary: h cw)
  case (Cons t ts)
  obtain b handler1 cw1 where c: "send_content fs fuel evs resume t (Some h) cw = Some (b, handler1, cw1)"
    using Cons.prems(1) by (auto split: option.splits)
  from send_content_consistent [OF c Cons.prems(2)] obtain h1 where h1: "handler1 = Some h1" "consistent h1" "ah_running h1 = ah_running h"
    by blast
  show ?case
  proof (cases b)
    case True
    with Cons.prems(1) c h1(1) have "send_contents fs fuel evs resume ts (Some h1) cw1 = Some (ok, handler', cw')" by simp
    from Cons.IH [OF this h1(2)] h1(3) show ?thesis by simp
  qed (use Cons.prems(1) c h1 in auto)
qed auto

lemma syncRemote_consistent:
  assumes "syncRemote fuel M ord fs evs (Some h) w src dest host port resume = Some (ok, handler', w')" "consistent h"
  shows "\<exists>h'. handler' = Some h' \<and> consistent h' \<and> ah_running h' = ah_running h"
  using assms send_contents_consistent [OF _ assms(2)]
  by (auto simp: syncRemote_def Let_def split: option.splits if_splits prod.splits bool.splits)

end
