(* ===== verification/InvariantProperties.thy ===== *)
theory InvariantProperties
  imports NetProperties ToolProperties Conformance Confinement ServerLife IoInvariant
begin

text \<open>
  The properties of the whole program: what no run changes and where a session may write, whatever the kernel, the command line
  and the peers do; the registrations of the I/O handler; and the program in server mode from its start to its stop.
\<close>

section \<open>Every run of the program\<close>



section \<open>Where the client may write\<close>

text \<open>C4: Whatever fails or is cut short, and in whatever order the workers take the tasks, a synchronisation from the command line changes nothing on the client's side
  outside the destination directory, if that exists: neither the source nor anything else, also under the strategy
  \<^verbatim>\<open>rename\<close>, after an aborted parallel copy and with the progress files of a remote synchronisation.  (With
  \<^verbatim>\<open>--resume\<close> alone the destination is a file.)\<close>

theorem client_confined:
  assumes "main fuel M ord sched evs epollFd pb maxvec rs w out w'"
    and "parse_options rs default_options = Inr opts" "\<not> co_serverMode opts" "\<not> (co_resume opts \<and> \<not> co_remoteSync opts)"
    and "dir_at w (co_destination opts) kd" "lists_entries ord" "fs_wf (w_fs w)"
  shows "\<forall>p. \<not> is_prefix kd p \<longrightarrow> content w' p = content w p"
  using client_outside [OF assms] by blast

theorem client_confined_witness:
  "\<exists>w'. main 4 (md5_of (\<lambda>x. x)) rev [] [] 3 no_messages 1000 sample_command sample_tool_world (Returns 0 [] []) w'
     \<and> content w' [''s'', ''a''] = content sample_tool_world [''s'', ''a'']"
proof -
  obtain w' where w': "main 4 (md5_of (\<lambda>x. x)) rev [] [] 3 no_messages 1000 sample_command sample_tool_world (Returns 0 [] []) w'"
    using sample_main by blast
  have "fs_wf (w_fs sample_tool_world)" "dir_at sample_tool_world ''/t'' [''t'']" by code_simp+
  with client_confined [OF w' sample_parse _ _ _ sample_order, of "[''t'']"] w' show ?thesis by (auto simp: is_prefix_def)
qed

section \<open>Where a session may write\<close>

text \<open>C12: A session of the server changes nothing outside its base directory, under any faults and any broken stream, as long as no task it reads has a component \<^verbatim>\<open>..\<close> in its path; and a session in RPC mode changes no file at all.\<close>

theorem session_confined:
  assumes "handleClient fuel pb M maxvec srv fd w = Some (res, srv', w')"
    and "slash_dir w (sv_baseDirectory srv) base" "fs_wf (w_fs w)"
    and "list_all (\<lambda>t. stays_inside (ss_destPath t)) (session_tasks maxvec fd w)"
  shows "(\<forall>p. \<not> is_prefix base p \<longrightarrow> content w' p = content w p)
    \<and> (fst (receiveBytes fd w 1) = Some [CHR 0x01] \<longrightarrow> w_fs w' = w_fs w)"
  using session_outside [OF assms] rpc_session_reads [OF assms(1)] by blast

definition inner_srv :: SyncServer where
  "inner_srv = SyncServer_setBaseDirectory SyncServer_new ''/s''"

definition inner_its :: "item list" where
  "inner_its = [(\<lparr>ss_destPath = ''d/z'', ss_srcPath = ''/z'', ss_isDirectory = False, ss_mode = 0x81A4, ss_fileSize = 2\<rparr>, ''yo'')]"

lemma inner_base: "sv_baseDirectory inner_srv = ''/s/''"
  by (simp add: inner_srv_def SyncServer_setBaseDirectory_def SyncServer_new_def with_slash_def)

lemma inner_ok: "list_all (item_ok sample_server ''/s/'') inner_its" "compatible sample_server ''/s/'' inner_its"
  "slash_dir sample_server ''/s/'' [''s'']" "list_all (\<lambda>it. stays_inside (ss_destPath (fst it))) inner_its"
  by code_simp+

theorem session_confined_witness:
  "\<exists>w'. handleClient 1 sample_pb (md5_of (\<lambda>x. x)) 1000 inner_srv 5 (feed sample_server 5 (wire inner_its)) =
      Some (Got True, inner_srv\<lparr>sv_processedTasks := 1\<rparr>, w') \<and> content w' [''t''] = content sample_server [''t'']"
proof -
  have s: "list_all (\<lambda>it. sendable 1000 (fst it)) inner_its" "length inner_its = 1" "sv_processedTasks inner_srv = 0"
    by (simp_all add: inner_its_def sendable_def path_sendable_def inner_srv_def SyncServer_setBaseDirectory_def SyncServer_new_def)
  let ?w = "feed sample_server 5 (wire inner_its)"
  obtain w' where w': "handleClient 1 sample_pb (md5_of (\<lambda>x. x)) 1000 inner_srv 5 ?w =
      Some (Got True, inner_srv\<lparr>sv_processedTasks := 1\<rparr>, w')"
    using handleClient_delivers [of ?w 5 inner_its 1000 "''/s/''" inner_srv 1 sample_pb "md5_of (\<lambda>x. x)"] inner_ok(1,2) inner_base s by auto
  have "session_tasks 1000 5 ?w = map fst inner_its"
    using session_tasks_wire [of ?w 5 inner_its 1000] s(1,2) by simp
  moreover have "fs_wf (w_fs sample_server)" using sample_wf by (simp add: world_wf_def)
  ultimately show ?thesis using session_confined [OF w', of "[''s'']"] w' inner_ok(3,4) inner_base
    by (auto simp: slash_dir_def dir_at_def list.pred_map is_prefix_def comp_def)
qed

text \<open>C26: The server does not reject the other paths: a file task for \<^verbatim>\<open>../n\<close>, received without a fault, is stored beside the base
  directory, outside it.\<close>

theorem dotdot_escapes:
  assumes "world_wf w" "w_script w = []" "w_in w fd = enc_off_t 0 @ d @ r"
    and "slash_dir w baseDirectory base" "base \<noteq> []" "valid_name n" "n \<noteq> last base"
    and "\<not> ss_isDirectory t" "ss_fileSize t = int (length d)" "ss_destPath t = ''../'' @ n"
    and "k = butlast base @ [n]" "\<not> is_dir (w_fs w) k"
  shows "\<exists>w' m. handle_task baseDirectory fd w t = (True, w') \<and> content w' k = Some (m, d) \<and> \<not> is_prefix base k"
  by (rule escape_dotdot [OF assms])

theorem dotdot_escapes_witness:
  "\<exists>w' m. handle_task ''/s/'' 5 (feed sample_server 5 (enc_off_t 0 @ ''hi''))
      \<lparr>ss_destPath = ''../t'', ss_srcPath = [], ss_isDirectory = False, ss_mode = 0x81A4, ss_fileSize = 2\<rparr> = (True, w')
     \<and> content w' [''t''] = Some (m, ''hi'')"
proof -
  have "\<not> is_dir (w_fs sample_server) [''t'']" by code_simp
  with dotdot_escapes [of "feed sample_server 5 (enc_off_t 0 @ ''hi'')" 5 "''hi''" "[]" "''/s/''" "[''s'']" "''t''"
      "\<lparr>ss_destPath = ''../t'', ss_srcPath = [], ss_isDirectory = False, ss_mode = 0x81A4, ss_fileSize = 2\<rparr>" "[''t'']"] inner_ok(3)
  show ?thesis by (auto simp: slash_dir_def dir_at_def valid_name_def)
qed

section \<open>The registrations of the I/O handler\<close>



section \<open>The program in server mode\<close>


definition server_command :: "getopt_result list" where
  "server_command = [Server, ServerDir ''/s'']"

definition waiting_world :: world where
  "waiting_world = sample_server\<lparr>w_pending := [wire inner_its]\<rparr>"

lemma waiting_ok: "world_wf waiting_world" "w_script waiting_world = []" "w_nextfd waiting_world = 3"
  "w_pending waiting_world = [wire inner_its]" "list_all (item_ok waiting_world ''/s/'') inner_its"
  "compatible waiting_world ''/s/'' inner_its"
proof -
  have e: "w_fs waiting_world = w_fs sample_server" "env_of waiting_world = env_of sample_server"
    by (simp_all add: waiting_world_def env_of_def)
  show "list_all (item_ok waiting_world ''/s/'') inner_its" "compatible waiting_world ''/s/'' inner_its"
    using inner_ok(1,2) item_ok_same [OF e] compatible_env [OF e(2)] by simp_all
  show "world_wf waiting_world" "w_script waiting_world = []" "w_nextfd waiting_world = 3" "w_pending waiting_world = [wire inner_its]"
    using sample_wf by (simp_all add: waiting_world_def world_wf_def) (simp add: sample_server_def sample_world_def)
qed


end
