(* ===== verification/Spec2Isabelle.thy ===== *)
theory Spec2Isabelle
  imports LocalProperties NetProperties ToolProperties InvariantProperties
begin

text \<open>
  A verification development for sync-tool, a file synchroniser for Linux written in C++: local
  directory synchronisation, synchronisation to a server over TCP, a small RPC service, a thread pool,
  an epoll-based I/O handler and a command line.

  \<^bold>\<open>The program.\<close>  \<^verbatim>\<open>main\<close> (\<^verbatim>\<open>src/cli/main.cpp\<close>) parses its options and either starts a
  \<^verbatim>\<open>SyncServer\<close> or drives a \<^verbatim>\<open>SyncManager\<close>.  The manager owns a \<^verbatim>\<open>ThreadPool\<close>, an
  \<^verbatim>\<open>AsyncIOHandler\<close> and a \<^verbatim>\<open>FileSync\<close>.  \<^verbatim>\<open>FileSync\<close> scans two trees, compares the metadata
  and produces tasks; a local synchronisation executes them (one after the other in
  \<^verbatim>\<open>FileSync::syncLocal\<close>, on the pool in \<^verbatim>\<open>SyncManager::syncLocal\<close>), a remote one sends them
  through a \<^verbatim>\<open>TcpClient\<close>.  The server accepts connections with a \<^verbatim>\<open>TcpServer\<close>, handles every client
  in a task of its own pool, and hands RPC clients to an \<^verbatim>\<open>RpcServer\<close>.

  \<^bold>\<open>The machine.\<close>  Theory Prelude has the C++ types (the native byte images of \<^verbatim>\<open>int\<close>, \<^verbatim>\<open>size_t\<close>,
  \<^verbatim>\<open>off_t\<close> and \<^verbatim>\<open>mode_t\<close> on little-endian LP64, conversions between widths, \<^verbatim>\<open>std::string\<close>
  searches); strings and bytes are lists of characters.  Theory Posix has the part of Linux and of the stream library that the
  sources call, as functions on a record \<open>world\<close>: a tree of inodes, path resolution with \<^verbatim>\<open>.\<close>, \<^verbatim>\<open>..\<close> and
  permissions of single files, \<^verbatim>\<open>stat\<close>, \<^verbatim>\<open>mkdir\<close>, \<^verbatim>\<open>open\<close>, \<^verbatim>\<open>pread\<close>, \<^verbatim>\<open>pwrite\<close>, \<^verbatim>\<open>rename\<close>,
  \<^verbatim>\<open>remove\<close>, \<^verbatim>\<open>statvfs\<close>, sockets with their two byte streams, and the fstream operations.  What a call may do
  beside succeeding (fail, be interrupted, move fewer bytes) is read from \<open>w_script\<close>: a theorem about an
  arbitrary world covers every such behaviour, and an empty script is a kernel without faults.  FileTree
  has the well-formedness invariant of the tree and the frame of every call.

  \<^bold>\<open>The components,\<close> one theory each, in the order the code uses them:
    \<^item> LinuxFileUtil: \<^verbatim>\<open>src/utils/LinuxFileUtil.cpp\<close>; OpenSSL's MD5 is the parameter \<open>md5_api\<close>, and its
      contract the locale \<open>md5_stream\<close>, interpreted on a context that collects what it is given.
    \<^item> Progress: the \<^verbatim>\<open>.sync_progress\<close> files of \<^verbatim>\<open>src/core/FileSync.cpp\<close> with the stream extractors.
    \<^item> FileTransfer, ParallelCopy: \<^verbatim>\<open>transferFile\<close>, \<^verbatim>\<open>resumeSync\<close>, conflicts, disk space; and
      \<^verbatim>\<open>transferLargeFileAsync\<close>, whose chunk threads are interleaved system call by system call by an explicit
      schedule (a list of thread numbers; when it is used up the threads run to their ends, so every schedule finishes).
    \<^item> LocalSync, Mirror, Backup: \<^verbatim>\<open>collectMetadata\<close>, \<^verbatim>\<open>compareMetadata\<close>, \<^verbatim>\<open>detectChanges\<close>,
      \<^verbatim>\<open>syncFile\<close>, \<^verbatim>\<open>syncLocal\<close>, and what they achieve, also under the conflict strategy that renames.
    \<^item> TcpNet: \<^verbatim>\<open>src/network\<close>, with the locales \<open>exact_writer\<close> and \<open>exact_reader\<close> for the send and receive loops
      that the RPC classes and the servers share; each is interpreted on the loops of the classes.
    \<^item> Rpc, RpcListing: \<^verbatim>\<open>src/rpc\<close>; the messages of \<^verbatim>\<open>sync_service.proto\<close> are records, the generated code the
      parameter \<open>protobuf\<close>; and what a listing answers.
    \<^item> SyncServer, Delivery, ServerSession: \<^verbatim>\<open>src/server/SyncServer.cpp\<close>; its reads and decoders, what a
      session does to the file system, and whole sessions.
    \<^item> AsyncIO, RemoteSync, IoInvariant, ClientSession: \<^verbatim>\<open>src/thread/AsyncIOHandler.cpp\<close> with its thread, the
      client's half of the protocol in \<^verbatim>\<open>FileSync.cpp\<close>, the agreement of the handler's registrations (the locale
      \<open>io_callbacks\<close> is the contract of the callbacks, interpreted on the client's), and what a client session puts on the wire.
    \<^item> ThreadPool: \<^verbatim>\<open>src/thread/ThreadPool.cpp\<close> as a step relation over the points of \<^verbatim>\<open>workerThread\<close>.
    \<^item> SyncManager, Cli, ServerLife, LogUtil: \<^verbatim>\<open>src/core/SyncManager.cpp\<close>, \<^verbatim>\<open>src/cli/main.cpp\<close> with the accept thread
      of \<^verbatim>\<open>SyncServer::start\<close>, the server from its start to its stop, and the logger and exception handlers of \<^verbatim>\<open>src/utils\<close>.
    \<^item> Guard, QuietOps, Conformance: invariants of the whole program.  The locale \<open>quiet_guard\<close> is about the operations
      that leave the tree alone, its extension \<open>world_guard\<close> is the contract of the system calls that change it: an
      invariant that they keep at allowed places is kept by every operation that is given allowed destinations, up to
      \<^verbatim>\<open>main\<close>.  It is interpreted for the environment of the process, for the well-formedness of the tree, and for what lies
      outside a directory; Confinement shows which names stay inside one.

  \<^bold>\<open>The properties\<close> are in this theory and in LocalProperties, NetProperties, ToolProperties and InvariantProperties,
  instantiated on the worlds of Samples.  Local: a synchronisation mirrors the source tree; copies are exact, touch
  nothing but the destination and its progress file, and can be resumed; change detection finds exactly the entries that
  differ; hashing block by block is hashing the file; progress files can be read back.  Network: sends and receives
  are exact under any faults; the metadata of the tasks makes the round trip; a session of the client fed to the server delivers every file and
  succeeds at both ends; sockets are closed; RPC calls return what the server computes.  Tool: the pool's invariant, order
  and completion, the ways its \<^verbatim>\<open>stop\<close> can hang or leave tasks behind, and the command line down to its exit code.
  The whole program: server mode from the command line to the acknowledgement; the I/O handler's registrations; what no run changes, and that neither a client nor, short of \<^verbatim>\<open>..\<close> in a path, a server writes outside its directory.
  Several properties are about what goes wrong: calls that never return, offsets that are refused, limits without effect.

  \<^bold>\<open>Fuel and bounds.\<close>  Loops of the sources are total functions with a measure wherever they end (the script
  and the bytes left bound them).  The recursion over directories takes the depth as fuel; \<^verbatim>\<open>None\<close> means too little,
  and the properties show that more than the depth of the tree is enough (\<open>mirror_ready\<close> asks for it).
  \<^verbatim>\<open>sendFileSync\<close> need not end and is a partial function.  The \<^verbatim>\<open>int\<close> task count is below \<open>2 ^ 31\<close>, the pool's counter is a
  64-bit word, files are shorter than \<open>2 ^ 52\<close> bytes, and the largest vector is a parameter of the server.

  \<^bold>\<open>Parameters.\<close>  The MD5 implementation, the protobuf codec, the iteration order of the unordered maps (any function that
  keeps the entries), the schedule of threads, what every wait on epoll reports, the results of \<^verbatim>\<open>getopt_long\<close>, the peers that answer a
  connection, and the time stamps of the logger.

  \<^bold>\<open>Not modelled.\<close>  The generated protobuf code, the tests and the build files.  The lines that components write to the
  log (the logger is a theory of its own).  In a synchronisation on the pool a task acts on the file system in one step, when the worker
  finishes it, so races inside the file operations of two tasks are left out; so are wake-ups of a condition variable without notification.
  The sessions of the server are handled one at a time; its use of the pool's \<^verbatim>\<open>stop\<close> and of an I/O handler that nothing registers with are left out, and
  so is the descriptor that the accept thread closes at its end.  Registering with the I/O handler is one step.  The
  percentage of \<^verbatim>\<open>getSyncProgress\<close> is an exact quotient, not a \<^verbatim>\<open>double\<close>.  Symbolic links, hard links, users and quotas do not exist in the
  file tree.
\<close>

section \<open>Local synchronisation\<close>

text \<open>C1: A local synchronisation with the default strategy succeeds, whatever the hash order of the maps
  and the interleaving of the copying threads: every entry of the source tree has a counterpart of
  the same kind below the destination, for a regular file with the same size and MD5; the source
  tree is unchanged, and outside the destination nothing changes but missing parent directories.\<close>

theorem syncLocal_mirrors:
  assumes "md5_stream M" "lists_entries ord" "fsy_conflictStrategy fs = ''overwrite''"
    and "mirror_ready w srcDir ks destDir fuel"
  shows "\<exists>w'. syncLocal fuel M ord fs sched w srcDir destDir recursive = Some (True, w')
     \<and> (\<forall>rel m d. rel \<noteq> [] \<and> content w (ks @ rel) = Some (m, d) \<longrightarrow> mirrored M (path_key w destDir) w' rel m d)
     \<and> (\<forall>rel. content w' (ks @ rel) = content w (ks @ rel))
     \<and> grow {path_key w destDir @ rel | rel. rel \<noteq> []} (path_prefixes w destDir) w w'"
  by (rule syncLocal_mirrors_lemma [OF assms])

theorem syncLocal_mirrors_witness:
  "\<exists>w'. syncLocal 5 (md5_of (\<lambda>x. x)) rev FileSync_new [0] (sample_world ''yo'' []) ''/s'' ''/t'' True = Some (True, w')
     \<and> mirrored (md5_of (\<lambda>x. x)) [''t''] w' [''d'', ''b''] 0x81A4 ''yo''"
proof -
  have k: "path_key (sample_world ''yo'' []) ''/t'' = [''t'']"
    "content (sample_world ''yo'' []) ([''s''] @ [''d'', ''b'']) = Some (0x81A4, ''yo'')" by code_simp+
  have "fsy_conflictStrategy FileSync_new = ''overwrite''" by (simp add: FileSync_new_def)
  from syncLocal_mirrors [OF sample_md5 sample_order this sample_mirror_ready, of "[0]" True] k
  show ?thesis by fastforce
qed

end
